(* ===== verification/Prelude.thy ===== *)
theory Prelude
  imports Main "HOL-Library.Word"
begin

unbundle bit_operations_syntax

text \<open>
  Shared vocabulary of the development: the machine integer types of the
  sources, the outcome of a Rust computation that may panic, checked machine
  arithmetic, and the generic facts on lists, options and bits that the
  component theories use.

  Arithmetic follows the profile the workspace is built with by default (the
  dev profile: \<open>xtask\<close> passes \<open>--release\<close> only on request), in which an overflow
  of \<open>+\<close>, \<open>-\<close>, \<open>*\<close>, unary minus or a shift amount is a panic; \<open>wrapping_*\<close>
  operations and \<open>Wrapping\<close> values wrap.
\<close>

section \<open>Machine integers\<close>

type_synonym u8 = "8 word"
type_synonym u16 = "16 word"
type_synonym u32 = "32 word"
type_synonym u64 = "64 word"
type_synonym usize = "64 word"
type_synonym bytes = "u8 list"

section \<open>Computations that may panic\<close>

datatype panic =
    ArithOverflow        \<comment> \<open>checked arithmetic or shift amount out of range\<close>
  | AssertFailed         \<comment> \<open>\<open>assert!\<close>, \<open>assert_eq!\<close>, \<open>assert_ne!\<close>, \<open>unreachable!\<close>, \<open>panic!\<close>\<close>
  | UnwrapFailed         \<comment> \<open>\<open>unwrap\<close> / \<open>expect\<close> on a value that is not there\<close>
  | OutOfBounds          \<comment> \<open>slice or array index out of range\<close>

type_synonym 'a run = "panic + 'a"

definition rbind :: "'e + 'a \<Rightarrow> ('a \<Rightarrow> 'e + 'b) \<Rightarrow> 'e + 'b" where
  "rbind m f = (case m of Inl e \<Rightarrow> Inl e | Inr x \<Rightarrow> f x)"

definition assert_run :: "bool \<Rightarrow> unit run" where
  "assert_run b = (if b then Inr () else Inl AssertFailed)"

definition unwrap :: "'a option \<Rightarrow> 'a run" where
  "unwrap o' = (case o' of None \<Rightarrow> Inl UnwrapFailed | Some x \<Rightarrow> Inr x)"

lemma rbind_simps [simp]:
  "rbind (Inl e) f = Inl e"
  "rbind (Inr x) f = f x"
  by (simp_all add: rbind_def)

lemma rbind_Inr_conv: "rbind m f = Inr y \<longleftrightarrow> (\<exists>x. m = Inr x \<and> f x = Inr y)"
  by (cases m) auto

lemma rbind_Inl_conv: "rbind m f = Inl e \<longleftrightarrow> m = Inl e \<or> (\<exists>x. m = Inr x \<and> f x = Inl e)"
  by (cases m) auto

lemma rbind_cong [fundef_cong]:
  "m = m' \<Longrightarrow> (\<And>x. m' = Inr x \<Longrightarrow> f x = f' x) \<Longrightarrow> rbind m f = rbind m' f'"
  by (cases m') auto

lemma assert_run_simps [simp]:
  "assert_run True = Inr ()"
  "assert_run False = Inl AssertFailed"
  "assert_run b = Inr u \<longleftrightarrow> b"
  "assert_run b = Inl p \<longleftrightarrow> \<not> b \<and> p = AssertFailed"
  by (auto simp: assert_run_def)

lemma unwrap_simps [simp]:
  "unwrap None = Inl UnwrapFailed"
  "unwrap (Some x) = Inr x"
  "unwrap o' = Inr x \<longleftrightarrow> o' = Some x"
  by (auto simp: unwrap_def split: option.splits)

section \<open>Checked arithmetic on words\<close>

definition add_chk :: "'a::len word \<Rightarrow> 'a word \<Rightarrow> 'a word run" where
  "add_chk a b = (if unat a + unat b < 2 ^ LENGTH('a) then Inr (a + b) else Inl ArithOverflow)"

definition sub_chk :: "'a::len word \<Rightarrow> 'a word \<Rightarrow> 'a word run" where
  "sub_chk a b = (if b \<le> a then Inr (a - b) else Inl ArithOverflow)"

definition shl_chk :: "'a::len word \<Rightarrow> 'a word \<Rightarrow> 'a word run" where
  "shl_chk a n = (if unat n < LENGTH('a) then Inr (push_bit (unat n) a) else Inl ArithOverflow)"

definition shr_chk :: "'a::len word \<Rightarrow> 'a word \<Rightarrow> 'a word run" where
  "shr_chk a n = (if unat n < LENGTH('a) then Inr (drop_bit (unat n) a) else Inl ArithOverflow)"

lemma add_chk_Inr: "add_chk a b = Inr c \<Longrightarrow> unat c = unat a + unat b"
  by (auto simp: add_chk_def unat_word_ariths split: if_splits)

lemma sub_chk_Inr: "sub_chk a b = Inr c \<Longrightarrow> unat c = unat a - unat b \<and> unat b \<le> unat a"
  by (auto simp: sub_chk_def unat_sub word_le_nat_alt split: if_splits)

text \<open>For evaluation: the test on words instead of natural numbers.\<close>

lemma add_no_overflow: "unat a + unat b < 2 ^ LENGTH('a) \<longleftrightarrow> a \<le> a + (b :: 'a::len word)"
proof -
  define M :: nat where "M = 2 ^ LENGTH('a)"
  have lt: "unat a < M" "unat b < M" by (simp_all add: M_def)
  have sum: "unat (a + b) = (unat a + unat b) mod M" unfolding M_def by (rule unat_word_ariths)
  show ?thesis
  proof (cases "unat a + unat b < M")
    case True
    then show ?thesis using sum by (simp add: word_le_nat_alt M_def [symmetric])
  next
    case False
    then have "unat (a + b) = unat a + unat b - M" using sum lt by (simp add: mod_if)
    then show ?thesis using False lt by (simp add: word_le_nat_alt M_def [symmetric])
  qed
qed

lemma add_chk_code [code]: "add_chk a b = (let s = a + b in if a \<le> s then Inr s else Inl ArithOverflow)"
  by (simp add: add_chk_def add_no_overflow Let_def)

section \<open>Slices\<close>

definition slice_from :: "'a list \<Rightarrow> nat \<Rightarrow> 'a list run" where
  "slice_from s n = (if n \<le> length s then Inr (drop n s) else Inl OutOfBounds)"

definition slice_to :: "'a list \<Rightarrow> nat \<Rightarrow> 'a list run" where
  "slice_to s n = (if n \<le> length s then Inr (take n s) else Inl OutOfBounds)"

definition nat_sub_chk :: "nat \<Rightarrow> nat \<Rightarrow> nat run" where
  "nat_sub_chk a b = (if b \<le> a then Inr (a - b) else Inl ArithOverflow)"

section \<open>Multiples of a power of two\<close>

lemma unat_lt_pow [simp]: "unat (x :: 'a::len word) < 2 ^ LENGTH('a)"
  using unsigned_less [of x] by simp

lemma unat_of_nat_lt: "n < 2 ^ LENGTH('a) \<Longrightarrow> unat (of_nat n :: 'a::len word) = n"
  by (simp add: unat_of_nat take_bit_nat_eq_self)

lemma pow_le_pow_mult_div: "(2::nat) ^ b dvd m \<Longrightarrow> m div 2 ^ b * 2 ^ b = m"
  by simp

end
