(* ===== verification/Bitop.thy ===== *)
theory Bitop
  imports Prelude
begin

unbundle bit_operations_syntax

text \<open>
  The extension trait \<open>BitOpEx\<close> of \<open>h2o/libs/bitop_ex/src/lib.rs\<close>, on words of any
  width: rounding to a power of two, count-zero intrinsics, floor and ceiling of
  the binary logarithm. Every memory component (page frames, page tables,
  address ranges) computes with these.
\<close>

section \<open>The operations\<close>

definition round_up_bit :: "'a::len word \<Rightarrow> 'a word \<Rightarrow> 'a word run" where
  "round_up_bit x b =
     rbind (shl_chk 1 b) (\<lambda>val. Inr (((x - 1) OR (val - 1)) + 1))"

definition round_down_bit :: "'a::len word \<Rightarrow> 'a word \<Rightarrow> 'a word run" where
  "round_down_bit x b =
     rbind (shl_chk 1 b) (\<lambda>val. Inr (x AND NOT (val - 1)))"

definition div_ceil_bit :: "'a::len word \<Rightarrow> 'a word \<Rightarrow> 'a word run" where
  "div_ceil_bit x b = rbind (round_up_bit x b) (\<lambda>r. shr_chk r b)"

text \<open>The intrinsics \<open>cttz\<close> and \<open>ctlz\<close>: the width of the type on zero.\<close>

definition cttz :: "'a::len word \<Rightarrow> 'a word" where
  "cttz x = of_nat (length (takeWhile (\<lambda>i. \<not> bit x i) [0..<LENGTH('a)]))"

definition ctlz :: "'a::len word \<Rightarrow> 'a word" where
  "ctlz x = of_nat (length (takeWhile (\<lambda>i. \<not> bit x i) (rev [0..<LENGTH('a)])))"

definition lsb :: "'a::len word \<Rightarrow> 'a word" where
  "lsb x = cttz x"

definition msb :: "'a::len word \<Rightarrow> 'a word" where
  "msb x = of_nat LENGTH('a) - (ctlz x + 1)"

definition log2f :: "'a::len word \<Rightarrow> 'a word" where
  "log2f x = msb x"

definition log2c :: "'a::len word \<Rightarrow> 'a word run" where
  "log2c x = add_chk (msb x) (if msb x \<noteq> lsb x then 1 else 0)"

definition contains_bit :: "'a::len word \<Rightarrow> 'a word \<Rightarrow> bool" where
  "contains_bit x b \<longleftrightarrow> x AND b \<noteq> 0"

section \<open>Bit positions\<close>

lemma takeWhile_upt_first:
  fixes P :: "nat \<Rightarrow> bool" and n :: nat
  defines "k \<equiv> length (takeWhile (\<lambda>i. \<not> P i) [0..<n])"
  shows "k \<le> n" "i < k \<Longrightarrow> \<not> P i" "k < n \<Longrightarrow> P k"
proof -
  let ?t = "takeWhile (\<lambda>i. \<not> P i) [0..<n]"
  show le: "k \<le> n" unfolding k_def using length_takeWhile_le [of _ "[0..<n]"] by simp
  show "i < k \<Longrightarrow> \<not> P i"
  proof -
    assume "i < k"
    then have "?t ! i \<in> set ?t" "?t ! i = i"
      using le unfolding k_def by (blast intro: nth_mem, auto simp: takeWhile_nth)
    then show ?thesis using set_takeWhileD by fastforce
  qed
  show "k < n \<Longrightarrow> P k"
    unfolding k_def using nth_length_takeWhile [of "\<lambda>i. \<not> P i" "[0..<n]"] by simp
qed

lemma takeWhile_rev_upt_first:
  fixes P :: "nat \<Rightarrow> bool" and n :: nat
  defines "k \<equiv> length (takeWhile (\<lambda>i. \<not> P i) (rev [0..<n]))"
  shows "k \<le> n" "n - k \<le> i \<Longrightarrow> i < n \<Longrightarrow> \<not> P i" "k < n \<Longrightarrow> P (n - 1 - k)"
proof -
  let ?t = "takeWhile (\<lambda>i. \<not> P i) (rev [0..<n])"
  show le: "k \<le> n" unfolding k_def using length_takeWhile_le [of _ "rev [0..<n]"] by simp
  show "n - k \<le> i \<Longrightarrow> i < n \<Longrightarrow> \<not> P i"
  proof -
    assume i: "n - k \<le> i" "i < n"
    then have "n - 1 - i < k" using le by simp
    then have "?t ! (n - 1 - i) \<in> set ?t" "?t ! (n - 1 - i) = i"
      using i le unfolding k_def by (blast intro: nth_mem, auto simp: takeWhile_nth rev_nth)
    then show ?thesis using set_takeWhileD by fastforce
  qed
  show "k < n \<Longrightarrow> P (n - 1 - k)"
    unfolding k_def using nth_length_takeWhile [of "\<lambda>i. \<not> P i" "rev [0..<n]"] by (simp add: rev_nth)
qed

lemma unat_of_nat_le_len: "k \<le> LENGTH('a::len) \<Longrightarrow> unat (of_nat k :: 'a word) = k"
  by (rule unat_of_nat_lt) (meson le_less_trans less_exp)

lemma word_nonzero_bit: "x \<noteq> 0 \<Longrightarrow> \<exists>i < LENGTH('a). bit (x :: 'a::len word) i"
  by (metis bit_imp_le_length bit_word_eqI bit_0_eq bot_apply bot_bool_def)

lemma cttz_le: "unat (cttz (x :: 'a::len word)) \<le> LENGTH('a)"
  and cttz_low: "i < unat (cttz x) \<Longrightarrow> \<not> bit x i"
  and cttz_bit: "x \<noteq> 0 \<Longrightarrow> unat (cttz x) < LENGTH('a) \<and> bit x (unat (cttz x))"
proof -
  let ?k = "length (takeWhile (\<lambda>i. \<not> bit x i) [0..<LENGTH('a)])"
  note first = takeWhile_upt_first [where P = "bit x" and n = "LENGTH('a)"]
  have u: "unat (cttz x) = ?k"
    unfolding cttz_def using first(1) by (simp add: unat_of_nat_le_len)
  show "unat (cttz x) \<le> LENGTH('a)" "i < unat (cttz x) \<Longrightarrow> \<not> bit x i"
    using first(1) first(2) [of i] u by auto
  assume "x \<noteq> 0"
  then obtain i where "i < LENGTH('a)" "bit x i" using word_nonzero_bit by blast
  then have "?k < LENGTH('a)" using first(1) first(2) [of i]
    by (metis linorder_neqE_nat order_le_less)
  then show "unat (cttz x) < LENGTH('a) \<and> bit x (unat (cttz x))"
    using first(3) u by simp
qed

lemma cttz_zero [simp]: "cttz (0 :: 'a::len word) = of_nat LENGTH('a)"
  by (simp add: cttz_def takeWhile_eq_all_conv [THEN iffD2])

lemma ctlz_zero [simp]: "ctlz (0 :: 'a::len word) = of_nat LENGTH('a)"
  by (simp add: ctlz_def takeWhile_eq_all_conv [THEN iffD2])

text \<open>The most significant set bit.\<close>

lemma msb_bit:
  assumes "x \<noteq> (0 :: 'a::len word)"
  shows "unat (msb x) < LENGTH('a)" "bit x (unat (msb x))" "unat (msb x) < i \<Longrightarrow> \<not> bit x i"
proof -
  let ?n = "LENGTH('a)"
  let ?k = "length (takeWhile (\<lambda>i. \<not> bit x i) (rev [0..<?n]))"
  note first = takeWhile_rev_upt_first [where P = "bit x" and n = ?n]
  obtain j where j: "j < ?n" "bit x j" using word_nonzero_bit assms by blast
  then have kn: "?k < ?n" using first(1) first(2) [of j]
    by (metis diff_le_self diff_self_eq_0 le_neq_implies_less le0)
  have "msb x = of_nat ?n - (of_nat ?k + 1)" by (simp add: msb_def ctlz_def)
  also have "\<dots> = of_nat (?n - 1 - ?k)" using kn by (simp add: of_nat_diff)
  finally have u: "unat (msb x) = ?n - 1 - ?k" by (simp add: unat_of_nat_le_len)
  show "unat (msb x) < ?n" using u kn by simp
  show "bit x (unat (msb x))" using first(3) kn u by simp
  show "unat (msb x) < i \<Longrightarrow> \<not> bit x i"
    using first(2) [of i] u kn by (cases "i < ?n") (auto dest: bit_imp_le_length)
qed

section \<open>Arithmetic meaning\<close>

lemma bit_unat_iff: "bit (unat (x :: 'a::len word)) i \<longleftrightarrow> bit x i"
  by (simp add: bit_unsigned_iff)

lemma Suc_less_exp: "2 \<le> n \<Longrightarrow> n + 1 < (2::nat) ^ n"
  by (induct n rule: nat_induct_at_least) auto

lemma msb_bounds:
  assumes "x \<noteq> (0 :: 'a::len word)"
  shows "2 ^ unat (msb x) \<le> unat x" "unat x < 2 ^ Suc (unat (msb x))"
proof -
  let ?m = "unat (msb x)"
  have "take_bit (Suc ?m) (unat x) = unat x"
    using msb_bit(3) [OF assms] not_le
    by (intro bit_eqI) (auto simp: bit_take_bit_iff bit_unat_iff less_Suc_eq_le)
  then show "unat x < 2 ^ Suc ?m" by (metis take_bit_nat_less_exp)
  have "odd (unat x div 2 ^ ?m)"
    using msb_bit(2) [OF assms] by (simp add: bit_iff_odd [symmetric] bit_unat_iff)
  then have "unat x div 2 ^ ?m \<noteq> 0" by (metis even_zero)
  then show "2 ^ ?m \<le> unat x" by (simp add: div_eq_0_iff not_less)
qed

lemma lsb_dvd: "2 ^ unat (lsb (x :: 'a::len word)) dvd unat x"
proof -
  have "take_bit (unat (lsb x)) (unat x) = 0"
    by (rule bit_eqI) (auto simp: bit_take_bit_iff bit_unat_iff lsb_def dest: cttz_low)
  then show ?thesis by (simp add: take_bit_eq_mod dvd_eq_mod_eq_0)
qed

lemma lsb_maximal:
  assumes "x \<noteq> (0 :: 'a::len word)"
  shows "\<not> 2 ^ Suc (unat (lsb x)) dvd unat x" "unat (lsb x) < LENGTH('a)"
proof -
  have "odd (unat x div 2 ^ unat (lsb x))"
    using cttz_bit [OF assms] by (simp add: bit_iff_odd [symmetric] bit_unat_iff lsb_def)
  then show "\<not> 2 ^ Suc (unat (lsb x)) dvd unat x"
    by (metis dvd_div_iff_mult lsb_dvd power_Suc power_not_zero zero_neq_numeral)
  show "unat (lsb x) < LENGTH('a)" using cttz_bit [OF assms] by (simp add: lsb_def)
qed

lemma msb_eq_lsb_iff:
  assumes "x \<noteq> (0 :: 'a::len word)"
  shows "msb x = lsb x \<longleftrightarrow> unat x = 2 ^ unat (msb x)"
proof
  assume eq: "msb x = lsb x"
  obtain q where q: "unat x = 2 ^ unat (msb x) * q" using lsb_dvd [of x] eq by (metis dvdE)
  have "q < 2" using msb_bounds(2) [OF assms] q by (simp add: mult.commute)
  moreover have "q \<noteq> 0" using q assms by (metis mult_0_right unat_eq_zero)
  ultimately have "q = 1" by linarith
  with q show "unat x = 2 ^ unat (msb x)" by simp
next
  assume eq: "unat x = 2 ^ unat (msb x)"
  have "\<not> (2::nat) ^ Suc (unat (lsb x)) dvd 2 ^ unat (msb x)"
    using lsb_maximal(1) [OF assms] eq by simp
  then have "unat (msb x) \<le> unat (lsb x)"
    by (metis le_imp_power_dvd not_less_eq_eq)
  moreover have "unat (lsb x) \<le> unat (msb x)"
    using lsb_dvd [of x] eq by (metis power_dvd_imp_le one_less_numeral_iff semiring_norm(76))
  ultimately show "msb x = lsb x" by (simp add: word_unat_eq_iff)
qed

lemma Suc_msb_le_width:
  assumes "x \<noteq> (0 :: 'a::len word)"
  shows "unat (msb x) + 1 < 2 ^ LENGTH('a)"
  using msb_bit(1) [OF assms] less_exp [of "LENGTH('a)"] by linarith

text \<open>The ceiling logarithm is the least exponent whose power reaches the argument; it panics on 0.\<close>

lemma log2c_zero: "log2c (0 :: 'a::len word) = Inl ArithOverflow"
  if "1 < LENGTH('a)"
proof -
  have m: "msb (0 :: 'a word) = - 1" by (simp add: msb_def)
  have "lsb (0 :: 'a word) \<noteq> - 1"
  proof
    assume "lsb (0 :: 'a word) = - 1"
    then have "LENGTH('a) = unat (- 1 :: 'a word)"
      by (metis cttz_zero lsb_def order_refl unat_of_nat_le_len)
    then have "LENGTH('a) = 2 ^ LENGTH('a) - 1" by (simp add: unsigned_minus_1_eq_mask mask_eq_exp_minus_1)
    moreover have "LENGTH('a) + 1 < 2 ^ LENGTH('a)" using that by (intro Suc_less_exp) simp
    ultimately show False by linarith
  qed
  with m have "msb (0 :: 'a word) \<noteq> lsb 0" by metis
  with m show ?thesis by (simp add: log2c_def add_chk_def unsigned_minus_1_eq_mask mask_eq_exp_minus_1)
qed

lemma log2c_Inr:
  assumes "x \<noteq> (0 :: 'a::len word)"
  shows "log2c x = Inr (msb x + (if msb x \<noteq> lsb x then 1 else 0))"
    "unat (msb x + (if msb x \<noteq> lsb x then 1 else 0)) = unat (msb x) + (if msb x \<noteq> lsb x then 1 else 0)"
proof -
  show "log2c x = Inr (msb x + (if msb x \<noteq> lsb x then 1 else 0))"
    using Suc_msb_le_width [OF assms] by (auto simp: log2c_def add_chk_def)
  show "unat (msb x + (if msb x \<noteq> lsb x then 1 else 0)) = unat (msb x) + (if msb x \<noteq> lsb x then 1 else 0)"
    using Suc_msb_le_width [OF assms] by (auto simp: unat_word_ariths)
qed

lemma log2c_least:
  assumes "x \<noteq> (0 :: 'a::len word)"
  obtains k where "log2c x = Inr k" "unat x \<le> 2 ^ unat k" "\<And>j. unat x \<le> 2 ^ j \<Longrightarrow> unat k \<le> j"
proof -
  define k where "k = msb x + (if msb x \<noteq> lsb x then 1 else 0)"
  note eq = log2c_Inr [OF assms, folded k_def]
  have up: "unat x \<le> 2 ^ unat k"
    using msb_bounds [OF assms] msb_eq_lsb_iff [OF assms] eq(2) by auto
  have least: "unat k \<le> j" if "unat x \<le> 2 ^ j" for j
  proof (cases "msb x = lsb x")
    case True
    then have "(2::nat) ^ unat (msb x) \<le> 2 ^ j" using that msb_eq_lsb_iff [OF assms] by simp
    with True eq(2) show ?thesis by simp
  next
    case False
    then have "(2::nat) ^ unat (msb x) < 2 ^ j"
      using that msb_eq_lsb_iff [OF assms] msb_bounds(1) [OF assms] by linarith
    with False eq(2) show ?thesis by simp
  qed
  show thesis by (rule that [OF eq(1) up least])
qed

lemma shl_one_mask: "unat b < LENGTH('a) \<Longrightarrow> shl_chk (1 :: 'a::len word) b = Inr (mask (unat b) + 1)"
  by (simp add: shl_chk_def push_bit_of_1 mask_eq_exp_minus_1)

lemma unat_push_drop: "unat (push_bit n (drop_bit n (x :: 'a::len word))) = unat x div 2 ^ n * 2 ^ n"
proof -
  have "unat x div 2 ^ n * 2 ^ n < 2 ^ LENGTH('a)"
    by (meson div_times_less_eq_dividend le_less_trans unat_lt_pow)
  then show ?thesis
    by (simp add: unsigned_push_bit_eq unsigned_drop_bit_eq take_bit_nat_eq_self)
      (simp add: push_bit_eq_mult drop_bit_eq_div take_bit_nat_eq_self)
qed

lemma unat_eq_of_nat_self: "unat x = n \<Longrightarrow> x = of_nat n"
  by auto

lemma round_down_bit_eq:
  assumes "unat b < LENGTH('a)"
  shows "round_down_bit (x :: 'a::len word) b = Inr (push_bit (unat b) (drop_bit (unat b) x))"
proof -
  have "x AND NOT (mask (unat b)) = push_bit (unat b) (drop_bit (unat b) x)"
    by (rule bit_eqI) (auto simp: bit_and_iff bit_not_iff bit_mask_iff bit_push_bit_iff bit_drop_bit_eq possible_bit_word dest: bit_imp_le_length)
  then show ?thesis by (simp add: round_down_bit_def shl_one_mask [OF assms])
qed

lemma or_mask_split:
  "(y :: 'a::len word) OR mask n = push_bit n (drop_bit n y) + mask n"
proof -
  have "y OR mask n = push_bit n (drop_bit n y) OR mask n"
    by (rule bit_eqI) (auto simp: bit_or_iff bit_mask_iff bit_push_bit_iff bit_drop_bit_eq possible_bit_word)
  also have "\<dots> = push_bit n (drop_bit n y) + mask n"
    by (rule disjunctive_add_eq_or [symmetric], rule bit_eqI)
      (auto simp: bit_and_iff bit_mask_iff bit_push_bit_iff)
  finally show ?thesis .
qed

lemma round_up_bit_eq:
  assumes "unat b < LENGTH('a)"
  shows "round_up_bit (x :: 'a::len word) b =
    Inr (of_nat ((unat x + (2 ^ unat b - 1)) div 2 ^ unat b * 2 ^ unat b))"
proof -
  let ?n = "unat b"
  let ?y = "x - 1"
  have "round_up_bit x b = Inr (push_bit ?n (drop_bit ?n ?y) + (mask ?n + 1))"
    by (simp add: round_up_bit_def shl_one_mask [OF assms] or_mask_split add.assoc)
  also have "push_bit ?n (drop_bit ?n ?y) + (mask ?n + 1) = of_nat (unat ?y div 2 ^ ?n * 2 ^ ?n + 2 ^ ?n)"
  proof -
    have "push_bit ?n (drop_bit ?n ?y) = of_nat (unat ?y div 2 ^ ?n * 2 ^ ?n)"
      by (metis unat_push_drop unat_eq_of_nat_self)
    then show ?thesis by (simp add: mask_eq_exp_minus_1)
  qed
  also have "\<dots> = (of_nat ((unat x + (2 ^ ?n - 1)) div 2 ^ ?n * 2 ^ ?n) :: 'a word)"
  proof (cases "x = 0")
    case True
    have d: "(2::nat) ^ ?n dvd 2 ^ LENGTH('a)" using assms by (simp add: le_imp_power_dvd)
    have "(2 ^ LENGTH('a) - 1) div 2 ^ ?n * 2 ^ ?n + 2 ^ ?n = (2 ^ LENGTH('a) :: nat)"
    proof -
      obtain q where q: "(2::nat) ^ LENGTH('a) = 2 ^ ?n * q" using d by (elim dvdE)
      then obtain q' where q': "q = Suc q'" by (cases q) auto
      have "(2 ^ ?n * Suc q' - 1) div 2 ^ ?n = q'"
        by (rule div_nat_eqI) (simp_all add: add_le_imp_le_diff Suc_le_eq)
      then show ?thesis using q q' by simp
    qed
    moreover have "unat ?y = 2 ^ LENGTH('a) - 1"
      using True by (simp add: unsigned_minus_1_eq_mask mask_eq_exp_minus_1)
    ultimately have "of_nat (unat ?y div 2 ^ ?n * 2 ^ ?n + 2 ^ ?n) = (of_nat (2 ^ LENGTH('a)) :: 'a word)"
      by metis
    then show ?thesis using True by simp
  next
    case False
    then have u: "unat ?y = unat x - 1" "0 < unat x"
      by (auto simp: unat_minus_one unat_gt_0)
    have "(unat x - 1) div 2 ^ ?n * 2 ^ ?n + 2 ^ ?n = (unat x - 1 + 2 ^ ?n) div 2 ^ ?n * 2 ^ ?n"
      by (subst div_add_self2) simp_all
    also have "unat x - 1 + 2 ^ ?n = unat x + (2 ^ ?n - 1)" using u(2) by simp
    finally show ?thesis using u by simp
  qed
  finally show ?thesis .
qed

lemmas bit_bounds = msb_bounds lsb_dvd lsb_maximal

lemma round_up_bit_bounds:
  assumes "unat b < LENGTH('a)" "unat (x :: 'a::len word) + 2 ^ unat b \<le> 2 ^ LENGTH('a)"
  obtains r where "round_up_bit x b = Inr r" "unat x \<le> unat r" "unat r < unat x + 2 ^ unat b"
    "2 ^ unat b dvd unat r"
proof -
  let ?p = "2 ^ unat b :: nat"
  let ?m = "(unat x + (?p - 1)) div ?p * ?p"
  have p: "0 < ?p" by simp
  have le: "?m \<le> unat x + (?p - 1)" by (rule div_times_less_eq_dividend)
  have ge: "unat x \<le> ?m"
    using p div_mult_mod_eq [of "unat x + (?p - 1)" ?p] mod_less_divisor [OF p, of "unat x + (?p - 1)"]
    by linarith
  have "?m < 2 ^ LENGTH('a)" using le assms(2) p by linarith
  then have u: "unat (of_nat ?m :: 'a word) = ?m" by (rule unat_of_nat_lt)
  show thesis
  proof (rule that)
    show "round_up_bit x b = Inr (of_nat ?m)" by (rule round_up_bit_eq [OF assms(1)])
    show "unat x \<le> unat (of_nat ?m :: 'a word)" using ge by (simp only: u)
    show "unat (of_nat ?m :: 'a word) < unat x + ?p" using le p unfolding u by linarith
    show "?p dvd unat (of_nat ?m :: 'a word)" unfolding u by simp
  qed
qed

section \<open>Properties\<close>

text \<open>
  \<open>round_up_bit\<close> returns the least multiple of \<open>2 ^ bit\<close> that is not below its
  argument, and \<open>round_down_bit\<close> the greatest one not above it, for every shift amount
  below the width of the type and every argument whose rounded value is representable.
\<close>

theorem rounding_correct:
  fixes x b :: "'a::len word"
  assumes "unat b < LENGTH('a)" "unat x + 2 ^ unat b \<le> 2 ^ LENGTH('a)"
  shows "\<exists>u d. round_up_bit x b = Inr u \<and> round_down_bit x b = Inr d
    \<and> 2 ^ unat b dvd unat u \<and> 2 ^ unat b dvd unat d
    \<and> unat x \<le> unat u \<and> unat u < unat x + 2 ^ unat b
    \<and> unat d \<le> unat x \<and> unat x < unat d + 2 ^ unat b"
proof -
  obtain u where u: "round_up_bit x b = Inr u" "unat x \<le> unat u" "unat u < unat x + 2 ^ unat b"
    "2 ^ unat b dvd unat u"
    using round_up_bit_bounds [OF assms] .
  let ?d = "push_bit (unat b) (drop_bit (unat b) x)"
  have "unat x < unat x div 2 ^ unat b * 2 ^ unat b + 2 ^ unat b"
    using dividend_less_div_times [of "2 ^ unat b" "unat x"] by (simp add: add.commute)
  then have "2 ^ unat b dvd unat ?d \<and> unat ?d \<le> unat x \<and> unat x < unat ?d + 2 ^ unat b"
    by (simp only: unat_push_drop) simp
  then show ?thesis using u round_down_bit_eq [OF assms(1), of x] by blast
qed

theorem rounding_correct_witness:
  "\<exists>u d. round_up_bit (4097 :: 64 word) 12 = Inr u \<and> round_down_bit (4097 :: 64 word) 12 = Inr d
    \<and> 4097 \<le> unat u \<and> unat d \<le> 4097"
  using rounding_correct [of "12 :: 64 word" 4097] by fastforce

text \<open>
  \<open>log2c\<close> returns the least exponent whose power of two is not below a non-zero
  argument (the page order that holds that many pages), and \<open>log2f\<close> the greatest one
  whose power is not above it.
\<close>

theorem logarithms_correct:
  fixes x :: "'a::len word"
  assumes "x \<noteq> 0"
  shows "\<exists>k. log2c x = Inr k \<and> unat x \<le> 2 ^ unat k \<and> (\<forall>j. unat x \<le> 2 ^ j \<longrightarrow> unat k \<le> j)
    \<and> 2 ^ unat (log2f x) \<le> unat x \<and> unat x < 2 ^ Suc (unat (log2f x))"
  using log2c_least [OF assms] msb_bounds [OF assms] unfolding log2f_def by metis

theorem logarithms_correct_witness:
  "\<exists>k. log2c (5 :: 64 word) = Inr k \<and> 5 \<le> (2::nat) ^ unat k"
  using logarithms_correct [of "5 :: 64 word"] by auto

end
