(* ===== verification/Buddy.thy ===== *)
theory Buddy
  imports Bitop
begin

unbundle bit_operations_syntax

text \<open>
  The physical memory manager of \<open>h2o/libs/pmm/src/buddy.rs\<close>: two zones of power of
  two blocks with one free list per order, splitting on allocation, merging with
  the buddy on deallocation, and the exact-size layer on top.

  A \<open>&'static PageFrame\<close> is its index in the array at \<open>KMEM_PHYS_BASE\<close> (a
  \<open>nat\<close>), a \<open>PAddr\<close> its value; the \<open>order\<close> cells of the array are a function, 0 on
  every frame that does not start a free block. \<open>PMM_LOCK\<close> serialises the
  operations, so each is a function on the state. The free lists are the
  intrusive list of a third-party package, whose operations are an argument of
  the definitions and whose documented behaviour is the interface
  \<open>linked_list\<close> below; \<open>force_unlink\<close> only resets the link cell of a frame that
  is on no list.
\<close>

section \<open>Constants and page frame types\<close>

definition PAGE_SHIFT :: nat where "PAGE_SHIFT = 12"
definition PAGE_SIZE :: nat where "PAGE_SIZE = 4096"
definition PFTYPE_BOUND :: nat where "PFTYPE_BOUND = 0x100000000"
definition MAX_ORDER :: nat where "MAX_ORDER = 24 - PAGE_SHIFT"

datatype PfType = Low | High | Max

fun pf_num :: "PfType \<Rightarrow> nat" where
  "pf_num Low = 0"
| "pf_num High = 1"
| "pf_num Max = 2"

definition pftype_from :: "nat \<Rightarrow> PfType" where
  "pftype_from addr = (if addr < PFTYPE_BOUND then Low else High)"

section \<open>The free list interface and the state\<close>

record 'l list_ops =
  ll_new :: 'l
  ll_push_back :: "'l \<Rightarrow> nat \<Rightarrow> 'l"
  ll_pop_front :: "'l \<Rightarrow> (nat \<times> 'l) option"
  ll_remove :: "'l \<Rightarrow> nat \<Rightarrow> 'l"

record 'l pmm =
  pfl_data :: "nat \<Rightarrow> 'l"
  pf_order :: "nat \<Rightarrow> nat"

definition pf_list_mut :: "PfType \<Rightarrow> nat \<Rightarrow> nat option" where
  "pf_list_mut pftype order =
     (if order < MAX_ORDER \<and> pftype \<noteq> Max then Some (order + pf_num pftype * MAX_ORDER) else None)"

section \<open>Addresses, frames and frame numbers\<close>

definition page_frame :: "nat \<Rightarrow> nat" where
  "page_frame addr = addr div PAGE_SIZE"

definition page_address :: "nat \<Rightarrow> nat" where
  "page_address page = (page * PAGE_SIZE) mod 2 ^ 64"

fun pft_base :: "PfType \<Rightarrow> nat run" where
  "pft_base Low = Inr (page_frame 0)"
| "pft_base High = Inr (page_frame PFTYPE_BOUND)"
| "pft_base Max = Inl AssertFailed"

definition page_to_pfn :: "nat \<Rightarrow> PfType \<Rightarrow> nat run" where
  "page_to_pfn page pftype =
     rbind (pft_base pftype) (\<lambda>base. Inr (nat ((int page - int base) mod 2 ^ 64)))"

definition pfn_to_page :: "nat \<Rightarrow> PfType \<Rightarrow> nat run" where
  "pfn_to_page pfn pftype = rbind (pft_base pftype) (\<lambda>base. Inr (base + pfn))"

definition get_buddy :: "nat \<Rightarrow> nat \<Rightarrow> PfType \<Rightarrow> nat run" where
  "get_buddy page order pftype =
     rbind (assert_run (pftype \<noteq> Max)) (\<lambda>_.
     rbind (assert_run (order < MAX_ORDER)) (\<lambda>_.
     rbind (page_to_pfn page pftype) (\<lambda>pfn.
       pfn_to_page (pfn XOR 2 ^ order) pftype)))"

definition get_combined :: "nat \<Rightarrow> nat \<Rightarrow> PfType \<Rightarrow> nat run" where
  "get_combined page order pftype =
     rbind (assert_run (pftype \<noteq> Max)) (\<lambda>_.
     rbind (assert_run (order < MAX_ORDER)) (\<lambda>_.
     rbind (page_to_pfn page pftype) (\<lambda>pfn.
       let buddy = pfn XOR 2 ^ order in pfn_to_page (pfn AND buddy) pftype)))"

section \<open>Blocks of a power of two pages\<close>

definition push_block :: "'l list_ops \<Rightarrow> 'l pmm \<Rightarrow> PfType \<Rightarrow> nat \<Rightarrow> nat \<Rightarrow> 'l pmm run" where
  "push_block ops st pftype o' p =
     rbind (unwrap (pf_list_mut pftype o')) (\<lambda>idx.
     rbind (assert_run (pf_order st p = 0)) (\<lambda>_.
       Inr (st\<lparr>pf_order := (pf_order st)(p := o' + 1),
               pfl_data := (pfl_data st)(idx := ll_push_back ops (pfl_data st idx) p)\<rparr>)))"

fun split_orders :: "'l list_ops \<Rightarrow> nat \<Rightarrow> PfType \<Rightarrow> nat list \<Rightarrow> 'l pmm \<Rightarrow> 'l pmm run" where
  "split_orders ops page pftype [] st = Inr st"
| "split_orders ops page pftype (o' # os) st =
     rbind (push_block ops st pftype o' (page + 2 ^ o'))
       (\<lambda>st'. split_orders ops page pftype os st')"

definition split_page :: "'l list_ops \<Rightarrow> nat \<Rightarrow> PfType \<Rightarrow> nat \<Rightarrow> nat \<Rightarrow> 'l pmm \<Rightarrow> (nat \<times> 'l pmm) run" where
  "split_page ops page pftype lo hi st =
     rbind (assert_run (pftype \<noteq> Max)) (\<lambda>_.
     rbind (assert_run (hi < MAX_ORDER)) (\<lambda>_.
     rbind (split_orders ops page pftype [lo..<hi] st) (\<lambda>st'. Inr (page, st'))))"

fun alloc_orders :: "'l list_ops \<Rightarrow> nat \<Rightarrow> PfType \<Rightarrow> nat list \<Rightarrow> 'l pmm \<Rightarrow> (nat option \<times> 'l pmm) run" where
  "alloc_orders ops order pftype [] st = Inr (None, st)"
| "alloc_orders ops order pftype (o' # os) st =
     rbind (unwrap (pf_list_mut pftype o')) (\<lambda>idx.
       case ll_pop_front ops (pfl_data st idx) of
         Some (page, l) \<Rightarrow>
           let st1 = st\<lparr>pf_order := (pf_order st)(page := 0), pfl_data := (pfl_data st)(idx := l)\<rparr>
           in rbind (split_page ops page pftype order o' st1)
                (\<lambda>(page, st2). Inr (Some (page_address page), st2))
       | None \<Rightarrow> alloc_orders ops order pftype os st)"

definition alloc_page_typed :: "'l list_ops \<Rightarrow> nat \<Rightarrow> PfType \<Rightarrow> 'l pmm \<Rightarrow> (nat option \<times> 'l pmm) run" where
  "alloc_page_typed ops order pftype st =
     rbind (assert_run (pftype \<noteq> Max)) (\<lambda>_.
     rbind (assert_run (order < MAX_ORDER)) (\<lambda>_.
       alloc_orders ops order pftype [order..<MAX_ORDER] st))"

function merge_loop :: "'l list_ops \<Rightarrow> PfType \<Rightarrow> nat \<Rightarrow> nat \<Rightarrow> 'l pmm \<Rightarrow> (nat \<times> nat \<times> 'l pmm) run" where
  "merge_loop ops pftype o' p st =
     (if o' < MAX_ORDER - 1 then
        rbind (unwrap (pf_list_mut pftype o')) (\<lambda>idx.
        rbind (get_buddy p o' pftype) (\<lambda>buddy.
          if pf_order st buddy \<noteq> o' + 1 then Inr (o', p, st)
          else
            rbind (get_combined p o' pftype) (\<lambda>p'.
              merge_loop ops pftype (o' + 1) p'
                (st\<lparr>pf_order := (pf_order st)(buddy := 0),
                    pfl_data := (pfl_data st)(idx := ll_remove ops (pfl_data st idx) buddy)\<rparr>))))
      else Inr (o', p, st))"
  by pat_completeness auto
termination
  by (relation "measure (\<lambda>(ops, pftype, o', p, st). MAX_ORDER - 1 - o')") auto

declare merge_loop.simps [simp del]

definition dealloc_page_typed :: "'l list_ops \<Rightarrow> nat \<Rightarrow> nat \<Rightarrow> PfType \<Rightarrow> 'l pmm \<Rightarrow> 'l pmm run" where
  "dealloc_page_typed ops page order pftype st =
     rbind (assert_run (pftype \<noteq> Max)) (\<lambda>_.
     rbind (assert_run (order < MAX_ORDER)) (\<lambda>_.
     rbind (merge_loop ops pftype order page st) (\<lambda>(o', p, st').
       push_block ops st' pftype o' p)))"

fun alloc_pages :: "'l list_ops \<Rightarrow> nat \<Rightarrow> PfType option \<Rightarrow> 'l pmm \<Rightarrow> (nat option \<times> 'l pmm) run" where
  "alloc_pages ops order pftype st =
     (if \<not> order < MAX_ORDER then Inr (None, st)
      else case (case pftype of None \<Rightarrow> Max | Some t \<Rightarrow> t) of
          Max \<Rightarrow> rbind (alloc_page_typed ops order High st) (\<lambda>(r, st').
                   case r of Some a \<Rightarrow> Inr (Some a, st')
                   | None \<Rightarrow> alloc_page_typed ops order Low st')
        | t \<Rightarrow> alloc_page_typed ops order t st)"

definition dealloc_pages :: "'l list_ops \<Rightarrow> nat \<Rightarrow> nat \<Rightarrow> 'l pmm \<Rightarrow> 'l pmm run" where
  "dealloc_pages ops order addr st =
     rbind (assert_run (order < MAX_ORDER)) (\<lambda>_.
       dealloc_page_typed ops (page_frame addr) order (pftype_from addr) st)"

section \<open>Exact numbers of pages\<close>

function dealloc_exact_loop :: "'l list_ops \<Rightarrow> nat \<Rightarrow> nat \<Rightarrow> 'l pmm \<Rightarrow> 'l pmm run" where
  "dealloc_exact_loop ops start end' st =
     (if start < end' then
        let pftype = pftype_from start; spage = page_frame start; epage = page_frame end' in
        rbind (page_to_pfn spage pftype) (\<lambda>spfn.
        rbind (page_to_pfn epage pftype) (\<lambda>epfn.
          if epfn < spfn then Inl ArithOverflow
          else
            let order = min (unat (lsb (of_nat spfn :: usize))) (MAX_ORDER - 1);
                order = min order (unat (log2f (of_nat (epfn - spfn) :: usize)))
            in rbind (dealloc_page_typed ops spage order pftype st) (\<lambda>st'.
                 if start + PAGE_SIZE * 2 ^ order < 2 ^ 64
                 then dealloc_exact_loop ops (start + PAGE_SIZE * 2 ^ order) end' st'
                 else Inl ArithOverflow)))
      else Inr st)"
  by pat_completeness auto
termination
  by (relation "measure (\<lambda>(ops, start, end', st). end' - start)")
    (simp_all add: PAGE_SIZE_def diff_less_mono2)

declare dealloc_exact_loop.simps [simp del]

definition dealloc_pages_exact :: "'l list_ops \<Rightarrow> nat \<Rightarrow> nat \<Rightarrow> 'l pmm \<Rightarrow> 'l pmm run" where
  "dealloc_pages_exact ops n addr st =
     (let size = (n * PAGE_SIZE) mod 2 ^ 64 in
      if addr + size < 2 ^ 64 then dealloc_exact_loop ops addr (addr + size) st
      else Inl ArithOverflow)"

definition scale_back_pages :: "'l list_ops \<Rightarrow> nat \<Rightarrow> nat \<Rightarrow> nat \<Rightarrow> 'l pmm \<Rightarrow> (nat \<times> 'l pmm) run" where
  "scale_back_pages ops addr order n st =
     rbind (assert_run (order < MAX_ORDER)) (\<lambda>_.
     rbind (assert_run (n \<le> 2 ^ order)) (\<lambda>_.
       let dn = 2 ^ order - n; size = (n * PAGE_SIZE) mod 2 ^ 64 in
       if addr + size < 2 ^ 64 then
         rbind (dealloc_pages_exact ops dn (addr + size) st) (\<lambda>st'. Inr (addr, st'))
       else Inl ArithOverflow))"

definition alloc_pages_exact :: "'l list_ops \<Rightarrow> nat \<Rightarrow> PfType option \<Rightarrow> 'l pmm \<Rightarrow> (nat option \<times> 'l pmm) run" where
  "alloc_pages_exact ops n pftype st =
     rbind (log2c (of_nat n :: usize)) (\<lambda>order.
       if \<not> unat order < MAX_ORDER then Inr (None, st)
       else rbind (alloc_pages ops (unat order) pftype st) (\<lambda>(r, st').
              case r of None \<Rightarrow> Inr (None, st')
              | Some addr \<Rightarrow>
                  rbind (scale_back_pages ops addr (unat order) n st') (\<lambda>(addr, st'').
                    Inr (Some addr, st''))))"

section \<open>Initialisation from the boot memory map\<close>

datatype MemType =
    Reserved | LoaderCode | LoaderData | BootServicesCode | BootServicesData
  | RuntimeServicesCode | RuntimeServicesData | Conventional | Unusable | AcpiReclaim
  | AcpiNonVolatile | Mmio | MmioPortSpace | PalCode | PersistentMemory

record MemRange =
  mr_ty :: MemType
  mr_phys :: nat
  mr_page_count :: nat

definition mem_available :: "MemType \<Rightarrow> bool" where
  "mem_available ty \<longleftrightarrow> ty = Conventional \<or> ty = PersistentMemory"

definition not_reserved :: "nat \<times> nat \<Rightarrow> nat \<Rightarrow> nat \<Rightarrow> bool" where
  "not_reserved r start len \<longleftrightarrow>
     \<not> (fst r \<le> start \<and> start < snd r) \<and> \<not> (fst r \<le> start + len \<and> start + len < snd r)"

fun parse_mmap :: "'l list_ops \<Rightarrow> MemRange list \<Rightarrow> nat \<times> nat \<Rightarrow> nat \<Rightarrow> nat \<Rightarrow> 'l pmm \<Rightarrow> (nat \<times> nat \<times> 'l pmm) run" where
  "parse_mmap ops [] r acc max' st = Inr (acc, max', st)"
| "parse_mmap ops (m # ms) r acc max' st =
     (let base = mr_phys m; n = mr_page_count m in
      if \<not> (n * PAGE_SIZE < 2 ^ 64 \<and> base + n * PAGE_SIZE < 2 ^ 64) then Inl ArithOverflow
      else if mem_available (mr_ty m) \<and> not_reserved r base (n * PAGE_SIZE) then
        rbind (dealloc_pages_exact ops n base st) (\<lambda>st'.
          if acc + n * PAGE_SIZE < 2 ^ 64
          then parse_mmap ops ms r (acc + n * PAGE_SIZE) (max max' (base + n * PAGE_SIZE)) st'
          else Inl ArithOverflow)
      else parse_mmap ops ms r acc (max max' (base + n * PAGE_SIZE)) st)"

definition init :: "'l list_ops \<Rightarrow> MemRange list \<Rightarrow> nat \<times> nat \<Rightarrow> 'l pmm \<Rightarrow> (nat \<times> nat \<times> 'l pmm) run" where
  "init ops mmap r st =
     parse_mmap ops mmap r 0 0 (st\<lparr>pfl_data := (\<lambda>i. if i < 2 * MAX_ORDER then ll_new ops else pfl_data st i)\<rparr>)"

section \<open>Sets of free pages\<close>

definition block :: "nat \<Rightarrow> nat \<Rightarrow> nat set" where
  "block p k = {p..<p + 2 ^ k}"

definition free_pages :: "(nat \<Rightarrow> nat) \<Rightarrow> nat set" where
  "free_pages ord = {q. \<exists>p k. ord p = Suc k \<and> q \<in> block p k}"

definition zone_of :: "nat \<Rightarrow> PfType" where
  "zone_of p = (if p < 2 ^ 20 then Low else High)"

text \<open>Free blocks are aligned to their size, of a legal order, and pairwise disjoint.\<close>

definition blocks_ok :: "(nat \<Rightarrow> nat) \<Rightarrow> bool" where
  "blocks_ok ord \<longleftrightarrow>
     (\<forall>p k. ord p = Suc k \<longrightarrow> k < MAX_ORDER \<and> 2 ^ k dvd p) \<and>
     (\<forall>p q j k. ord p = Suc j \<longrightarrow> ord q = Suc k \<longrightarrow> p \<noteq> q \<longrightarrow> block p j \<inter> block q k = {})"

text \<open>No block below the top order is free together with its buddy.\<close>

definition coalesced :: "(nat \<Rightarrow> nat) \<Rightarrow> bool" where
  "coalesced ord \<longleftrightarrow>
     (\<forall>p k. Suc k < MAX_ORDER \<longrightarrow> 2 ^ Suc k dvd p \<longrightarrow> \<not> (ord p = Suc k \<and> ord (p + 2 ^ k) = Suc k))"

lemma block_self [simp]: "p \<in> block p k"
  by (simp add: block_def)

lemma MAX_ORDER_eq: "MAX_ORDER = 12"
  by (simp add: MAX_ORDER_def PAGE_SHIFT_def)

lemma blocks_okI:
  assumes "\<And>p k. ord p = Suc k \<Longrightarrow> k < MAX_ORDER \<and> 2 ^ k dvd p"
    "\<And>p q j k. ord p = Suc j \<Longrightarrow> ord q = Suc k \<Longrightarrow> p \<noteq> q \<Longrightarrow> block p j \<inter> block q k = {}"
  shows "blocks_ok ord"
  using assms unfolding blocks_ok_def by blast

lemma blocks_okD:
  assumes "blocks_ok ord" "ord p = Suc k"
  shows "k < MAX_ORDER" "2 ^ k dvd p"
  using assms by (auto simp: blocks_ok_def)

lemma blocks_ok_disjoint:
  "blocks_ok ord \<Longrightarrow> ord p = Suc j \<Longrightarrow> ord q = Suc k \<Longrightarrow> p \<noteq> q \<Longrightarrow> block p j \<inter> block q k = {}"
  by (auto simp: blocks_ok_def)

lemma free_start: "ord p = Suc k \<Longrightarrow> p \<in> free_pages ord"
  unfolding free_pages_def by (intro CollectI exI [of _ p] exI [of _ k]) simp

lemma order_zero_of_disjoint: "p \<notin> free_pages ord \<Longrightarrow> ord p = 0"
  using free_start [of ord p] by (cases "ord p") auto

lemma free_pagesI: "ord p = Suc k \<Longrightarrow> x \<in> block p k \<Longrightarrow> x \<in> free_pages ord"
  unfolding free_pages_def by blast

lemma free_pagesE:
  assumes "x \<in> free_pages ord"
  obtains p k where "ord p = Suc k" "x \<in> block p k"
  using assms unfolding free_pages_def by blast

lemma free_pages_push:
  assumes "ord p = 0"
  shows "free_pages (ord(p := Suc k)) = free_pages ord \<union> block p k"
proof (intro set_eqI iffI)
  fix x assume "x \<in> free_pages (ord(p := Suc k))"
  then obtain q j where q: "(ord(p := Suc k)) q = Suc j" "x \<in> block q j" by (rule free_pagesE)
  then show "x \<in> free_pages ord \<union> block p k"
    by (cases "q = p") (auto intro: free_pagesI)
next
  fix x assume "x \<in> free_pages ord \<union> block p k"
  then consider "x \<in> block p k" | "x \<in> free_pages ord" by blast
  then show "x \<in> free_pages (ord(p := Suc k))"
  proof cases
    case 1
    show ?thesis by (rule free_pagesI [OF _ 1]) simp
  next
    case 2
    then obtain q j where q: "ord q = Suc j" "x \<in> block q j" by (rule free_pagesE)
    with assms have "q \<noteq> p" by auto
    with q show ?thesis by (intro free_pagesI [of _ q j]) auto
  qed
qed

lemma blocks_ok_push:
  assumes "blocks_ok ord" "k < MAX_ORDER" "2 ^ k dvd p" "block p k \<inter> free_pages ord = {}"
  shows "blocks_ok (ord(p := Suc k))" "free_pages (ord(p := Suc k)) = free_pages ord \<union> block p k"
proof -
  have "p \<notin> free_pages ord" using assms(4) block_self [of p k] by blast
  then have zero: "ord p = 0" by (rule order_zero_of_disjoint)
  have disj: "block p k \<inter> block q j = {}" if "ord q = Suc j" for q j
    using assms(4) free_pagesI [of ord q j, OF that] by blast
  show "blocks_ok (ord(p := Suc k))"
  proof (rule blocks_okI)
    fix q j assume "(ord(p := Suc k)) q = Suc j"
    then show "j < MAX_ORDER \<and> 2 ^ j dvd q"
      using assms(2,3) blocks_okD [OF assms(1)] by (cases "q = p") auto
  next
    fix q r i j assume *: "(ord(p := Suc k)) q = Suc i" "(ord(p := Suc k)) r = Suc j" "q \<noteq> r"
    then consider "q = p" "ord r = Suc j" "i = k" | "r = p" "ord q = Suc i" "j = k" | "ord q = Suc i" "ord r = Suc j"
      by (cases "q = p"; cases "r = p") auto
    then show "block q i \<inter> block r j = {}"
    proof cases
      case 1
      then show ?thesis using disj by simp
    next
      case 2
      then show ?thesis using disj [of q i] by (simp add: Int_commute)
    next
      case 3
      then show ?thesis using blocks_ok_disjoint [OF assms(1)] *(3) by blast
    qed
  qed
  show "free_pages (ord(p := Suc k)) = free_pages ord \<union> block p k" by (rule free_pages_push) (rule zero)
qed

lemma blocks_ok_pop:
  assumes "blocks_ok ord" "ord p = Suc k"
  shows "blocks_ok (ord(p := 0))" "free_pages (ord(p := 0)) = free_pages ord - block p k"
    "block p k \<subseteq> free_pages ord"
proof -
  show "blocks_ok (ord(p := 0))"
    by (rule blocks_okI) (auto dest: blocks_okD [OF assms(1)] blocks_ok_disjoint [OF assms(1)] split: if_splits)
  show "block p k \<subseteq> free_pages ord" using assms(2) unfolding free_pages_def by blast
  have "(ord(p := 0))(p := Suc k) = ord" using assms(2) by auto
  then have "free_pages ord = free_pages (ord(p := 0)) \<union> block p k"
    using free_pages_push [of "ord(p := 0)" p k] by simp
  moreover have "free_pages (ord(p := 0)) \<inter> block p k = {}"
  proof -
    have "x \<notin> block p k" if x: "x \<in> free_pages (ord(p := 0))" for x
    proof -
      obtain q j where q: "(ord(p := 0)) q = Suc j" "x \<in> block q j" using x by (rule free_pagesE)
      then have "q \<noteq> p" "ord q = Suc j" by (auto split: if_splits)
      then show ?thesis using blocks_ok_disjoint [OF assms(1) _ assms(2)] q(2) by blast
    qed
    then show ?thesis by blast
  qed
  ultimately show "free_pages (ord(p := 0)) = free_pages ord - block p k" by blast
qed

section \<open>Buddies\<close>

lemma bit_of_dvd: "2 ^ k dvd n \<Longrightarrow> bit n k \<longleftrightarrow> \<not> 2 ^ Suc k dvd (n::nat)"
  by (metis bit_iff_odd dvd_div_iff_mult mult.commute power_Suc power_not_zero zero_neq_numeral)

lemma xor_pow_eq:
  fixes n :: nat
  assumes "2 ^ k dvd n"
  shows "n XOR 2 ^ k = (if 2 ^ Suc k dvd n then n + 2 ^ k else n - 2 ^ k)"
    "n AND (n XOR 2 ^ k) = (if 2 ^ Suc k dvd n then n else n - 2 ^ k)"
proof -
  have low: "\<not> bit n k" if "2 ^ Suc k dvd n" using that bit_of_dvd [OF assms] by simp
  have high: "bit n k" if "\<not> 2 ^ Suc k dvd n" using that bit_of_dvd [OF assms] by simp
  have b2: "bit ((2::nat) ^ k) i \<longleftrightarrow> i = k" for i by (auto simp: bit_simps)
  have add: "m + 2 ^ k = m XOR 2 ^ k" if "\<not> bit m k" for m :: nat
    using that b2 by (intro disjunctive_add_eq_xor bit_eqI) (auto simp: bit_and_iff)
  have eq1: "n XOR 2 ^ k = n + 2 ^ k" if "2 ^ Suc k dvd n" using add [OF low [OF that]] by simp
  have eq2: "n XOR 2 ^ k = n - 2 ^ k" if h: "\<not> 2 ^ Suc k dvd n"
  proof -
    have "\<not> bit (n XOR 2 ^ k) k" using high [OF h] b2 by (simp add: bit_xor_iff)
    from add [OF this] have "(n XOR 2 ^ k) + 2 ^ k = n" by (simp add: xor.assoc)
    then show ?thesis by simp
  qed
  show "n XOR 2 ^ k = (if 2 ^ Suc k dvd n then n + 2 ^ k else n - 2 ^ k)"
    using eq1 eq2 by auto
  have and1: "n AND (n XOR 2 ^ k) = n" if "2 ^ Suc k dvd n"
    using low [OF that] b2 by (intro bit_eqI) (auto simp: bit_and_iff bit_xor_iff)
  have and2: "n AND (n XOR 2 ^ k) = n XOR 2 ^ k" if "\<not> 2 ^ Suc k dvd n"
    using high [OF that] b2 by (intro bit_eqI) (auto simp: bit_and_iff bit_xor_iff)
  show "n AND (n XOR 2 ^ k) = (if 2 ^ Suc k dvd n then n else n - 2 ^ k)"
    using and1 and2 eq2 by auto
qed

text \<open>The frame numbers of a zone start at a multiple of every block size.\<close>

lemma zone_base:
  "pft_base (zone_of p) = Inr (if p < 2 ^ 20 then 0 else 2 ^ 20)"
  by (simp add: zone_of_def page_frame_def PFTYPE_BOUND_def PAGE_SIZE_def)

lemma page_to_pfn_zone:
  "p < 2 ^ 64 \<Longrightarrow> page_to_pfn p (zone_of p) = Inr (if p < 2 ^ 20 then p else p - 2 ^ 20)"
  by (simp add: page_to_pfn_def zone_base nat_diff_distrib)

lemma dvd_base: "k < MAX_ORDER \<Longrightarrow> (2::nat) ^ k dvd 2 ^ 20" "k < MAX_ORDER \<Longrightarrow> (2::nat) ^ Suc k dvd 2 ^ 20"
  by (rule le_imp_power_dvd, simp add: MAX_ORDER_eq)+

lemma dvd_minus_base: "(2::nat) ^ 20 \<le> p \<Longrightarrow> 2 ^ k dvd (2::nat) ^ 20 \<Longrightarrow> 2 ^ k dvd p - 2 ^ 20 \<longleftrightarrow> 2 ^ k dvd p"
  by (metis dvd_add_left_iff le_add_diff_inverse2)

definition buddy_of :: "nat \<Rightarrow> nat \<Rightarrow> nat" where
  "buddy_of p k = (if 2 ^ Suc k dvd p then p + 2 ^ k else p - 2 ^ k)"

definition merged_of :: "nat \<Rightarrow> nat \<Rightarrow> nat" where
  "merged_of p k = (if 2 ^ Suc k dvd p then p else p - 2 ^ k)"

lemma pow_le_of_dvd: "2 ^ k dvd p \<Longrightarrow> \<not> 2 ^ Suc k dvd p \<Longrightarrow> (2::nat) ^ k \<le> p"
  by (metis dvd_0_right dvd_imp_le gr_zeroI)

lemma buddies:
  assumes "p < 2 ^ 64" "k < MAX_ORDER" "2 ^ k dvd p"
  shows "get_buddy p k (zone_of p) = Inr (buddy_of p k)"
    "get_combined p k (zone_of p) = Inr (merged_of p k)"
proof -
  define n where "n = (if p < 2 ^ 20 then p else p - 2 ^ 20)"
  define b where "b = (if p < 2 ^ 20 then 0 else 2 ^ 20 :: nat)"
  have nb: "b + n = p" by (simp add: n_def b_def)
  have nd: "2 ^ k dvd n" "2 ^ Suc k dvd n \<longleftrightarrow> 2 ^ Suc k dvd p"
    using assms(3) dvd_minus_base [of p k] dvd_minus_base [of p "Suc k"] dvd_base [OF assms(2)]
    unfolding n_def by (auto simp del: power_Suc)
  have z: "zone_of p \<noteq> Max" by (simp add: zone_of_def)
  have pfn: "page_to_pfn p (zone_of p) = Inr n" using page_to_pfn_zone [OF assms(1)] n_def by simp
  have topage: "pfn_to_page m (zone_of p) = Inr (b + m)" for m
    by (simp add: pfn_to_page_def zone_base b_def)
  have ge: "2 ^ k \<le> n" if "\<not> 2 ^ Suc k dvd n" using pow_le_of_dvd [OF nd(1) that] .
  show "get_buddy p k (zone_of p) = Inr (buddy_of p k)"
    using z assms(2) pfn topage xor_pow_eq(1) [OF nd(1)] nd(2) nb ge
    by (auto simp: get_buddy_def buddy_of_def simp del: power_Suc)
  show "get_combined p k (zone_of p) = Inr (merged_of p k)"
    using z assms(2) pfn topage xor_pow_eq(2) [OF nd(1)] nd(2) nb ge
    by (auto simp: get_combined_def merged_of_def Let_def simp del: power_Suc)
qed

lemma merged_block:
  assumes "2 ^ k dvd p"
  shows "block (merged_of p k) (Suc k) = block p k \<union> block (buddy_of p k) k"
    "block p k \<inter> block (buddy_of p k) k = {}" "2 ^ Suc k dvd merged_of p k"
proof -
  have ge: "2 ^ k \<le> p" if "\<not> 2 ^ Suc k dvd p" using pow_le_of_dvd [OF assms that] .
  show "block (merged_of p k) (Suc k) = block p k \<union> block (buddy_of p k) k"
    using ge by (auto simp: block_def merged_of_def buddy_of_def simp del: power_Suc) (simp_all)
  show "block p k \<inter> block (buddy_of p k) k = {}"
    using ge by (auto simp: block_def merged_of_def buddy_of_def simp del: power_Suc)
  show "2 ^ Suc k dvd merged_of p k"
  proof (cases "2 ^ Suc k dvd p")
    case False
    obtain m where m: "p = 2 ^ k * m" using assms by (elim dvdE)
    with False have "odd m" by auto
    then obtain j where "m = 2 * j + 1" by (elim oddE)
    then have "p - 2 ^ k = 2 ^ Suc k * j" using m by (simp add: algebra_simps)
    then show ?thesis using False unfolding merged_of_def by (metis dvd_triv_left)
  qed (simp add: merged_of_def)
qed

lemma zone_of_block:
  assumes "k < MAX_ORDER" "2 ^ k dvd p" "q \<in> block p k"
  shows "zone_of q = zone_of p"
proof -
  obtain m where m: "p = 2 ^ k * m" using assms(2) by (elim dvdE)
  obtain c :: nat where c: "2 ^ 20 = 2 ^ k * c" using dvd_base(1) [OF assms(1)] by (elim dvdE)
  have "p < 2 ^ 20 \<longleftrightarrow> p + 2 ^ k \<le> 2 ^ 20"
  proof -
    have "p < 2 ^ 20 \<longleftrightarrow> m < c" unfolding m c by simp
    also have "\<dots> \<longleftrightarrow> 2 ^ k * (m + 1) \<le> 2 ^ k * c" by (simp add: Suc_le_eq del: mult_Suc_right)
    finally show ?thesis unfolding m c by (simp add: algebra_simps)
  qed
  with assms(3) show ?thesis unfolding zone_of_def block_def by auto
qed

lemma merged_zone:
  assumes "Suc k < MAX_ORDER" "2 ^ k dvd p"
  shows "zone_of (merged_of p k) = zone_of p" "zone_of (buddy_of p k) = zone_of p"
proof -
  have "p \<in> block (merged_of p k) (Suc k)" "buddy_of p k \<in> block (merged_of p k) (Suc k)"
    using merged_block(1) [OF assms(2)] by auto
  then show "zone_of (merged_of p k) = zone_of p" "zone_of (buddy_of p k) = zone_of p"
    using zone_of_block [OF assms(1) merged_block(3) [OF assms(2)]] by metis+
qed

section \<open>The free list interface\<close>

locale linked_list =
  fixes ops :: "'l list_ops" and to_list :: "'l \<Rightarrow> nat list"
  assumes new: "to_list (ll_new ops) = []"
    and push_back: "x \<notin> set (to_list l) \<Longrightarrow> to_list (ll_push_back ops l x) = to_list l @ [x]"
    and pop_None: "ll_pop_front ops l = None \<longleftrightarrow> to_list l = []"
    and pop_Some: "ll_pop_front ops l = Some (x, l') \<Longrightarrow> to_list l = x # to_list l'"
    and remove: "x \<in> set (to_list l) \<Longrightarrow> to_list (ll_remove ops l x) = remove1 x (to_list l)"

text \<open>
  The invariant of the manager: the order cells describe disjoint aligned blocks
  inside the physical address space (52 bits, so \<open>2 ^ 40\<close> frames), and list \<open>k\<close> of a
  zone holds exactly the starts of the free blocks of order \<open>k\<close> of that zone.
\<close>

definition pmm_inv :: "('l \<Rightarrow> nat list) \<Rightarrow> 'l pmm \<Rightarrow> bool" where
  "pmm_inv to_list st \<longleftrightarrow> blocks_ok (pf_order st) \<and> free_pages (pf_order st) \<subseteq> {..<2 ^ 40} \<and>
     (\<forall>ty k idx. pf_list_mut ty k = Some idx \<longrightarrow>
        distinct (to_list (pfl_data st idx)) \<and>
        set (to_list (pfl_data st idx)) = {p. pf_order st p = Suc k \<and> zone_of p = ty})"

abbreviation free :: "'l pmm \<Rightarrow> nat set" where
  "free st \<equiv> free_pages (pf_order st)"

lemma pmm_invD:
  assumes "pmm_inv to_list st"
  shows "blocks_ok (pf_order st)" "free st \<subseteq> {..<2 ^ 40}"
    "pf_list_mut ty k = Some idx \<Longrightarrow> distinct (to_list (pfl_data st idx))"
    "pf_list_mut ty k = Some idx \<Longrightarrow>
       set (to_list (pfl_data st idx)) = {p. pf_order st p = Suc k \<and> zone_of p = ty}"
  using assms unfolding pmm_inv_def by blast+

lemma pf_list_mut_Some:
  "pf_list_mut ty k = Some idx \<longleftrightarrow> k < MAX_ORDER \<and> ty \<noteq> Max \<and> idx = k + pf_num ty * MAX_ORDER"
  by (auto simp: pf_list_mut_def)

lemma pf_list_mut_inj:
  "pf_list_mut ty k = Some idx \<Longrightarrow> pf_list_mut ty' k' = Some idx \<Longrightarrow> ty = ty' \<and> k = k'"
  by (cases ty; cases ty') (auto simp: pf_list_mut_Some)

lemma zone_neq_Max [simp]: "zone_of p \<noteq> Max"
  by (simp add: zone_of_def)

lemma pmm_inv_upd:
  assumes inv: "pmm_inv to_list st" and idx: "pf_list_mut (zone_of p) k = Some idx"
    and old: "pf_order st p \<in> {0, Suc k}" and v: "v \<in> {0, Suc k}"
    and ok: "blocks_ok ((pf_order st)(p := v))" and bd: "free_pages ((pf_order st)(p := v)) \<subseteq> {..<2 ^ 40}"
    and l: "distinct (to_list l)"
      "set (to_list l) = (if v = 0 then set (to_list (pfl_data st idx)) - {p} else insert p (set (to_list (pfl_data st idx))))"
  shows "pmm_inv to_list (st\<lparr>pf_order := (pf_order st)(p := v), pfl_data := (pfl_data st)(idx := l)\<rparr>)"
proof -
  let ?ord = "(pf_order st)(p := v)"
  have "distinct (to_list (((pfl_data st)(idx := l)) i)) \<and>
        set (to_list (((pfl_data st)(idx := l)) i)) = {q. ?ord q = Suc j \<and> zone_of q = ty}"
    if i: "pf_list_mut ty j = Some i" for ty j i
  proof (cases "i = idx")
    case True
    then have tj: "ty = zone_of p" "j = k" using pf_list_mut_inj [OF idx] i by auto
    have "set (to_list (pfl_data st idx)) = {q. pf_order st q = Suc k \<and> zone_of q = zone_of p}"
      by (rule pmm_invD(4) [OF inv idx])
    then show ?thesis using True l v tj by auto
  next
    case False
    have "\<not> (ty = zone_of p \<and> j = k)" using False i idx by auto
    then have "{q. ?ord q = Suc j \<and> zone_of q = ty} = {q. pf_order st q = Suc j \<and> zone_of q = ty}"
      using old v by auto
    then show ?thesis using False pmm_invD(3,4) [OF inv i] by simp
  qed
  then show ?thesis using ok bd unfolding pmm_inv_def by simp
qed

context linked_list
begin

lemma push_block_ok:
  assumes inv: "pmm_inv to_list st" and ty: "ty = zone_of p" and k: "k < MAX_ORDER" and d: "2 ^ k dvd p"
    and free: "block p k \<inter> free st = {}" and bd: "block p k \<subseteq> {..<2 ^ 40}"
  obtains st' where "push_block ops st ty k p = Inr st'" "pmm_inv to_list st'"
    "free st' = free st \<union> block p k" "pf_order st' = (pf_order st)(p := Suc k)"
proof -
  have zero: "pf_order st p = 0" using free block_self [of p k] order_zero_of_disjoint [of p "pf_order st"] by blast
  obtain idx where idx: "pf_list_mut (zone_of p) k = Some idx" using k by (simp add: pf_list_mut_def)
  define l where "l = ll_push_back ops (pfl_data st idx) p"
  have out: "p \<notin> set (to_list (pfl_data st idx))" using zero pmm_invD(4) [OF inv idx] by auto
  have tl: "to_list l = to_list (pfl_data st idx) @ [p]" unfolding l_def by (rule push_back [OF out])
  note pushed = blocks_ok_push [OF pmm_invD(1) [OF inv] k d free]
  let ?st = "st\<lparr>pf_order := (pf_order st)(p := Suc k), pfl_data := (pfl_data st)(idx := l)\<rparr>"
  have "pmm_inv to_list ?st"
  proof (rule pmm_inv_upd [OF inv idx])
    show "free_pages ((pf_order st)(p := Suc k)) \<subseteq> {..<2 ^ 40}"
      using pushed(2) bd pmm_invD(2) [OF inv] by blast
    show "distinct (to_list l)" using out tl pmm_invD(3) [OF inv idx] by simp
    show "set (to_list l) = (if Suc k = 0 then set (to_list (pfl_data st idx)) - {p} else insert p (set (to_list (pfl_data st idx))))"
      using tl by simp
  qed (use zero pushed(1) in auto)
  moreover have "push_block ops st ty k p = Inr ?st"
    using idx zero by (simp add: push_block_def ty l_def)
  ultimately show thesis using that pushed(2) by simp
qed

lemma take_block_ok:
  assumes inv: "pmm_inv to_list st" and idx: "pf_list_mut ty k = Some idx"
    and p: "pf_order st p = Suc k" "zone_of p = ty"
    and l: "distinct (to_list l)" "set (to_list l) = set (to_list (pfl_data st idx)) - {p}"
  shows "pmm_inv to_list (st\<lparr>pf_order := (pf_order st)(p := 0), pfl_data := (pfl_data st)(idx := l)\<rparr>)"
    "free_pages ((pf_order st)(p := 0)) = free st - block p k" "block p k \<subseteq> free st"
proof -
  note popped = blocks_ok_pop [OF pmm_invD(1) [OF inv] p(1)]
  show "free_pages ((pf_order st)(p := 0)) = free st - block p k" "block p k \<subseteq> free st"
    using popped by auto
  show "pmm_inv to_list (st\<lparr>pf_order := (pf_order st)(p := 0), pfl_data := (pfl_data st)(idx := l)\<rparr>)"
  proof (rule pmm_inv_upd [OF inv])
    show "pf_list_mut (zone_of p) k = Some idx" using idx p(2) by simp
    show "free_pages ((pf_order st)(p := 0)) \<subseteq> {..<2 ^ 40}" using popped(2) pmm_invD(2) [OF inv] by blast
  qed (use p l popped in auto)
qed

subsection \<open>Splitting and allocation\<close>

lemma split_orders_ok:
  assumes "pmm_inv to_list st" "ty = zone_of p" "hi < MAX_ORDER" "2 ^ hi dvd p" "lo \<le> hi"
    "block p hi \<inter> free st \<subseteq> block p lo" "block p hi \<subseteq> {..<2 ^ 40}"
  shows "\<exists>st'. split_orders ops p ty [lo..<hi] st = Inr st' \<and> pmm_inv to_list st' \<and>
    free st' = free st \<union> (block p hi - block p lo)"
  using assms
proof (induction "hi - lo" arbitrary: lo st)
  case 0
  then show ?case by auto
next
  case (Suc d)
  then have lo: "lo < hi" and l12: "lo < MAX_ORDER" by auto
  have up: "[lo..<hi] = lo # [Suc lo..<hi]" using lo by (simp add: upt_conv_Cons)
  let ?s = "p + 2 ^ lo"
  have le: "(2::nat) ^ Suc lo \<le> 2 ^ hi" using lo by (intro power_increasing) auto
  have sub: "block ?s lo \<subseteq> block p hi" "block ?s lo \<inter> block p lo = {}"
    using le by (auto simp: block_def)
  have dv: "2 ^ lo dvd ?s"
    using Suc.prems(4) lo by (meson dvd_add dvd_refl dvd_trans le_imp_power_dvd less_imp_le_nat)
  have "?s \<in> block p hi" using sub(1) block_self [of ?s lo] by blast
  then have z: "ty = zone_of ?s" using zone_of_block [OF Suc.prems(3,4)] Suc.prems(2) by metis
  obtain st1 where st1: "push_block ops st ty lo ?s = Inr st1" "pmm_inv to_list st1"
    "free st1 = free st \<union> block ?s lo"
  proof -
    have "block ?s lo \<inter> free st = {}" using sub Suc.prems(6) by blast
    moreover have "block ?s lo \<subseteq> {..<2 ^ 40}" using sub(1) Suc.prems(7) by blast
    ultimately show thesis by (rule push_block_ok [OF Suc.prems(1) z l12 dv _ _ that])
  qed
  have bl: "block p (Suc lo) = block p lo \<union> block ?s lo" by (auto simp: block_def)
  have "\<exists>st'. split_orders ops p ty [Suc lo..<hi] st1 = Inr st' \<and> pmm_inv to_list st' \<and>
    free st' = free st1 \<union> (block p hi - block p (Suc lo))"
  proof (rule Suc.hyps(1))
    show "d = hi - Suc lo" using Suc.hyps(2) by simp
    show "block p hi \<inter> free st1 \<subseteq> block p (Suc lo)" using Suc.prems(6) st1(3) bl by blast
  qed (use Suc.prems st1 lo in auto)
  then obtain st' where st': "split_orders ops p ty [Suc lo..<hi] st1 = Inr st'" "pmm_inv to_list st'"
    "free st' = free st1 \<union> (block p hi - block p (Suc lo))" by blast
  have "free st' = free st \<union> (block p hi - block p lo)"
    using st'(3) st1(3) sub bl by blast
  then show ?case using up st1(1) st'(1,2) by auto
qed

lemma alloc_orders_ok:
  assumes "pmm_inv to_list st" "ty \<noteq> Max" "order \<le> lo" "order < MAX_ORDER"
  shows "(\<exists>p st'. alloc_orders ops order ty [lo..<MAX_ORDER] st = Inr (Some (page_address p), st') \<and>
            pmm_inv to_list st' \<and> zone_of p = ty \<and> 2 ^ order dvd p \<and> block p order \<subseteq> free st \<and>
            free st' = free st - block p order)
     \<or> (alloc_orders ops order ty [lo..<MAX_ORDER] st = Inr (None, st) \<and>
         (\<forall>p k. pf_order st p = Suc k \<longrightarrow> zone_of p = ty \<longrightarrow> k < lo))"
  using assms(3)
proof (induction "MAX_ORDER - lo" arbitrary: lo)
  case 0
  then have "MAX_ORDER \<le> lo" by simp
  moreover have "k < MAX_ORDER" if "pf_order st p = Suc k" for p k
    using blocks_okD(1) [OF pmm_invD(1) [OF assms(1)] that] .
  ultimately show ?case by (fastforce intro: less_le_trans)
next
  case (Suc d)
  then have lo: "lo < MAX_ORDER" by simp
  then have up: "[lo..<MAX_ORDER] = lo # [Suc lo..<MAX_ORDER]" by (simp add: upt_conv_Cons)
  obtain idx where idx: "pf_list_mut ty lo = Some idx" using lo assms(2) by (simp add: pf_list_mut_def)
  note members = pmm_invD(4) [OF assms(1) idx]
  show ?case
  proof (cases "ll_pop_front ops (pfl_data st idx)")
    case None
    then have none: "\<not> (pf_order st p = Suc lo \<and> zone_of p = ty)" for p
      using members pop_None by auto
    have eq: "alloc_orders ops order ty [lo..<MAX_ORDER] st = alloc_orders ops order ty [Suc lo..<MAX_ORDER] st"
      using None idx up by simp
    from Suc.hyps(1) [of "Suc lo"] Suc.hyps(2) Suc.prems
    have "(\<exists>p st'. alloc_orders ops order ty [Suc lo..<MAX_ORDER] st = Inr (Some (page_address p), st') \<and>
            pmm_inv to_list st' \<and> zone_of p = ty \<and> 2 ^ order dvd p \<and> block p order \<subseteq> free st \<and>
            free st' = free st - block p order)
     \<or> (alloc_orders ops order ty [Suc lo..<MAX_ORDER] st = Inr (None, st) \<and>
         (\<forall>p k. pf_order st p = Suc k \<longrightarrow> zone_of p = ty \<longrightarrow> k < Suc lo))" by simp
    then show ?thesis unfolding eq using none by (metis less_antisym)
  next
    case (Some pl)
    obtain p l where pl: "pl = (p, l)" by (cases pl)
    have lst: "to_list (pfl_data st idx) = p # to_list l" using pop_Some Some pl by simp
    then have p: "pf_order st p = Suc lo" "zone_of p = ty" using members by auto
    have dl: "distinct (p # to_list l)" using pmm_invD(3) [OF assms(1) idx] lst by simp
    let ?st1 = "st\<lparr>pf_order := (pf_order st)(p := 0), pfl_data := (pfl_data st)(idx := l)\<rparr>"
    have taken: "pmm_inv to_list ?st1" "free ?st1 = free st - block p lo" "block p lo \<subseteq> free st"
      using take_block_ok [OF assms(1) idx p, of l] dl lst by auto
    have dv: "2 ^ lo dvd p" by (rule blocks_okD(2) [OF pmm_invD(1) [OF assms(1)] p(1)])
    obtain st' where st': "split_orders ops p ty [order..<lo] ?st1 = Inr st'" "pmm_inv to_list st'"
      "free st' = free ?st1 \<union> (block p lo - block p order)"
    proof -
      have "block p lo \<inter> free ?st1 \<subseteq> block p order" using taken(2) by blast
      moreover have "block p lo \<subseteq> {..<2 ^ 40}" using taken(3) pmm_invD(2) [OF assms(1)] by blast
      ultimately show thesis
        using split_orders_ok [OF taken(1) p(2) [symmetric] lo dv Suc.prems] that by blast
    qed
    have ole: "(2::nat) ^ order \<le> 2 ^ lo" using Suc.prems by (intro power_increasing) auto
    then have osub: "block p order \<subseteq> block p lo" by (auto simp: block_def)
    have "free st' = free st - block p order" using st'(3) taken(2,3) osub by blast
    moreover have "alloc_orders ops order ty [lo..<MAX_ORDER] st = Inr (Some (page_address p), st')"
      using up idx Some pl st'(1) lo assms(2) by (simp add: split_page_def Let_def)
    moreover have "2 ^ order dvd p" using dv Suc.prems by (meson dvd_trans le_imp_power_dvd)
    ultimately show ?thesis using st'(2) p(2) osub taken(3) by blast
  qed
qed

end

lemma coalescedI:
  assumes "\<And>p k. Suc k < MAX_ORDER \<Longrightarrow> 2 ^ Suc k dvd p \<Longrightarrow> ord p = Suc k \<Longrightarrow> ord (p + 2 ^ k) = Suc k \<Longrightarrow> False"
  shows "coalesced ord"
  using assms unfolding coalesced_def by blast

lemma coalescedD:
  "coalesced ord \<Longrightarrow> Suc k < MAX_ORDER \<Longrightarrow> 2 ^ Suc k dvd p \<Longrightarrow> ord p = Suc k \<Longrightarrow> ord (p + 2 ^ k) \<noteq> Suc k"
  unfolding coalesced_def by blast

lemma coalesced_zero:
  assumes "coalesced ord"
  shows "coalesced (ord(p := 0))"
proof (rule coalescedI)
  fix q k assume *: "Suc k < MAX_ORDER" "2 ^ Suc k dvd q"
    and o: "(ord(p := 0)) q = Suc k" "(ord(p := 0)) (q + 2 ^ k) = Suc k"
  then have "ord q = Suc k" "ord (q + 2 ^ k) = Suc k" by (simp_all split: if_splits)
  then show False using coalescedD [OF assms *] by simp
qed

lemma coalesced_push:
  assumes "coalesced ord" "2 ^ k dvd p" "Suc k < MAX_ORDER \<Longrightarrow> ord (buddy_of p k) \<noteq> Suc k"
  shows "coalesced (ord(p := Suc k))"
proof (rule coalescedI)
  fix q j assume j: "Suc j < MAX_ORDER" "2 ^ Suc j dvd q"
    and o: "(ord(p := Suc k)) q = Suc j" "(ord(p := Suc k)) (q + 2 ^ j) = Suc j"
  consider "q = p" | "q + 2 ^ j = p" | "q \<noteq> p" "q + 2 ^ j \<noteq> p" by blast
  then show False
  proof cases
    case 1
    then have "j = k" using o(1) by simp
    with 1 j o(2) assms(3) show ?thesis by (simp add: buddy_of_def)
  next
    case 2
    then have jk: "j = k" using o(2) by simp
    have "\<not> (2::nat) ^ Suc j dvd 2 ^ j" by (simp add: nat_dvd_not_less)
    then have "\<not> 2 ^ Suc j dvd p" using 2 j(2) by (metis dvd_add_right_iff)
    with 2 jk j o(1) assms(3) show ?thesis by (auto simp: buddy_of_def simp del: power_Suc)
  next
    case 3
    then show ?thesis using o coalescedD [OF assms(1) j] by simp
  qed
qed

lemma split_orders_coalesced:
  assumes "split_orders ops p ty os st = Inr st'" "coalesced (pf_order st)" "pf_order st p = 0"
    "\<And>j. j \<in> set os \<Longrightarrow> 2 ^ Suc j dvd p"
  shows "coalesced (pf_order st')"
  using assms
proof (induction os arbitrary: st)
  case Nil
  then show ?case by simp
next
  case (Cons j os)
  let ?s = "p + 2 ^ j"
  from Cons.prems(1) obtain st1 where st1: "push_block ops st ty j ?s = Inr st1"
    "split_orders ops p ty os st1 = Inr st'" by (auto simp: rbind_Inr_conv)
  have ord: "pf_order st1 = (pf_order st)(?s := Suc j)"
    using st1(1) by (auto simp: push_block_def rbind_Inr_conv)
  have d: "2 ^ Suc j dvd p" using Cons.prems(4) by simp
  have "\<not> (2::nat) ^ Suc j dvd 2 ^ j" by (simp add: nat_dvd_not_less)
  then have nd: "\<not> 2 ^ Suc j dvd ?s" using d by (metis dvd_add_right_iff)
  have "coalesced (pf_order st1)" unfolding ord
  proof (rule coalesced_push [OF Cons.prems(2)])
    show "2 ^ j dvd ?s" using d by (meson dvd_add dvd_refl dvd_trans le_imp_power_dvd le_SucI order_refl)
    show "pf_order st (buddy_of ?s j) \<noteq> Suc j"
      using nd Cons.prems(3) by (simp add: buddy_of_def del: power_Suc)
  qed
  moreover have "pf_order st1 p = 0" using ord Cons.prems(3) by simp
  ultimately show ?case using Cons.IH [OF st1(2)] Cons.prems(4) by simp
qed

lemma alloc_orders_coalesced:
  assumes "alloc_orders ops order ty os st = Inr (r, st')" "coalesced (pf_order st)"
    "\<And>j p. j \<in> set os \<Longrightarrow> pf_order st p = Suc j \<Longrightarrow> 2 ^ j dvd p"
    "\<And>j idx p l. j \<in> set os \<Longrightarrow> pf_list_mut ty j = Some idx \<Longrightarrow> ll_pop_front ops (pfl_data st idx) = Some (p, l) \<Longrightarrow> pf_order st p = Suc j"
  shows "coalesced (pf_order st')"
  using assms
proof (induction os)
  case Nil
  then show ?case by simp
next
  case (Cons j os)
  from Cons.prems(1) obtain idx where idx: "pf_list_mut ty j = Some idx" by (auto simp: rbind_Inr_conv)
  show ?case
  proof (cases "ll_pop_front ops (pfl_data st idx)")
    case None
    then show ?thesis using Cons idx by simp
  next
    case (Some pl)
    obtain p l where pl: "pl = (p, l)" by (cases pl)
    let ?st1 = "st\<lparr>pf_order := (pf_order st)(p := 0), pfl_data := (pfl_data st)(idx := l)\<rparr>"
    from Cons.prems(1) Some pl idx have sp: "split_orders ops p ty [order..<j] ?st1 = Inr st'"
      by (auto simp: split_page_def rbind_Inr_conv Let_def)
    have "2 ^ j dvd p" using Cons.prems(3,4) idx Some pl by simp
    then have "2 ^ Suc i dvd p" if "i \<in> set [order..<j]" for i
      using that by (intro dvd_trans [OF le_imp_power_dvd [of "Suc i" j]]) auto
    then show ?thesis
      using split_orders_coalesced [OF sp] coalesced_zero [OF Cons.prems(2)] by auto
  qed
qed

context linked_list
begin

subsection \<open>Merging and deallocation\<close>

lemma merge_loop_ok:
  assumes "pmm_inv to_list st" "ty = zone_of p" "k < MAX_ORDER" "2 ^ k dvd p"
    "block p k \<inter> free st = {}" "block p k \<subseteq> {..<2 ^ 40}"
  shows "\<exists>k' p' st'. merge_loop ops ty k p st = Inr (k', p', st') \<and> pmm_inv to_list st' \<and>
    k' < MAX_ORDER \<and> 2 ^ k' dvd p' \<and> zone_of p' = ty \<and> block p' k' \<inter> free st' = {} \<and>
    free st' \<union> block p' k' = free st \<union> block p k \<and>
    (Suc k' < MAX_ORDER \<longrightarrow> pf_order st' (buddy_of p' k') \<noteq> Suc k') \<and>
    (coalesced (pf_order st) \<longrightarrow> coalesced (pf_order st'))"
  using assms
proof (induction "MAX_ORDER - k" arbitrary: k p st)
  case 0
  then show ?case by simp
next
  case (Suc d)
  let ?b = "buddy_of p k" let ?m = "merged_of p k"
  show ?case
  proof (cases "k < MAX_ORDER - 1")
    case False
    then have "\<not> Suc k < MAX_ORDER" by simp
    moreover have "merge_loop ops ty k p st = Inr (k, p, st)"
      using False by (simp add: merge_loop.simps [of ops ty k p st])
    ultimately show ?thesis using Suc.prems by blast
  next
    case True
    have "p \<in> {..<2 ^ 40}" using Suc.prems(6) block_self [of p k] by blast
    then have p64: "p < 2 ^ 64" by simp
    note bd = buddies [OF p64 Suc.prems(3,4)]
    obtain idx where idx: "pf_list_mut ty k = Some idx"
      using Suc.prems(2,3) by (simp add: pf_list_mut_def)
    show ?thesis
    proof (cases "pf_order st ?b = Suc k")
      case False
      then have "merge_loop ops ty k p st = Inr (k, p, st)"
        using True idx bd Suc.prems(2) by (simp add: merge_loop.simps [of ops "zone_of p" k p st])
      then show ?thesis using False Suc.prems by blast
    next
      case buddy: True
      define st1 where "st1 = st\<lparr>pf_order := (pf_order st)(?b := 0),
        pfl_data := (pfl_data st)(idx := ll_remove ops (pfl_data st idx) ?b)\<rparr>"
      have step: "merge_loop ops ty k p st = merge_loop ops ty (Suc k) ?m st1"
        using True idx bd buddy Suc.prems(2) by (simp add: merge_loop.simps [of ops "zone_of p" k p st] st1_def)
      have sk: "Suc k < MAX_ORDER" using True by simp
      note mb = merged_block [OF Suc.prems(4)] and mz = merged_zone [OF sk Suc.prems(4)]
      have members: "set (to_list (pfl_data st idx)) = {q. pf_order st q = Suc k \<and> zone_of q = ty}"
        by (rule pmm_invD(4) [OF Suc.prems(1) idx])
      have bin: "?b \<in> set (to_list (pfl_data st idx))" using members buddy mz Suc.prems(2) by auto
      note rm = remove [OF bin] and di = pmm_invD(3) [OF Suc.prems(1) idx]
      have l: "distinct (to_list (ll_remove ops (pfl_data st idx) ?b))"
        "set (to_list (ll_remove ops (pfl_data st idx) ?b)) = set (to_list (pfl_data st idx)) - {?b}"
        using rm di by auto
      have zb: "zone_of ?b = ty" using mz Suc.prems(2) by simp
      note taken = take_block_ok [OF Suc.prems(1) idx buddy zb l]
      have free1: "free st1 = free st - block ?b k" using taken(2) by (simp add: st1_def)
      have "\<exists>k' p' st'. merge_loop ops ty (Suc k) ?m st1 = Inr (k', p', st') \<and> pmm_inv to_list st' \<and>
        k' < MAX_ORDER \<and> 2 ^ k' dvd p' \<and> zone_of p' = ty \<and> block p' k' \<inter> free st' = {} \<and>
        free st' \<union> block p' k' = free st1 \<union> block ?m (Suc k) \<and>
        (Suc k' < MAX_ORDER \<longrightarrow> pf_order st' (buddy_of p' k') \<noteq> Suc k') \<and>
        (coalesced (pf_order st1) \<longrightarrow> coalesced (pf_order st'))"
      proof (rule Suc.hyps(1))
        show "d = MAX_ORDER - Suc k" using Suc.hyps(2) by simp
        show "pmm_inv to_list st1" using taken(1) by (simp add: st1_def)
        show "ty = zone_of ?m" using mz Suc.prems(2) by simp
        show "block ?m (Suc k) \<inter> free st1 = {}" using mb(1) free1 Suc.prems(5) by blast
        show "block ?m (Suc k) \<subseteq> {..<2 ^ 40}"
          using mb(1) Suc.prems(6) taken(3) pmm_invD(2) [OF Suc.prems(1)] by blast
      qed (use sk mb(3) in auto)
      moreover have "free st1 \<union> block ?m (Suc k) = free st \<union> block p k"
        using free1 mb(1) taken(3) by blast
      moreover have "coalesced (pf_order st) \<longrightarrow> coalesced (pf_order st1)"
        by (simp add: st1_def coalesced_zero)
      ultimately show ?thesis unfolding step by metis
    qed
  qed
qed

lemma dealloc_page_typed_ok:
  assumes "pmm_inv to_list st" "ty = zone_of p" "k < MAX_ORDER" "2 ^ k dvd p"
    "block p k \<inter> free st = {}" "block p k \<subseteq> {..<2 ^ 40}"
  obtains st' where "dealloc_page_typed ops p k ty st = Inr st'" "pmm_inv to_list st'"
    "free st' = free st \<union> block p k" "coalesced (pf_order st) \<longrightarrow> coalesced (pf_order st')"
proof -
  obtain k' p' st1 where m: "merge_loop ops ty k p st = Inr (k', p', st1)" "pmm_inv to_list st1"
    "k' < MAX_ORDER" "2 ^ k' dvd p'" "zone_of p' = ty" "block p' k' \<inter> free st1 = {}"
    "free st1 \<union> block p' k' = free st \<union> block p k"
    "Suc k' < MAX_ORDER \<longrightarrow> pf_order st1 (buddy_of p' k') \<noteq> Suc k'"
    "coalesced (pf_order st) \<longrightarrow> coalesced (pf_order st1)"
    using merge_loop_ok [OF assms] by blast
  have "block p' k' \<subseteq> {..<2 ^ 40}" using m(7) assms(6) pmm_invD(2) [OF assms(1)] by blast
  then obtain st' where st': "push_block ops st1 ty k' p' = Inr st'" "pmm_inv to_list st'"
    "free st' = free st1 \<union> block p' k'" "pf_order st' = (pf_order st1)(p' := Suc k')"
    using push_block_ok [OF m(2) m(5) [symmetric] m(3,4,6)] by blast
  have "dealloc_page_typed ops p k ty st = Inr st'"
    using m(1) st'(1) assms(2,3) by (simp add: dealloc_page_typed_def)
  moreover have "coalesced (pf_order st')" if "coalesced (pf_order st)"
    unfolding st'(4) using that m(4,8,9) by (intro coalesced_push) auto
  ultimately show thesis using that st'(2,3) m(7) by metis
qed

end

section \<open>Choosing the order of the next block\<close>

lemma pftype_from_page: "pftype_from (p * PAGE_SIZE) = zone_of p"
  by (simp add: pftype_from_def zone_of_def PFTYPE_BOUND_def PAGE_SIZE_def)

lemma page_frame_page: "page_frame (p * PAGE_SIZE) = p"
  by (simp add: page_frame_def PAGE_SIZE_def)

lemma page_address_page: "p < 2 ^ 52 \<Longrightarrow> page_address p = p * PAGE_SIZE"
  by (simp add: page_address_def PAGE_SIZE_def)

definition zone_base_of :: "nat \<Rightarrow> nat" where
  "zone_base_of p = (if p < 2 ^ 20 then 0 else 2 ^ 20)"

lemma page_to_pfn_ge:
  assumes "p \<le> e" "e < 2 ^ 64"
  shows "page_to_pfn e (zone_of p) = Inr (e - zone_base_of p)"
proof -
  have "zone_base_of p \<le> e" using assms(1) by (auto simp: zone_base_of_def)
  then have "int e - int (zone_base_of p) = int (e - zone_base_of p)" by simp
  moreover have "e - zone_base_of p < 2 ^ 64" using assms(2) by simp
  ultimately have "nat ((int e - int (zone_base_of p)) mod 2 ^ 64) = e - zone_base_of p"
    by (metis mod_less nat_int of_nat_numeral of_nat_power zmod_int)
  then show ?thesis by (simp add: page_to_pfn_def zone_base zone_base_of_def split: if_splits)
qed

definition next_order :: "nat \<Rightarrow> nat \<Rightarrow> nat" where
  "next_order s n = min (min (unat (lsb (of_nat s :: usize))) (MAX_ORDER - 1)) (unat (log2f (of_nat n :: usize)))"

lemma next_order_ok:
  assumes "0 < n" "n < 2 ^ 64" "s < 2 ^ 64"
  shows "next_order s n < MAX_ORDER" "2 ^ next_order s n dvd s" "2 ^ next_order s n \<le> n"
proof -
  show "next_order s n < MAX_ORDER" by (auto simp: next_order_def MAX_ORDER_eq)
  have us: "unat (of_nat s :: usize) = s" and un: "unat (of_nat n :: usize) = n"
    using assms by (auto intro: unat_of_nat_lt)
  have "2 ^ next_order s n dvd (2 :: nat) ^ unat (lsb (of_nat s :: usize))"
    by (rule le_imp_power_dvd) (simp add: next_order_def)
  then show "2 ^ next_order s n dvd s" using lsb_dvd [of "of_nat s :: usize"] us by (metis dvd_trans)
  have "(of_nat n :: usize) \<noteq> 0" using un assms(1) by (metis unat_0 neq0_conv)
  then have "2 ^ unat (log2f (of_nat n :: usize)) \<le> n"
    using msb_bounds(1) [of "of_nat n :: usize"] un by (simp add: log2f_def)
  moreover have "2 ^ next_order s n \<le> (2::nat) ^ unat (log2f (of_nat n :: usize))"
    by (rule power_increasing) (auto simp: next_order_def)
  ultimately show "2 ^ next_order s n \<le> n" by linarith
qed

lemma dealloc_exact_loop_step:
  assumes "p < e" "e < 2 ^ 51"
  shows "dealloc_exact_loop ops (p * PAGE_SIZE) (e * PAGE_SIZE) st =
    (let k = next_order (p - zone_base_of p) (e - p) in
     rbind (dealloc_page_typed ops p k (zone_of p) st) (\<lambda>st'.
       dealloc_exact_loop ops ((p + 2 ^ k) * PAGE_SIZE) (e * PAGE_SIZE) st'))"
proof -
  have "zone_base_of p \<le> p" by (simp add: zone_base_of_def)
  then have sub: "(e - zone_base_of p) - (p - zone_base_of p) = e - p" "\<not> e - zone_base_of p < p - zone_base_of p"
    using assms(1) by auto
  define k where "k = next_order (p - zone_base_of p) (e - p)"
  have "2 ^ k \<le> e - p" unfolding k_def by (rule next_order_ok(3)) (use assms in auto)
  then have "p + 2 ^ k < 2 ^ 51" using assms by linarith
  then have lt: "p * PAGE_SIZE + PAGE_SIZE * 2 ^ k < 2 ^ 64"
    by (simp add: PAGE_SIZE_def)
  have kk: "min (min (unat (lsb (of_nat (p - zone_base_of p) :: usize))) (MAX_ORDER - 1))
      (unat (log2f (of_nat (e - p) :: usize))) = k"
    by (simp add: k_def next_order_def)
  have start: "p * PAGE_SIZE < e * PAGE_SIZE" using assms(1) by (simp add: PAGE_SIZE_def)
  have e64: "e < 2 ^ 64" "p < 2 ^ 64" using assms by auto
  note pfns = page_to_pfn_ge [OF order_refl e64(2)] page_to_pfn_ge [OF less_imp_le [OF assms(1)] e64(1)]
  have step: "p * PAGE_SIZE + PAGE_SIZE * 2 ^ k = (p + 2 ^ k) * PAGE_SIZE" by (simp add: algebra_simps)
  show ?thesis
    unfolding dealloc_exact_loop.simps [of ops "p * PAGE_SIZE" "e * PAGE_SIZE" st] Let_def
      pftype_from_page page_frame_page pfns rbind_simps sub(1) kk k_def [symmetric]
    using start sub(2) lt by (simp add: step del: of_nat_diff)
qed

context linked_list
begin

subsection \<open>Exact numbers of pages\<close>

lemma dealloc_exact_loop_ok:
  assumes "pmm_inv to_list st" "p \<le> e" "e \<le> 2 ^ 40" "{p..<e} \<inter> free st = {}"
  shows "\<exists>st'. dealloc_exact_loop ops (p * PAGE_SIZE) (e * PAGE_SIZE) st = Inr st' \<and> pmm_inv to_list st' \<and>
    free st' = free st \<union> {p..<e} \<and> (coalesced (pf_order st) \<longrightarrow> coalesced (pf_order st'))"
  using assms
proof (induction "e - p" arbitrary: p st rule: less_induct)
  case less
  show ?case
  proof (cases "p < e")
    case False
    then show ?thesis using less.prems by (simp add: dealloc_exact_loop.simps)
  next
    case True
    let ?s = "p - zone_base_of p"
    define k where "k = next_order ?s (e - p)"
    have ok: "k < MAX_ORDER" "2 ^ k dvd ?s" "2 ^ k \<le> e - p"
      unfolding k_def using next_order_ok [of "e - p" ?s] True less.prems(3) by auto
    have dv: "2 ^ k dvd p"
      using ok(2) dvd_minus_base [of p k] dvd_base(1) [OF ok(1)]
      by (cases "p < 2 ^ 20") (auto simp: zone_base_of_def)
    have sub: "block p k \<subseteq> {p..<e}" using ok(3) True by (auto simp: block_def)
    have bd: "block p k \<subseteq> {..<2 ^ 40}" using sub less.prems(3) by fastforce
    have disj: "block p k \<inter> free st = {}" using sub less.prems(4) by blast
    obtain st1 where st1: "dealloc_page_typed ops p k (zone_of p) st = Inr st1" "pmm_inv to_list st1"
      "free st1 = free st \<union> block p k" "coalesced (pf_order st) \<longrightarrow> coalesced (pf_order st1)"
      by (rule dealloc_page_typed_ok [OF less.prems(1) refl ok(1) dv disj bd])
    have "{p + 2 ^ k..<e} \<inter> free st1 = {}"
    proof -
      have "{p + 2 ^ k..<e} \<subseteq> {p..<e}" "{p + 2 ^ k..<e} \<inter> block p k = {}" by (auto simp: block_def)
      then show ?thesis using st1(3) less.prems(4) by blast
    qed
    moreover have "e - (p + 2 ^ k) < e - p" "p + 2 ^ k \<le> e"
      using True ok(3) by (simp_all add: diff_less_mono2)
    ultimately obtain st' where st': "dealloc_exact_loop ops ((p + 2 ^ k) * PAGE_SIZE) (e * PAGE_SIZE) st1 = Inr st'"
      "pmm_inv to_list st'" "free st' = free st1 \<union> {p + 2 ^ k..<e}"
      "coalesced (pf_order st1) \<longrightarrow> coalesced (pf_order st')"
      using less.hyps [of "p + 2 ^ k" st1] st1(2) less.prems(3) by blast
    have e51: "e < 2 ^ 51" using less.prems(3) by simp
    have "dealloc_exact_loop ops (p * PAGE_SIZE) (e * PAGE_SIZE) st = Inr st'"
      using dealloc_exact_loop_step [OF True e51, of ops st] st1(1) st'(1) by (simp add: k_def Let_def)
    moreover have "block p k \<union> {p + 2 ^ k..<e} = {p..<e}" using ok(3) True by (auto simp: block_def)
    then have "free st' = free st \<union> {p..<e}" using st1(3) st'(3) by blast
    ultimately show ?thesis using st' st1(4) by blast
  qed
qed

lemma dealloc_pages_exact_ok:
  assumes "pmm_inv to_list st" "p + n \<le> 2 ^ 40" "{p..<p + n} \<inter> free st = {}"
  obtains st' where "dealloc_pages_exact ops n (p * PAGE_SIZE) st = Inr st'" "pmm_inv to_list st'"
    "free st' = free st \<union> {p..<p + n}" "coalesced (pf_order st) \<longrightarrow> coalesced (pf_order st')"
proof -
  have "n * PAGE_SIZE < 2 ^ 64" "p * PAGE_SIZE + n * PAGE_SIZE < 2 ^ 64"
    using assms(2) by (auto simp: PAGE_SIZE_def)
  then have "dealloc_pages_exact ops n (p * PAGE_SIZE) st = dealloc_exact_loop ops (p * PAGE_SIZE) ((p + n) * PAGE_SIZE) st"
    by (simp add: dealloc_pages_exact_def add_mult_distrib)
  with dealloc_exact_loop_ok [OF assms(1) le_add1 assms(2,3)] that show thesis by auto
qed

lemma alloc_page_typed_ok:
  assumes "pmm_inv to_list st" "ty \<noteq> Max" "order < MAX_ORDER"
  shows "(\<exists>p st'. alloc_page_typed ops order ty st = Inr (Some (p * PAGE_SIZE), st') \<and>
            pmm_inv to_list st' \<and> zone_of p = ty \<and> 2 ^ order dvd p \<and> block p order \<subseteq> free st \<and>
            free st' = free st - block p order \<and> (coalesced (pf_order st) \<longrightarrow> coalesced (pf_order st')))
     \<or> (alloc_page_typed ops order ty st = Inr (None, st) \<and>
         (\<forall>p k. pf_order st p = Suc k \<longrightarrow> zone_of p = ty \<longrightarrow> k < order))"
proof -
  have eq: "alloc_page_typed ops order ty st = alloc_orders ops order ty [order..<MAX_ORDER] st"
    using assms(2,3) by (simp add: alloc_page_typed_def)
  have al: "2 ^ j dvd p" if "pf_order st p = Suc j" for j p
    by (rule blocks_okD(2) [OF pmm_invD(1) [OF assms(1)] that])
  have pop: "pf_order st p = Suc j"
    if "pf_list_mut ty j = Some idx" "ll_pop_front ops (pfl_data st idx) = Some (p, l)" for j idx p l
    using pop_Some [OF that(2)] pmm_invD(4) [OF assms(1) that(1)] by auto
  have co: "coalesced (pf_order st) \<longrightarrow> coalesced (pf_order st')"
    if "alloc_orders ops order ty [order..<MAX_ORDER] st = Inr (r, st')" for r st'
    using alloc_orders_coalesced [OF that] al pop by blast
  have bound: "p < 2 ^ 52" if "block p order \<subseteq> free st" for p
  proof -
    have "p \<in> {..<2 ^ 40}" using that pmm_invD(2) [OF assms(1)] block_self [of p order] by blast
    then show ?thesis by simp
  qed
  from alloc_orders_ok [OF assms(1,2) order_refl assms(3)] show ?thesis
    unfolding eq using page_address_page [OF bound] co by metis
qed

lemma alloc_pages_ok:
  assumes "pmm_inv to_list st" "order < MAX_ORDER"
  shows "(\<exists>p st'. alloc_pages ops order t st = Inr (Some (p * PAGE_SIZE), st') \<and>
            pmm_inv to_list st' \<and> 2 ^ order dvd p \<and> block p order \<subseteq> free st \<and>
            free st' = free st - block p order \<and>
            (\<forall>ty. t = Some ty \<longrightarrow> ty \<noteq> Max \<longrightarrow> zone_of p = ty) \<and>
            (coalesced (pf_order st) \<longrightarrow> coalesced (pf_order st')))
     \<or> (alloc_pages ops order t st = Inr (None, st) \<and>
         (\<forall>p k. pf_order st p = Suc k \<longrightarrow> t \<in> {None, Some Max, Some (zone_of p)} \<longrightarrow> k < order))"
proof -
  have zones: "zone_of p = Low \<or> zone_of p = High" for p by (simp add: zone_of_def)
  note typed = alloc_page_typed_ok [OF assms(1) _ assms(2)]
  consider (any) "t = None \<or> t = Some Max" | (one) ty where "t = Some ty" "ty \<noteq> Max" by (cases t) auto
  then show ?thesis
  proof cases
    case one
    then have "alloc_pages ops order t st = alloc_page_typed ops order ty st"
      using assms(2) by (cases ty) auto
    then show ?thesis using typed [of ty] one by auto
  next
    case any
    then have eq: "alloc_pages ops order t st =
      rbind (alloc_page_typed ops order High st) (\<lambda>(r, st'). case r of Some a \<Rightarrow> Inr (Some a, st') | None \<Rightarrow> alloc_page_typed ops order Low st')"
      using assms(2) by auto
    show ?thesis using typed [of High]
    proof
      assume "\<exists>p st'. alloc_page_typed ops order High st = Inr (Some (p * PAGE_SIZE), st') \<and>
            pmm_inv to_list st' \<and> zone_of p = High \<and> 2 ^ order dvd p \<and> block p order \<subseteq> free st \<and>
            free st' = free st - block p order \<and> (coalesced (pf_order st) \<longrightarrow> coalesced (pf_order st'))"
      then show ?thesis using eq any by auto
    next
      assume none: "alloc_page_typed ops order High st = Inr (None, st) \<and>
         (\<forall>p k. pf_order st p = Suc k \<longrightarrow> zone_of p = High \<longrightarrow> k < order)"
      then have "alloc_pages ops order t st = alloc_page_typed ops order Low st" using eq by simp
      moreover have "\<forall>p k. pf_order st p = Suc k \<longrightarrow> k < order"
        if "\<forall>p k. pf_order st p = Suc k \<longrightarrow> zone_of p = Low \<longrightarrow> k < order"
        using that none zones by metis
      ultimately show ?thesis using typed [of Low] any by auto
    qed simp
  qed
qed

lemma alloc_pages_exact_ok:
  assumes "pmm_inv to_list st" "0 < n" "n < 2 ^ 64"
  shows "(\<exists>p st'. alloc_pages_exact ops n t st = Inr (Some (p * PAGE_SIZE), st') \<and>
            pmm_inv to_list st' \<and> {p..<p + n} \<subseteq> free st \<and> free st' = free st - {p..<p + n} \<and>
            (\<forall>ty. t = Some ty \<longrightarrow> ty \<noteq> Max \<longrightarrow> zone_of p = ty) \<and>
            (coalesced (pf_order st) \<longrightarrow> coalesced (pf_order st')))
     \<or> (alloc_pages_exact ops n t st = Inr (None, st) \<and>
         (\<forall>p k. pf_order st p = Suc k \<longrightarrow> t \<in> {None, Some Max, Some (zone_of p)} \<longrightarrow> 2 ^ k < n))"
proof -
  have un: "unat (of_nat n :: usize) = n" using assms(3) by (simp add: unat_of_nat_lt)
  then have "(of_nat n :: usize) \<noteq> 0" using assms(2) by (metis unat_0 neq0_conv)
  then obtain order where ord: "log2c (of_nat n :: usize) = Inr order" "n \<le> 2 ^ unat order"
    "\<And>j. n \<le> 2 ^ j \<Longrightarrow> unat order \<le> j"
    using log2c_least [of "of_nat n :: usize"] un by metis
  have small: "2 ^ k < n" if "k < unat order" for k using ord(3) [of k] that by force
  show ?thesis
  proof (cases "unat order < MAX_ORDER")
    case False
    have "k < unat order" if "pf_order st p = Suc k" for p k
      using False blocks_okD(1) [OF pmm_invD(1) [OF assms(1)] that] by simp
    then show ?thesis using False ord(1) small by (simp add: alloc_pages_exact_def)
  next
    case True
    let ?o = "unat order"
    from alloc_pages_ok [OF assms(1) True, of t] show ?thesis
    proof
      assume "alloc_pages ops ?o t st = Inr (None, st) \<and>
         (\<forall>p k. pf_order st p = Suc k \<longrightarrow> t \<in> {None, Some Max, Some (zone_of p)} \<longrightarrow> k < ?o)"
      then show ?thesis using True ord(1) small by (auto simp: alloc_pages_exact_def)
    next
      assume "\<exists>p st'. alloc_pages ops ?o t st = Inr (Some (p * PAGE_SIZE), st') \<and>
            pmm_inv to_list st' \<and> 2 ^ ?o dvd p \<and> block p ?o \<subseteq> free st \<and>
            free st' = free st - block p ?o \<and>
            (\<forall>ty. t = Some ty \<longrightarrow> ty \<noteq> Max \<longrightarrow> zone_of p = ty) \<and>
            (coalesced (pf_order st) \<longrightarrow> coalesced (pf_order st'))"
      then obtain p st1 where a: "alloc_pages ops ?o t st = Inr (Some (p * PAGE_SIZE), st1)"
        "pmm_inv to_list st1" "block p ?o \<subseteq> free st" "free st1 = free st - block p ?o"
        "\<forall>ty. t = Some ty \<longrightarrow> ty \<noteq> Max \<longrightarrow> zone_of p = ty"
        "coalesced (pf_order st) \<longrightarrow> coalesced (pf_order st1)" by blast
      define dn where "dn = 2 ^ ?o - n"
      have pn: "p + n + dn = p + 2 ^ ?o" using ord(2) by (simp add: dn_def)
      have "p + 2 ^ ?o - 1 \<in> block p ?o"
        by (simp add: block_def add_le_imp_le_diff Suc_le_eq)
      then have "p + 2 ^ ?o - 1 \<in> {..<2 ^ 40}" using a(3) pmm_invD(2) [OF assms(1)] by blast
      then have b40: "p + n + dn \<le> 2 ^ 40" using pn by simp
      have rest: "{p + n..<p + n + dn} \<inter> free st1 = {}"
        using a(4) pn by (auto simp: block_def)
      obtain st' where st': "dealloc_pages_exact ops dn ((p + n) * PAGE_SIZE) st1 = Inr st'" "pmm_inv to_list st'"
        "free st' = free st1 \<union> {p + n..<p + n + dn}" "coalesced (pf_order st1) \<longrightarrow> coalesced (pf_order st')"
        by (rule dealloc_pages_exact_ok [OF a(2) b40 rest])
      have lt: "n * PAGE_SIZE < 2 ^ 64" "p * PAGE_SIZE + n * PAGE_SIZE < 2 ^ 64"
        using b40 by (auto simp: PAGE_SIZE_def)
      have "scale_back_pages ops (p * PAGE_SIZE) ?o n st1 = Inr (p * PAGE_SIZE, st')"
        using True ord(2) lt st'(1) by (simp add: scale_back_pages_def Let_def dn_def add_mult_distrib)
      then have "alloc_pages_exact ops n t st = Inr (Some (p * PAGE_SIZE), st')"
        using True ord(1) a(1) by (simp add: alloc_pages_exact_def)
      moreover have "block p ?o = {p..<p + n} \<union> {p + n..<p + n + dn}" "{p..<p + n} \<inter> {p + n..<p + n + dn} = {}"
        using pn ord(2) by (auto simp: block_def)
      then have "{p..<p + n} \<subseteq> free st" "free st' = free st - {p..<p + n}"
        using a(3,4) st'(3) by blast+
      ultimately show ?thesis using st'(2,4) a(5,6) by blast
    qed
  qed
qed

end

section \<open>The boot memory map\<close>

definition range_pages :: "MemRange \<Rightarrow> nat set" where
  "range_pages m = {mr_phys m div PAGE_SIZE..<mr_phys m div PAGE_SIZE + mr_page_count m}"

definition range_usable :: "nat \<times> nat \<Rightarrow> MemRange \<Rightarrow> bool" where
  "range_usable r m \<longleftrightarrow> mem_available (mr_ty m) \<and> not_reserved r (mr_phys m) (mr_page_count m * PAGE_SIZE)"

definition usable_pages :: "nat \<times> nat \<Rightarrow> MemRange list \<Rightarrow> nat set" where
  "usable_pages r ms = (\<Union>m \<in> set (filter (range_usable r) ms). range_pages m)"

definition range_aligned :: "MemRange \<Rightarrow> bool" where
  "range_aligned m \<longleftrightarrow> PAGE_SIZE dvd mr_phys m \<and> mr_phys m div PAGE_SIZE + mr_page_count m \<le> 2 ^ 40"

definition mmap_ok :: "nat \<times> nat \<Rightarrow> MemRange list \<Rightarrow> bool" where
  "mmap_ok r ms \<longleftrightarrow> list_all range_aligned ms \<and>
     sorted_wrt (\<lambda>m m'. range_pages m \<inter> range_pages m' = {}) (filter (range_usable r) ms)"

lemma usable_pages_Cons:
  "usable_pages r (m # ms) = (if range_usable r m then range_pages m else {}) \<union> usable_pages r ms"
  by (simp add: usable_pages_def)

lemma mmap_ok_Cons:
  "mmap_ok r (m # ms) \<longleftrightarrow> range_aligned m \<and> mmap_ok r ms \<and>
     (range_usable r m \<longrightarrow> range_pages m \<inter> usable_pages r ms = {})"
  by (auto simp: mmap_ok_def usable_pages_def)

lemma range_aligned_page:
  assumes "range_aligned m"
  shows "mr_phys m = (mr_phys m div PAGE_SIZE) * PAGE_SIZE"
    "mr_page_count m * PAGE_SIZE < 2 ^ 64" "mr_phys m + mr_page_count m * PAGE_SIZE < 2 ^ 64"
proof -
  show eq: "mr_phys m = (mr_phys m div PAGE_SIZE) * PAGE_SIZE"
    using assms by (simp add: range_aligned_def)
  have "mr_phys m div PAGE_SIZE + mr_page_count m \<le> 2 ^ 40" using assms by (simp add: range_aligned_def)
  then have "(mr_phys m div PAGE_SIZE + mr_page_count m) * PAGE_SIZE \<le> 2 ^ 40 * PAGE_SIZE"
    by (rule mult_le_mono1)
  then have "(mr_phys m div PAGE_SIZE + mr_page_count m) * PAGE_SIZE < 2 ^ 64"
    by (simp add: PAGE_SIZE_def)
  then show "mr_phys m + mr_page_count m * PAGE_SIZE < 2 ^ 64" "mr_page_count m * PAGE_SIZE < 2 ^ 64"
    using eq by (simp_all add: add_mult_distrib)
qed

context linked_list
begin

lemma parse_mmap_ok:
  assumes "pmm_inv to_list st" "coalesced (pf_order st)" "mmap_ok r ms"
    "free st \<inter> usable_pages r ms = {}" "acc = card (free st) * PAGE_SIZE"
  shows "\<exists>mx st'. parse_mmap ops ms r acc m0 st = Inr (card (free st') * PAGE_SIZE, mx, st') \<and>
    pmm_inv to_list st' \<and> coalesced (pf_order st') \<and> free st' = free st \<union> usable_pages r ms"
  using assms
proof (induction ms arbitrary: st acc m0)
  case Nil
  then show ?case by (simp add: usable_pages_def)
next
  case (Cons m ms)
  let ?p = "mr_phys m div PAGE_SIZE" let ?n = "mr_page_count m"
  have ok: "range_aligned m" "mmap_ok r ms" using Cons.prems(3) by (auto simp: mmap_ok_Cons)
  note ra = range_aligned_page [OF ok(1)]
  show ?case
  proof (cases "range_usable r m")
    case False
    then have "parse_mmap ops (m # ms) r acc m0 st = parse_mmap ops ms r acc (max m0 (mr_phys m + ?n * PAGE_SIZE)) st"
      using ra(2,3) by (auto simp: range_usable_def Let_def)
    then show ?thesis using Cons.IH [OF Cons.prems(1,2) ok(2) _ Cons.prems(5)] Cons.prems(4) False
      by (simp add: usable_pages_Cons)
  next
    case True
    then have dis: "range_pages m \<inter> usable_pages r ms = {}" using Cons.prems(3) by (simp add: mmap_ok_Cons)
    have "?p + ?n \<le> 2 ^ 40" using ok(1) by (simp add: range_aligned_def)
    moreover have "{?p..<?p + ?n} \<inter> free st = {}"
      using Cons.prems(4) True by (auto simp: usable_pages_Cons range_pages_def)
    ultimately obtain st1 where st1: "dealloc_pages_exact ops ?n (?p * PAGE_SIZE) st = Inr st1" "pmm_inv to_list st1"
      "free st1 = free st \<union> {?p..<?p + ?n}" "coalesced (pf_order st) \<longrightarrow> coalesced (pf_order st1)"
      by (rule dealloc_pages_exact_ok [OF Cons.prems(1)])
    have fin: "finite (free st)" using pmm_invD(2) [OF Cons.prems(1)] finite_lessThan finite_subset by blast
    have card: "card (free st1) = card (free st) + ?n"
      using st1(3) fin \<open>{?p..<?p + ?n} \<inter> free st = {}\<close> by (simp add: card_Un_disjoint Int_commute)
    have "card (free st1) \<le> card {..<(2::nat) ^ 40}"
      by (rule card_mono) (use pmm_invD(2) [OF st1(2)] in auto)
    then have le: "card (free st1) \<le> 2 ^ 40" by (simp del: card_lessThan add: card_lessThan)
    then have lt: "acc + ?n * PAGE_SIZE < 2 ^ 64"
      using card Cons.prems(5) by (simp add: PAGE_SIZE_def)
    have acc1: "acc + ?n * PAGE_SIZE = card (free st1) * PAGE_SIZE"
      using card Cons.prems(5) by (simp add: add_mult_distrib)
    have "free st1 \<inter> usable_pages r ms = {}"
      using st1(3) dis Cons.prems(4) by (auto simp: usable_pages_Cons range_pages_def)
    then obtain mx st' where st': "parse_mmap ops ms r (acc + ?n * PAGE_SIZE) (max m0 (mr_phys m + ?n * PAGE_SIZE)) st1
        = Inr (card (free st') * PAGE_SIZE, mx, st')" "pmm_inv to_list st'" "coalesced (pf_order st')"
      "free st' = free st1 \<union> usable_pages r ms"
      using Cons.IH [OF st1(2) _ ok(2) _ acc1] st1(4) Cons.prems(2) by blast
    have "parse_mmap ops (m # ms) r acc m0 st = Inr (card (free st') * PAGE_SIZE, mx, st')"
      using True ra(2,3) lt st1(1) [folded ra(1)] st'(1) by (simp add: range_usable_def Let_def)
    moreover have "free st' = free st \<union> usable_pages r (m # ms)"
      using st'(4) st1(3) True by (auto simp: usable_pages_Cons range_pages_def)
    ultimately show ?thesis using st' by blast
  qed
qed

lemma init_ok:
  assumes "\<And>p. pf_order st p = 0" "mmap_ok r ms"
  shows "\<exists>mx st'. init ops ms r st = Inr (card (free st') * PAGE_SIZE, mx, st') \<and>
    pmm_inv to_list st' \<and> coalesced (pf_order st') \<and> free st' = usable_pages r ms"
proof -
  let ?st = "st\<lparr>pfl_data := (\<lambda>i. if i < 2 * MAX_ORDER then ll_new ops else pfl_data st i)\<rparr>"
  have f: "free ?st = {}" using assms(1) by (auto simp: free_pages_def)
  have "pmm_inv to_list ?st"
  proof -
    have "pf_list_mut ty k = Some idx \<Longrightarrow> idx < 2 * MAX_ORDER" for ty k idx
      by (cases ty) (auto simp: pf_list_mut_Some)
    then show ?thesis using f assms(1) new by (auto simp: pmm_inv_def blocks_ok_def)
  qed
  moreover have "coalesced (pf_order ?st)" using assms(1) by (simp add: coalesced_def)
  ultimately show ?thesis using parse_mmap_ok [of ?st r ms 0 0] assms(2) f unfolding init_def by simp
qed

end

section \<open>Clients of the manager\<close>

text \<open>
  Any sequence of exact allocations and of deallocations of blocks that are
  still owned: the state of the manager with the list of owned blocks.
\<close>

inductive pmm_step :: "'l list_ops \<Rightarrow> 'l pmm \<times> (nat \<times> nat) list \<Rightarrow> 'l pmm \<times> (nat \<times> nat) list \<Rightarrow> bool"
  for ops :: "'l list_ops" where
  step_alloc: "alloc_pages_exact ops n t st = Inr (Some a, st') \<Longrightarrow> 0 < n \<Longrightarrow> n < 2 ^ 64 \<Longrightarrow>
     pmm_step ops (st, own) (st', (a, n) # own)"
| step_alloc_none: "alloc_pages_exact ops n t st = Inr (None, st') \<Longrightarrow> 0 < n \<Longrightarrow> n < 2 ^ 64 \<Longrightarrow>
     pmm_step ops (st, own) (st', own)"
| step_dealloc: "dealloc_pages_exact ops n a st = Inr st' \<Longrightarrow>
     pmm_step ops (st, xs @ (a, n) # ys) (st', xs @ ys)"

definition owned_pages :: "nat \<times> nat \<Rightarrow> nat set" where
  "owned_pages b = {fst b div PAGE_SIZE..<fst b div PAGE_SIZE + snd b}"

definition client_ok :: "('l \<Rightarrow> nat list) \<Rightarrow> nat set \<Rightarrow> 'l pmm \<times> (nat \<times> nat) list \<Rightarrow> bool" where
  "client_ok to_list mem c \<longleftrightarrow>
     pmm_inv to_list (fst c) \<and> coalesced (pf_order (fst c)) \<and>
     sorted_wrt (\<lambda>b b'. owned_pages b \<inter> owned_pages b' = {}) (snd c) \<and>
     (\<forall>b \<in> set (snd c). PAGE_SIZE dvd fst b \<and> owned_pages b \<inter> free (fst c) = {}) \<and>
     free (fst c) \<union> (\<Union>b \<in> set (snd c). owned_pages b) = mem"

lemma owned_pages_page: "owned_pages (p * PAGE_SIZE, n) = {p..<p + n}"
  by (simp add: owned_pages_def PAGE_SIZE_def)

lemma client_ok_total: "client_ok to_list mem c \<Longrightarrow> b \<in> set (snd c) \<Longrightarrow> owned_pages b \<subseteq> mem"
  by (auto simp: client_ok_def)

lemma client_ok_alloc:
  assumes "client_ok to_list mem (st, own)" "pmm_inv to_list st'" "coalesced (pf_order st')" "PAGE_SIZE dvd a"
    "owned_pages (a, n) \<subseteq> free st" "free st' = free st - owned_pages (a, n)"
  shows "client_ok to_list mem (st', (a, n) # own)"
proof -
  have c: "sorted_wrt (\<lambda>b b'. owned_pages b \<inter> owned_pages b' = {}) own"
    "\<And>b. b \<in> set own \<Longrightarrow> PAGE_SIZE dvd fst b" "\<And>b. b \<in> set own \<Longrightarrow> owned_pages b \<inter> free st = {}"
    "free st \<union> (\<Union>b \<in> set own. owned_pages b) = mem"
    using assms(1) unfolding client_ok_def fst_conv snd_conv by blast+
  have "owned_pages (a, n) \<inter> owned_pages b = {}" "owned_pages b \<inter> free st' = {}" if "b \<in> set own" for b
    using c(3) [OF that] assms(5,6) by blast+
  moreover have "free st' \<union> (\<Union>b \<in> set ((a, n) # own). owned_pages b) = mem"
    using c(4) assms(5,6) by auto
  moreover have "owned_pages (a, n) \<inter> free st' = {}" using assms(6) by blast
  ultimately show ?thesis using c(1,2) assms(2-4) unfolding client_ok_def by simp
qed

lemma client_ok_dealloc:
  assumes "client_ok to_list mem (st, xs @ b # ys)" "pmm_inv to_list st'" "coalesced (pf_order st')"
    "free st' = free st \<union> owned_pages b"
  shows "client_ok to_list mem (st', xs @ ys)"
proof -
  have s: "sorted_wrt (\<lambda>b b'. owned_pages b \<inter> owned_pages b' = {}) (xs @ b # ys)"
    and al: "\<And>c. c \<in> set (xs @ b # ys) \<Longrightarrow> PAGE_SIZE dvd fst c"
    and fr: "\<And>c. c \<in> set (xs @ b # ys) \<Longrightarrow> owned_pages c \<inter> free st = {}"
    and un: "free st \<union> (\<Union>c \<in> set (xs @ b # ys). owned_pages c) = mem"
    using assms(1) unfolding client_ok_def fst_conv snd_conv by blast+
  have dis: "owned_pages c \<inter> owned_pages b = {}" if "c \<in> set (xs @ ys)" for c
    using s that by (auto simp: sorted_wrt_append)
  have "owned_pages c \<inter> free st' = {}" if "c \<in> set (xs @ ys)" for c
    using fr [of c] dis [OF that] that assms(4) by auto
  moreover have "sorted_wrt (\<lambda>b b'. owned_pages b \<inter> owned_pages b' = {}) (xs @ ys)"
    using s by (simp add: sorted_wrt_append)
  moreover have "free st' \<union> (\<Union>c \<in> set (xs @ ys). owned_pages c) = mem"
    using un assms(4) by auto
  ultimately show ?thesis using al assms(2,3) unfolding client_ok_def by simp
qed

context linked_list
begin

lemma owned_dealloc_ok:
  assumes "client_ok to_list mem (st, own)" "(a, n) \<in> set own" "mem \<subseteq> {..<2 ^ 40}" "0 < n"
  obtains st' where "dealloc_pages_exact ops n a st = Inr st'" "pmm_inv to_list st'" "coalesced (pf_order st')"
    "free st' = free st \<union> owned_pages (a, n)"
proof -
  define p where "p = a div PAGE_SIZE"
  have c: "pmm_inv to_list st" "coalesced (pf_order st)" "PAGE_SIZE dvd a" "owned_pages (a, n) \<inter> free st = {}"
    using assms(1,2) by (auto simp: client_ok_def)
  have a: "a = p * PAGE_SIZE" using c(3) by (simp add: p_def)
  have "owned_pages (a, n) \<subseteq> {..<2 ^ 40}" using client_ok_total [OF assms(1)] assms(2,3) by fastforce
  then have "p + n - 1 < 2 ^ 40" using assms(4) by (auto simp: a owned_pages_page subset_iff)
  then have "p + n \<le> 2 ^ 40" by simp
  moreover have "{p..<p + n} \<inter> free st = {}" using c(4) by (simp add: a owned_pages_page)
  ultimately obtain st' where "dealloc_pages_exact ops n (p * PAGE_SIZE) st = Inr st'" "pmm_inv to_list st'"
    "free st' = free st \<union> {p..<p + n}" "coalesced (pf_order st) \<longrightarrow> coalesced (pf_order st')"
    by (rule dealloc_pages_exact_ok [OF c(1)])
  then show thesis using that c(2) by (simp add: a owned_pages_page)
qed

lemma step_ok:
  assumes "pmm_step ops c c'" "client_ok to_list mem c" "mem \<subseteq> {..<2 ^ 40}"
    "\<forall>b \<in> set (snd c). 0 < snd b"
  shows "client_ok to_list mem c' \<and> (\<forall>b \<in> set (snd c'). 0 < snd b)"
  using assms
proof (induction rule: pmm_step.induct)
  case (step_alloc n t st a st' own)
  have inv: "pmm_inv to_list st" "coalesced (pf_order st)" using step_alloc.prems(1) by (auto simp: client_ok_def)
  from alloc_pages_exact_ok [OF inv(1) step_alloc.hyps(2,3), of t] step_alloc.hyps(1) inv(2)
  obtain p where p: "a = p * PAGE_SIZE" "pmm_inv to_list st'" "{p..<p + n} \<subseteq> free st"
    "free st' = free st - {p..<p + n}" "coalesced (pf_order st')" by auto
  then have o: "owned_pages (a, n) \<subseteq> free st" "free st' = free st - owned_pages (a, n)"
    by (simp_all add: owned_pages_page)
  have "PAGE_SIZE dvd a" using p(1) by simp
  then show ?case
    using client_ok_alloc [OF step_alloc.prems(1) p(2,5) _ o] step_alloc.prems(3) step_alloc.hyps(2) by auto
next
  case (step_alloc_none n t st st' own)
  then have "pmm_inv to_list st" by (simp add: client_ok_def)
  from alloc_pages_exact_ok [OF this step_alloc_none.hyps(2,3), of t] step_alloc_none.hyps(1)
  show ?case using step_alloc_none.prems by auto
next
  case (step_dealloc n a st st' xs ys)
  have "(a, n) \<in> set (xs @ (a, n) # ys)" "0 < n" using step_dealloc.prems(3) by auto
  from owned_dealloc_ok [OF step_dealloc.prems(1) this(1) step_dealloc.prems(2) this(2)] step_dealloc.hyps
  have st': "pmm_inv to_list st'" "coalesced (pf_order st')" "free st' = free st \<union> owned_pages (a, n)" by auto
  then show ?case using client_ok_dealloc [OF step_dealloc.prems(1)] step_dealloc.prems(3) by simp
qed

lemma reachable_ok:
  assumes "(pmm_step ops)\<^sup>*\<^sup>* (st0, []) c" "pmm_inv to_list st0" "coalesced (pf_order st0)"
  shows "client_ok to_list (free st0) c \<and> (\<forall>b \<in> set (snd c). 0 < snd b)"
  using assms(1)
proof (induction rule: rtranclp_induct)
  case base
  then show ?case using assms(2,3) by (simp add: client_ok_def)
next
  case (step c c')
  then show ?case using step_ok pmm_invD(2) [OF assms(2)] by blast
qed

end

section \<open>A reference instance of the list interface\<close>

definition ref_ops :: "nat list list_ops" where
  "ref_ops = \<lparr>ll_new = [], ll_push_back = (\<lambda>l x. l @ [x]),
     ll_pop_front = (\<lambda>l. case l of [] \<Rightarrow> None | x # xs \<Rightarrow> Some (x, xs)),
     ll_remove = (\<lambda>l x. remove1 x l)\<rparr>"

interpretation ref_list: linked_list ref_ops "\<lambda>l. l"
  by unfold_locales (auto simp: ref_ops_def split: list.splits)

definition sample_pmm :: "nat list pmm" where
  "sample_pmm = \<lparr>pfl_data = (\<lambda>i. if i = 3 then [8] else []), pf_order = (\<lambda>p. if p = 8 then 4 else 0)\<rparr>"

lemma sample_blocks: "(if p = (8::nat) then 4 else 0) = Suc k \<longleftrightarrow> p = 8 \<and> k = 3"
  by auto

lemma sample_free: "free sample_pmm = {8..<16}"
  unfolding free_pages_def sample_pmm_def by (auto simp: sample_blocks block_def)

lemma sample_inv: "pmm_inv (\<lambda>l. l) sample_pmm" "coalesced (pf_order sample_pmm)"
proof -
  have "blocks_ok (pf_order sample_pmm)"
    unfolding blocks_ok_def sample_pmm_def by (simp add: sample_blocks MAX_ORDER_eq)
  moreover have "pf_list_mut ty k = Some 3 \<longleftrightarrow> ty = Low \<and> k = 3" for ty k
    by (cases ty) (auto simp: pf_list_mut_Some MAX_ORDER_eq)
  then have "distinct (pfl_data sample_pmm idx) \<and>
      set (pfl_data sample_pmm idx) = {p. pf_order sample_pmm p = Suc k \<and> zone_of p = ty}"
    if "pf_list_mut ty k = Some idx" for ty k idx
    using that by (cases "idx = 3"; cases ty) (auto simp: sample_pmm_def sample_blocks zone_of_def pf_list_mut_Some MAX_ORDER_eq)
  ultimately show "pmm_inv (\<lambda>l. l) sample_pmm" unfolding pmm_inv_def sample_free by auto
  show "coalesced (pf_order sample_pmm)"
    unfolding coalesced_def sample_pmm_def by (auto simp: sample_blocks)
qed

lemma sample_alloc_1:
  "alloc_pages ref_ops 1 None sample_pmm
     = Inr (Some 32768, sample_pmm\<lparr>pf_order := (\<lambda>p. if p = 8 then 0 else if p = 10 then 2 else if p = 12 then 3 else 0),
                                   pfl_data := (\<lambda>i. if i = 1 then [10] else if i = 2 then [12] else [])\<rparr>)"
proof -
  have up: "[1..<12] = [1,2,3,4,5,6,7,8,9,10,11::nat]" by (simp add: upt_rec)
  show ?thesis
    by (simp add: alloc_page_typed_def up upt_rec MAX_ORDER_eq pf_list_mut_def ref_ops_def sample_pmm_def
        split_page_def push_block_def page_address_def PAGE_SIZE_def fun_eq_iff)
qed

section \<open>Properties\<close>

text \<open>
  C11. Allocation of a power of two pages. On a well-formed manager \<open>alloc_pages\<close>
  never panics, for no order. Either it returns the address of an aligned block of exactly
  \<open>2 ^ order\<close> pages that was free, of the requested zone, and takes exactly these
  pages out of the free set; or it returns \<open>None\<close>, leaves the state alone, and no
  free block of a requested zone is large enough, which is so whenever the order is out of range.
\<close>

theorem alloc_pages_correct:
  assumes "linked_list ops to_list" "pmm_inv to_list st"
  shows "(\<exists>p st'. alloc_pages ops order t st = Inr (Some (p * PAGE_SIZE), st') \<and>
            pmm_inv to_list st' \<and> 2 ^ order dvd p \<and> {p..<p + 2 ^ order} \<subseteq> free st \<and>
            free st' = free st - {p..<p + 2 ^ order} \<and>
            (\<forall>ty. t = Some ty \<longrightarrow> ty \<noteq> Max \<longrightarrow> zone_of p = ty))
     \<or> (alloc_pages ops order t st = Inr (None, st) \<and>
         (\<forall>p k. pf_order st p = Suc k \<longrightarrow> t \<in> {None, Some Max, Some (zone_of p)} \<longrightarrow> k < order))"
proof (cases "order < MAX_ORDER")
  case True
  then show ?thesis using linked_list.alloc_pages_ok [OF assms True, of t] unfolding block_def by blast
next
  case False
  have "k < order" if "pf_order st p = Suc k" for p k
    using pmm_invD(1) [OF assms(2)] that False unfolding blocks_ok_def by (meson less_le_trans not_le)
  then show ?thesis using False by simp
qed

theorem alloc_pages_correct_witness:
  "\<exists>st'. alloc_pages ref_ops 1 None sample_pmm = Inr (Some 32768, st') \<and> pmm_inv (\<lambda>l. l) st' \<and>
     free st' = {8..<16} - {8..<10}"
proof -
  have "32768 = p * PAGE_SIZE \<longleftrightarrow> p = 8" for p by (auto simp: PAGE_SIZE_def)
  then show ?thesis
    using alloc_pages_correct [OF ref_list.linked_list_axioms sample_inv(1), where order = 1 and t = None] sample_alloc_1
    by (auto simp: MAX_ORDER_eq sample_free)
qed

text \<open>
  C12. Deallocation merges with free buddies and returns exactly the block: on a
  well-formed manager \<open>dealloc_pages\<close> of an aligned block, none of whose pages is
  free, never panics and adds exactly its pages to the free set, and when no
  two buddies were free before, none are afterwards.
\<close>

theorem dealloc_pages_correct:
  assumes "linked_list ops to_list" "pmm_inv to_list st" "order < MAX_ORDER" "2 ^ order dvd p"
    "{p..<p + 2 ^ order} \<inter> free st = {}" "p + 2 ^ order \<le> 2 ^ 40"
  shows "\<exists>st'. dealloc_pages ops order (p * PAGE_SIZE) st = Inr st' \<and> pmm_inv to_list st' \<and>
    free st' = free st \<union> {p..<p + 2 ^ order} \<and> (coalesced (pf_order st) \<longrightarrow> coalesced (pf_order st'))"
proof -
  have "block p order \<inter> free st = {}" "block p order \<subseteq> {..<2 ^ 40}"
    using assms(5,6) by (auto simp: block_def)
  then obtain st' where "dealloc_page_typed ops p order (zone_of p) st = Inr st'" "pmm_inv to_list st'"
    "free st' = free st \<union> block p order" "coalesced (pf_order st) \<longrightarrow> coalesced (pf_order st')"
    by (rule linked_list.dealloc_page_typed_ok [OF assms(1,2) refl assms(3,4)])
  then show ?thesis using assms(3)
    by (simp add: dealloc_pages_def pftype_from_page page_frame_page block_def)
qed

theorem dealloc_pages_correct_witness:
  "\<exists>st'. dealloc_pages ref_ops 3 (0 * PAGE_SIZE) sample_pmm = Inr st' \<and> pmm_inv (\<lambda>l. l) st' \<and>
     free st' = {0..<16} \<and> coalesced (pf_order st')"
proof -
  have "{8..<16} \<union> {0..<8::nat} = {0..<16}" by auto
  then show ?thesis
    using dealloc_pages_correct [OF ref_list.linked_list_axioms sample_inv(1), of 3 0] sample_inv(2)
    by (auto simp: MAX_ORDER_eq sample_free)
qed

text \<open>
  C25. Allocation of an exact number of pages: \<open>alloc_pages_exact\<close> of \<open>n > 0\<close> pages
  never panics on a well-formed manager; it either takes exactly \<open>n\<close> consecutive
  free pages, giving the unused tail of the split block back, or fails because
  every free block of a requested zone has fewer than \<open>n\<close> pages.
\<close>

theorem alloc_pages_exact_correct:
  assumes "linked_list ops to_list" "pmm_inv to_list st" "0 < n" "n < 2 ^ 64"
  shows "(\<exists>p st'. alloc_pages_exact ops n t st = Inr (Some (p * PAGE_SIZE), st') \<and>
            pmm_inv to_list st' \<and> {p..<p + n} \<subseteq> free st \<and> free st' = free st - {p..<p + n} \<and>
            (\<forall>ty. t = Some ty \<longrightarrow> ty \<noteq> Max \<longrightarrow> zone_of p = ty) \<and>
            (coalesced (pf_order st) \<longrightarrow> coalesced (pf_order st')))
     \<or> (alloc_pages_exact ops n t st = Inr (None, st) \<and>
         (\<forall>p k. pf_order st p = Suc k \<longrightarrow> t \<in> {None, Some Max, Some (zone_of p)} \<longrightarrow> 2 ^ k < n))"
  by (rule linked_list.alloc_pages_exact_ok [OF assms])

theorem alloc_pages_exact_correct_witness:
  "\<exists>p st'. alloc_pages_exact ref_ops 5 None sample_pmm = Inr (Some (p * PAGE_SIZE), st') \<and>
     {p..<p + 5} \<subseteq> {8..<16} \<and> free st' = {8..<16} - {p..<p + 5}"
proof -
  have big: "\<not> (\<forall>p k. pf_order sample_pmm p = Suc k \<longrightarrow>
      (None :: PfType option) \<in> {None, Some Max, Some (zone_of p)} \<longrightarrow> 2 ^ k < (5::nat))"
    by (intro notI, drule spec [of _ 8], drule spec [of _ 3]) (simp add: sample_pmm_def)
  from alloc_pages_exact_correct [OF ref_list.linked_list_axioms sample_inv(1), of 5 None] big
  show ?thesis unfolding sample_free by auto
qed

text \<open>
  C26. Deallocation of any number of pages: \<open>dealloc_pages_exact\<close> of \<open>n\<close> consecutive
  allocated pages terminates without a panic, and cuts the range into aligned
  blocks so that exactly these \<open>n\<close> pages become free, also where the range
  crosses the 4 GB zone boundary.
\<close>

theorem dealloc_pages_exact_correct:
  assumes "linked_list ops to_list" "pmm_inv to_list st" "p + n \<le> 2 ^ 40" "{p..<p + n} \<inter> free st = {}"
  shows "\<exists>st'. dealloc_pages_exact ops n (p * PAGE_SIZE) st = Inr st' \<and> pmm_inv to_list st' \<and>
    free st' = free st \<union> {p..<p + n} \<and> (coalesced (pf_order st) \<longrightarrow> coalesced (pf_order st'))"
  by (rule linked_list.dealloc_pages_exact_ok [OF assms]) blast

theorem dealloc_pages_exact_correct_witness:
  "\<exists>st'. dealloc_pages_exact ref_ops 5 (1048574 * PAGE_SIZE) sample_pmm = Inr st' \<and>
     free st' = {8..<16} \<union> {1048574..<1048579}"
  using dealloc_pages_exact_correct [OF ref_list.linked_list_axioms sample_inv(1), of 1048574 5]
  by (auto simp: sample_free)

text \<open>
  C2. No page is ever handed out twice. From a well-formed manager, after any
  sequence of exact allocations and of deallocations of blocks still owned, the
  owned blocks are pairwise disjoint, disjoint from the free pages, and together
  with them are exactly the initial free pages; and every owned block can be
  deallocated without a panic.
\<close>

theorem no_double_allocation:
  assumes "linked_list ops to_list" "pmm_inv to_list st0" "coalesced (pf_order st0)"
    "(pmm_step ops)\<^sup>*\<^sup>* (st0, []) (st, own)"
  shows "sorted_wrt (\<lambda>b b'. owned_pages b \<inter> owned_pages b' = {}) own
    \<and> (\<forall>b \<in> set own. owned_pages b \<inter> free st = {})
    \<and> free st \<union> (\<Union>b \<in> set own. owned_pages b) = free st0
    \<and> (\<forall>a n. (a, n) \<in> set own \<longrightarrow> (\<exists>st'. dealloc_pages_exact ops n a st = Inr st'))"
proof -
  note r = linked_list.reachable_ok [OF assms(1,4,2,3)]
  then have c: "client_ok to_list (free st0) (st, own)" and pos: "\<And>b. b \<in> set own \<Longrightarrow> 0 < snd b" by auto
  have "\<exists>st'. dealloc_pages_exact ops n a st = Inr st'" if "(a, n) \<in> set own" for a n
    using linked_list.owned_dealloc_ok [OF assms(1) c that pmm_invD(2) [OF assms(2)]] pos [OF that] by auto
  then show ?thesis using c by (auto simp: client_ok_def)
qed

theorem no_double_allocation_witness:
  "\<exists>st own. (pmm_step ref_ops)\<^sup>*\<^sup>* (sample_pmm, []) (st, own) \<and> length own = 1 \<and>
     free st \<union> (\<Union>b \<in> set own. owned_pages b) = {8..<16}"
proof -
  have "alloc_pages_exact ref_ops 2 None sample_pmm =
    Inr (Some 32768, sample_pmm\<lparr>pf_order := (\<lambda>p. if p = 8 then 0 else if p = 10 then 2 else if p = 12 then 3 else 0),
                                pfl_data := (\<lambda>i. if i = 1 then [10] else if i = 2 then [12] else [])\<rparr>)"
    (is "_ = Inr (_, ?st)")
  proof -
    have l: "log2c (2 :: usize) = Inr 1"
    proof -
      obtain k where k: "log2c (2 :: usize) = Inr k" "2 \<le> (2::nat) ^ unat k" "\<And>j. 2 \<le> (2::nat) ^ j \<Longrightarrow> unat k \<le> j"
        by (rule log2c_least [of "2 :: usize"]) auto
      have "unat k \<le> 1" using k(3) [of 1] by simp
      moreover have "unat k \<noteq> 0" using k(2) by (intro notI) simp
      ultimately have "unat k = unat (1 :: usize)" by simp
      then show ?thesis using k(1) by (simp add: word_unat_eq_iff)
    qed
    show ?thesis using sample_alloc_1
      by (simp add: alloc_pages_exact_def l scale_back_pages_def dealloc_pages_exact_def
          dealloc_exact_loop.simps MAX_ORDER_eq PAGE_SIZE_def del: alloc_pages.simps)
  qed
  then have r: "(pmm_step ref_ops)\<^sup>*\<^sup>* (sample_pmm, []) (?st, [(32768, 2)])"
    by (intro r_into_rtranclp pmm_step.step_alloc) auto
  note safe = no_double_allocation [OF ref_list.linked_list_axioms sample_inv r]
  have "free ?st \<union> (\<Union>b \<in> set [(32768, 2)]. owned_pages b) = {8..<16}"
    using safe [THEN conjunct2, THEN conjunct2, THEN conjunct1] unfolding sample_free .
  then have "(pmm_step ref_ops)\<^sup>*\<^sup>* (sample_pmm, []) (?st, [(32768, 2)]) \<and> length [(32768 :: nat, 2 :: nat)] = 1 \<and>
      free ?st \<union> (\<Union>b \<in> set [(32768, 2)]. owned_pages b) = {8..<16}"
    using r by (intro conjI) simp_all
  then show ?thesis by (intro exI)
qed

text \<open>
  C18. Initialisation. From zeroed page frame cells and a memory map whose usable
  ranges are page-aligned and pairwise disjoint, \<open>init\<close> does not panic and yields
  a well-formed, fully coalesced manager whose free pages are exactly the pages
  of the usable ranges, and the reported sum is their total size in bytes.
\<close>

theorem init_correct:
  assumes "linked_list ops to_list" "\<And>p. pf_order st p = 0" "mmap_ok r ms"
  shows "\<exists>mx st'. init ops ms r st = Inr (card (free st') * PAGE_SIZE, mx, st') \<and>
    pmm_inv to_list st' \<and> coalesced (pf_order st') \<and> free st' = usable_pages r ms"
  by (rule linked_list.init_ok [OF assms])

definition sample_mmap :: "MemRange list" where
  "sample_mmap = [\<lparr>mr_ty = Conventional, mr_phys = 4096, mr_page_count = 3\<rparr>,
                  \<lparr>mr_ty = Mmio, mr_phys = 16384, mr_page_count = 4\<rparr>]"

theorem init_correct_witness:
  "\<exists>mx st'. init ref_ops sample_mmap (65536, 131072) (sample_pmm\<lparr>pf_order := \<lambda>_. 0\<rparr>)
      = Inr (card (free st') * PAGE_SIZE, mx, st') \<and> free st' = {1..<4}"
proof -
  have ok: "mmap_ok (65536, 131072) sample_mmap"
    by (simp add: mmap_ok_def sample_mmap_def range_aligned_def PAGE_SIZE_def range_usable_def mem_available_def)
  have "usable_pages (65536, 131072) sample_mmap = {1..<4}"
    by (simp add: usable_pages_def sample_mmap_def range_usable_def mem_available_def not_reserved_def
        range_pages_def PAGE_SIZE_def)
  with init_correct [OF ref_list.linked_list_axioms, of "sample_pmm\<lparr>pf_order := \<lambda>_. 0\<rparr>", OF _ ok]
  show ?thesis by fastforce
qed

text \<open>
  The reserved range is not always kept out of the free pages: \<open>parse_mmap\<close>
  only tests the two ends of a range, so \<open>init\<close> frees every available range that encloses the
  reserved range as a whole, the reserved pages included.
\<close>

theorem reserved_range_freed:
  assumes "linked_list ops to_list" "\<And>p. pf_order st p = 0" "mmap_ok r ms" "m \<in> set ms" "mem_available (mr_ty m)"
    "mr_phys m < fst r" "fst r < snd r" "snd r \<le> mr_phys m + mr_page_count m * PAGE_SIZE"
  shows "\<exists>mx st'. init ops ms r st = Inr (card (free st') * PAGE_SIZE, mx, st') \<and> range_pages m \<subseteq> free st' \<and>
    {fst r div PAGE_SIZE..<snd r div PAGE_SIZE} \<subseteq> free st'"
proof -
  have "range_usable r m" using assms(5-8) by (simp add: range_usable_def not_reserved_def)
  then have sub: "range_pages m \<subseteq> usable_pages r ms" using assms(4) by (auto simp: usable_pages_def)
  have dvd: "PAGE_SIZE dvd mr_phys m" using assms(3,4) by (auto simp: mmap_ok_def range_aligned_def list_all_iff)
  have pos: "0 < PAGE_SIZE" by (simp add: PAGE_SIZE_def)
  have "snd r div PAGE_SIZE \<le> (mr_phys m + mr_page_count m * PAGE_SIZE) div PAGE_SIZE" using assms(8) by (rule div_le_mono)
  also have "\<dots> = mr_phys m div PAGE_SIZE + mr_page_count m" using pos by simp
  finally have "{fst r div PAGE_SIZE..<snd r div PAGE_SIZE} \<subseteq> range_pages m"
    using div_le_mono [OF less_imp_le [OF assms(6)], of PAGE_SIZE] by (auto simp: range_pages_def)
  then show ?thesis using linked_list.init_ok [OF assms(1-3)] sub by blast
qed

theorem reserved_range_freed_witness:
  "\<exists>mx st'. init ref_ops [\<lparr>mr_ty = Conventional, mr_phys = 4096, mr_page_count = 4\<rparr>] (8192, 12288) (sample_pmm\<lparr>pf_order := \<lambda>_. 0\<rparr>)
      = Inr (card (free st') * PAGE_SIZE, mx, st') \<and> 2 \<in> free st'"
proof -
  let ?m = "\<lparr>mr_ty = Conventional, mr_phys = 4096, mr_page_count = 4\<rparr>" and ?r = "(8192, 12288) :: nat \<times> nat"
  have ok: "mmap_ok ?r [?m]" by (simp add: mmap_ok_def range_aligned_def PAGE_SIZE_def)
  have "mem_available (mr_ty ?m)" by (simp add: mem_available_def)
  with reserved_range_freed [OF ref_list.linked_list_axioms, of "sample_pmm\<lparr>pf_order := \<lambda>_. 0\<rparr>" ?r "[?m]" ?m, OF _ ok]
  show ?thesis by (fastforce simp: PAGE_SIZE_def)
qed

text \<open>
  A request for zero pages panics: the ceiling logarithm of 0 overflows, so
  \<open>alloc_pages_exact\<close> does not return \<open>None\<close> as its documentation says of an
  out-of-range size.
\<close>

theorem alloc_pages_exact_zero: "alloc_pages_exact ops 0 t st = Inl ArithOverflow"
  using log2c_zero [where 'a = 64] by (simp add: alloc_pages_exact_def)

end
