(* ===== verification/BTree_Map.thy ===== *)
theory BTree_Map
  imports Prelude
begin

text \<open>
  The ordered map of the standard library (\<open>BTreeMap\<close>) as the list of its entries
  in ascending key order: look-up, insertion, removal, and the sub-ranges with
  their first and last entries that the sources iterate over.
\<close>

type_synonym ('k, 'v) btree = "('k \<times> 'v) list"

section \<open>Operations\<close>

definition bt_wf :: "('k::linorder, 'v) btree \<Rightarrow> bool" where
  "bt_wf m \<longleftrightarrow> sorted_wrt (<) (map fst m)"

definition bt_insert :: "'k::linorder \<Rightarrow> 'v \<Rightarrow> ('k, 'v) btree \<Rightarrow> ('k, 'v) btree" where
  "bt_insert k v m = filter (\<lambda>e. fst e < k) m @ (k, v) # filter (\<lambda>e. k < fst e) m"

definition bt_remove :: "'k::linorder \<Rightarrow> ('k, 'v) btree \<Rightarrow> ('k, 'v) btree" where
  "bt_remove k m = filter (\<lambda>e. fst e \<noteq> k) m"

definition bt_to :: "'k::linorder \<Rightarrow> ('k, 'v) btree \<Rightarrow> ('k, 'v) btree" where
  "bt_to k m = filter (\<lambda>e. fst e \<le> k) m"

definition bt_below :: "'k::linorder \<Rightarrow> ('k, 'v) btree \<Rightarrow> ('k, 'v) btree" where
  "bt_below k m = filter (\<lambda>e. fst e < k) m"

definition bt_from :: "'k::linorder \<Rightarrow> ('k, 'v) btree \<Rightarrow> ('k, 'v) btree" where
  "bt_from k m = filter (\<lambda>e. k \<le> fst e) m"

definition first_of :: "'a list \<Rightarrow> 'a option" where
  "first_of xs = (case xs of [] \<Rightarrow> None | x # _ \<Rightarrow> Some x)"

definition last_of :: "'a list \<Rightarrow> 'a option" where
  "last_of xs = (if xs = [] then None else Some (last xs))"

section \<open>Well-formedness and look-up\<close>

named_theorems bt_simps

lemma bt_wf_Nil [simp]: "bt_wf []"
  by (simp add: bt_wf_def)

lemma bt_wf_Cons [simp]: "bt_wf (e # m) \<longleftrightarrow> (\<forall>e' \<in> set m. fst e < fst e') \<and> bt_wf m"
  by (auto simp: bt_wf_def)

lemma bt_wf_append: "bt_wf (m @ m') \<longleftrightarrow> bt_wf m \<and> bt_wf m' \<and> (\<forall>e \<in> set m. \<forall>e' \<in> set m'. fst e < fst e')"
  by (induction m) auto

lemma bt_wf_filter [simp]: "bt_wf m \<Longrightarrow> bt_wf (filter P m)"
  by (induction m) auto

lemma bt_wf_distinct: "bt_wf m \<Longrightarrow> distinct (map fst m)"
  by (induction m) auto

lemma bt_get_iff: "bt_wf m \<Longrightarrow> map_of m k = Some v \<longleftrightarrow> (k, v) \<in> set m"
  by (simp add: bt_wf_distinct)

lemma bt_wf_unique: "bt_wf m \<Longrightarrow> (k, v) \<in> set m \<Longrightarrow> (k, v') \<in> set m \<Longrightarrow> v = v'"
  by (metis bt_get_iff option.inject)

lemma bt_wf_insert [simp]: "bt_wf m \<Longrightarrow> bt_wf (bt_insert k v m)"
  by (auto simp: bt_insert_def bt_wf_append)

lemma bt_wf_ops [simp]:
  "bt_wf m \<Longrightarrow> bt_wf (bt_remove k m)" "bt_wf m \<Longrightarrow> bt_wf (bt_to k m)"
  "bt_wf m \<Longrightarrow> bt_wf (bt_below k m)" "bt_wf m \<Longrightarrow> bt_wf (bt_from k m)"
  by (simp_all add: bt_remove_def bt_to_def bt_below_def bt_from_def)

lemma set_bt_insert [bt_simps]: "set (bt_insert k v m) = insert (k, v) {e \<in> set m. fst e \<noteq> k}"
  by (auto simp: bt_insert_def)

lemma set_bt_remove [bt_simps]: "set (bt_remove k m) = {e \<in> set m. fst e \<noteq> k}"
  by (auto simp: bt_remove_def)

lemma set_bt_ranges [bt_simps]:
  "set (bt_to k m) = {e \<in> set m. fst e \<le> k}" "set (bt_below k m) = {e \<in> set m. fst e < k}"
  "set (bt_from k m) = {e \<in> set m. k \<le> fst e}"
  by (simp_all add: bt_to_def bt_below_def bt_from_def)

lemma map_of_filter_key: "map_of (filter (\<lambda>e. P (fst e)) m) k = (if P k then map_of m k else None)"
  by (induction m) auto

lemma bt_get_insert [bt_simps]: "map_of (bt_insert k v m) k' = (if k' = k then Some v else map_of m k')"
  by (auto simp: bt_insert_def map_add_def map_of_filter_key [of "\<lambda>x. x < k"] map_of_filter_key [of "\<lambda>x. k < x"]
      split: option.splits)

lemma bt_get_remove [bt_simps]: "map_of (bt_remove k m) k' = (if k' = k then None else map_of m k')"
  unfolding bt_remove_def by (simp add: map_of_filter_key [of "\<lambda>x. x \<noteq> k"])

lemma bt_insert_Cons:
  assumes "bt_wf (e # m)"
  shows "bt_insert k v (e # m) =
     (if k < fst e then (k, v) # e # m else if k = fst e then (k, v) # m else e # bt_insert k v m)"
proof -
  have "filter (\<lambda>e. fst e < k) m = []" "filter (\<lambda>e. k < fst e) m = m" if "k \<le> fst e"
    using assms that by (auto simp: filter_empty_conv intro!: filter_True)
  then show ?thesis by (auto simp: bt_insert_def)
qed

lemma bt_remove_insert: "bt_wf m \<Longrightarrow> map_of m k = None \<Longrightarrow> bt_remove k (bt_insert k v m) = m"
proof (induction m)
  case (Cons e m)
  have "filter (\<lambda>x. fst x < k \<and> fst x \<noteq> k) m = []" if "k < fst e"
    using Cons.prems that by (auto simp: filter_empty_conv)
  with Cons show ?case
    by (cases e) (auto simp: bt_insert_def bt_remove_def split: if_splits)
qed (simp add: bt_insert_def bt_remove_def)

lemma bt_remove_id: "map_of m k = None \<Longrightarrow> bt_remove k m = m"
  by (auto simp: bt_remove_def map_of_eq_None_iff intro!: filter_True)

section \<open>First and last entries\<close>

lemma first_of_simps [simp]: "first_of [] = None" "first_of (x # xs) = Some x"
  by (simp_all add: first_of_def)

lemma last_of_simps [simp]: "last_of [] = None" "last_of (xs @ [x]) = Some x"
  by (simp_all add: last_of_def)

lemma first_of_None [simp]: "first_of xs = None \<longleftrightarrow> xs = []"
  by (cases xs) auto

lemma last_of_None [simp]: "last_of xs = None \<longleftrightarrow> xs = []"
  by (simp add: last_of_def)

lemma last_of_greatest:
  assumes "bt_wf m" "last_of m = Some e"
  shows "e \<in> set m" "e' \<in> set m \<Longrightarrow> e' = e \<or> fst e' < fst e"
proof -
  obtain m' where m: "m = m' @ [e]"
    using assms(2) by (cases m rule: rev_cases) auto
  show "e \<in> set m" by (simp add: m)
  show "e' = e \<or> fst e' < fst e" if "e' \<in> set m"
    using assms(1) that by (auto simp: m bt_wf_append)
qed

lemma first_of_least:
  assumes "bt_wf m" "first_of m = Some e"
  shows "e \<in> set m" "e' \<in> set m \<Longrightarrow> e' = e \<or> fst e < fst e'"
  using assms by (cases m; auto)+

lemma last_of_Some_ex: "e \<in> set m \<Longrightarrow> \<exists>e'. last_of m = Some e'"
  by (auto simp: last_of_def)

end
