(* ===== verification/Range_Map.thy ===== *)
theory Range_Map
  imports BTree_Map
begin

text \<open>
  \<open>RangeMap\<close> of \<open>h2o/libs/collection_ex/src/range_map.rs\<close>: an ordered map from the
  start of a range to the range and a value, inside an outer range, with
  first-fit allocation and look-up by contained key. Keys are machine words of
  any width; a half-open range is the pair of its bounds.
\<close>

type_synonym 'k range = "'k \<times> 'k"

section \<open>Operations\<close>

record ('k, 'v) RangeMap =
  rm_inner :: "('k, 'k range \<times> 'v) btree"
  rm_range :: "'k range"

datatype 'k bound = Included 'k | Excluded 'k | Unbounded

definition rm_new :: "'k range \<Rightarrow> ('k, 'v) RangeMap" where
  "rm_new r = \<lparr>rm_inner = [], rm_range = r\<rparr>"

fun find_gap :: "'a::len word \<Rightarrow> 'a word \<Rightarrow> ('a word, 'a word range \<times> 'v) btree
    \<Rightarrow> ('a word \<times> 'a word range option) run" where
  "find_gap sz start [] = Inr (start, None)"
| "find_gap sz start ((_, (r, _)) # es) =
     rbind (sub_chk (fst r) start) (\<lambda>d.
       if sz \<le> d then rbind (add_chk start sz) (\<lambda>e. Inr (start, Some (start, e)))
       else find_gap sz (snd r) es)"

definition final_gap :: "'a::len word \<Rightarrow> 'a word \<Rightarrow> 'a word \<times> 'a word range option \<Rightarrow> 'a word range option run" where
  "final_gap sz hi = (\<lambda>(start, rng).
     case rng of Some r \<Rightarrow> Inr (Some r)
     | None \<Rightarrow> rbind (sub_chk hi start) (\<lambda>d.
         if sz \<le> d then rbind (add_chk start sz) (\<lambda>e. Inr (Some (start, e))) else Inr None))"

definition allocate_with :: "'a::len word \<Rightarrow> ('a word range \<Rightarrow> 'e + 'v) \<Rightarrow> 'e \<Rightarrow> ('a word, 'v) RangeMap
    \<Rightarrow> (('e + 'a word) \<times> ('a word, 'v) RangeMap) run" where
  "allocate_with sz value no_fit m =
     rbind (rbind (find_gap sz (fst (rm_range m)) (rm_inner m)) (final_gap sz (snd (rm_range m)))) (\<lambda>rng.
       case rng of None \<Rightarrow> Inr (Inl no_fit, m)
       | Some r \<Rightarrow>
           (case value r of Inl e \<Rightarrow> Inr (Inl e, m)
            | Inr v \<Rightarrow>
                Inr (Inr (fst r),
                  (case map_of (rm_inner m) (fst r) of
                     Some _ \<Rightarrow> m
                   | None \<Rightarrow> m\<lparr>rm_inner := bt_insert (fst r) (r, v) (rm_inner m)\<rparr>))))"

definition try_insert_with :: "'k::linorder range \<Rightarrow> (unit \<Rightarrow> 'e + ('v \<times> 'r)) \<Rightarrow> 'e \<Rightarrow> ('k, 'v) RangeMap
    \<Rightarrow> ('e + 'r) \<times> ('k, 'v) RangeMap" where
  "try_insert_with rng value exist m =
     (if fst (rm_range m) \<le> fst rng \<and> fst rng < snd rng \<and> snd rng \<le> snd (rm_range m) then
        (case map_of (rm_inner m) (fst rng) of
           None \<Rightarrow>
             (case value () of Inl e \<Rightarrow> (Inl e, m)
              | Inr (v, ret) \<Rightarrow> (Inr ret, m\<lparr>rm_inner := bt_insert (fst rng) (rng, v) (rm_inner m)\<rparr>))
         | Some _ \<Rightarrow> (Inl exist, m))
      else (Inl exist, m))"

definition rm_get :: "'k \<Rightarrow> ('k, 'v) RangeMap \<Rightarrow> 'v option" where
  "rm_get start m = map_option snd (map_of (rm_inner m) start)"

definition remove_if :: "'k::linorder \<Rightarrow> ('v \<Rightarrow> bool) \<Rightarrow> ('k, 'v) RangeMap
    \<Rightarrow> ('k range \<times> 'v) option \<times> ('k, 'v) RangeMap" where
  "remove_if start predicate m =
     (case map_of (rm_inner m) start of
        Some ent \<Rightarrow> if predicate (snd ent) then (Some ent, m\<lparr>rm_inner := bt_remove start (rm_inner m)\<rparr>) else (None, m)
      | None \<Rightarrow> (None, m))"

definition rm_remove :: "'k::linorder \<Rightarrow> ('k, 'v) RangeMap \<Rightarrow> ('k range \<times> 'v) option \<times> ('k, 'v) RangeMap" where
  "rm_remove start m = remove_if start (\<lambda>_. True) m"

definition filter_opt :: "('a \<Rightarrow> bool) \<Rightarrow> 'a option \<Rightarrow> 'a option" where
  "filter_opt P o' = (case o' of Some x \<Rightarrow> if P x then Some x else None | None \<Rightarrow> None)"

definition get_contained :: "'k::linorder \<Rightarrow> ('k, 'v) RangeMap \<Rightarrow> ('k range \<times> 'v) option" where
  "get_contained key m =
     filter_opt (\<lambda>(r, _). key < snd r) (map_option snd (last_of (bt_to key (rm_inner m))))"

definition get_contained_range :: "'k::linorder bound \<Rightarrow> 'k bound \<Rightarrow> ('k, 'v) RangeMap \<Rightarrow> ('k range \<times> 'v) option" where
  "get_contained_range sb eb m =
     (case (case sb of Included s \<Rightarrow> Some s | Excluded s \<Rightarrow> Some s | Unbounded \<Rightarrow> None) of
        None \<Rightarrow> None
      | Some start \<Rightarrow>
          (case eb of
             Included end' \<Rightarrow>
               filter_opt (\<lambda>(r, _). end' < snd r \<and> fst r \<le> start \<and> start < snd r)
                 (map_option snd (last_of (bt_to end' (rm_inner m))))
           | Excluded end' \<Rightarrow>
               filter_opt (\<lambda>(r, _). end' \<le> snd r \<and> fst r \<le> start \<and> start < snd r)
                 (map_option snd (last_of (bt_below end' (rm_inner m))))
           | Unbounded \<Rightarrow> None))"

definition rm_pop :: "('k, 'v) RangeMap \<Rightarrow> ('k range \<times> 'v) option \<times> ('k, 'v) RangeMap" where
  "rm_pop m =
     (case rm_inner m of [] \<Rightarrow> (None, m)
      | (_, ent) # es \<Rightarrow> (Some ent, m\<lparr>rm_inner := es\<rparr>))"

definition rm_first :: "('k, 'v) RangeMap \<Rightarrow> ('k range \<times> 'v) option" where
  "rm_first m = map_option snd (first_of (rm_inner m))"

definition rm_last :: "('k, 'v) RangeMap \<Rightarrow> ('k range \<times> 'v) option" where
  "rm_last m = map_option snd (last_of (rm_inner m))"

section \<open>Specification\<close>

text \<open>The entries from \<open>lo\<close> to \<open>hi\<close> are keyed by their starts, non-empty and disjoint.\<close>

fun spaced :: "'k::linorder \<Rightarrow> ('k, 'k range \<times> 'v) btree \<Rightarrow> 'k \<Rightarrow> bool" where
  "spaced lo [] hi \<longleftrightarrow> lo \<le> hi"
| "spaced lo ((k, (r, v)) # es) hi \<longleftrightarrow> k = fst r \<and> lo \<le> fst r \<and> fst r < snd r \<and> spaced (snd r) es hi"

definition rm_inv :: "('k::linorder, 'v) RangeMap \<Rightarrow> bool" where
  "rm_inv m \<longleftrightarrow> spaced (fst (rm_range m)) (rm_inner m) (snd (rm_range m))"

definition free_between :: "'k::linorder \<Rightarrow> ('k, 'k range \<times> 'v) btree \<Rightarrow> 'k \<Rightarrow> 'k range \<Rightarrow> bool" where
  "free_between lo es hi r \<longleftrightarrow> lo \<le> fst r \<and> fst r < snd r \<and> snd r \<le> hi \<and>
     (\<forall>e \<in> set es. snd r \<le> fst (fst (snd e)) \<or> snd (fst (snd e)) \<le> fst r)"

definition rm_free :: "('k::linorder, 'v) RangeMap \<Rightarrow> 'k range \<Rightarrow> bool" where
  "rm_free m r \<longleftrightarrow> free_between (fst (rm_range m)) (rm_inner m) (snd (rm_range m)) r"

section \<open>The invariant\<close>

lemma spaced_bounds:
  assumes "spaced lo es hi"
  shows "lo \<le> hi" "e \<in> set es \<Longrightarrow> fst e = fst (fst (snd e)) \<and> lo \<le> fst e \<and> fst e < snd (fst (snd e)) \<and> snd (fst (snd e)) \<le> hi"
proof -
  have "lo \<le> hi \<and> (\<forall>e \<in> set es. fst e = fst (fst (snd e)) \<and> lo \<le> fst e \<and> fst e < snd (fst (snd e)) \<and> snd (fst (snd e)) \<le> hi)"
    using assms by (induction lo es hi rule: spaced.induct) (auto; force)+
  then show "lo \<le> hi" "e \<in> set es \<Longrightarrow> fst e = fst (fst (snd e)) \<and> lo \<le> fst e \<and> fst e < snd (fst (snd e)) \<and> snd (fst (snd e)) \<le> hi"
    by auto
qed

lemma spaced_wf: "spaced lo es hi \<Longrightarrow> bt_wf es"
  by (induction lo es hi rule: spaced.induct) (auto dest: spaced_bounds(2))


lemma spaced_disjoint:
  assumes "spaced lo es hi" "e \<in> set es" "e' \<in> set es" "e \<noteq> e'"
  shows "snd (fst (snd e)) \<le> fst e' \<or> snd (fst (snd e')) \<le> fst e"
  using assms by (induction lo es hi rule: spaced.induct) (auto dest: spaced_bounds(2))

lemma spaced_insert:
  "spaced lo es hi \<Longrightarrow> free_between lo es hi r \<Longrightarrow> spaced lo (bt_insert (fst r) (r, v) es) hi"
proof (induction lo es hi rule: spaced.induct)
  case (1 lo hi)
  then show ?case by (auto simp: bt_insert_def free_between_def)
next
  case (2 lo k r' v' es hi)
  have wf: "bt_wf ((k, (r', v')) # es)" using spaced_wf [OF "2.prems"(1)] .
  have "free_between (snd r') es hi r" if "\<not> fst r < k"
    using "2.prems" that by (auto simp: free_between_def)
  moreover have "snd r \<le> fst r'" if "fst r < k"
    using "2.prems" that by (auto simp: free_between_def)
  moreover have "fst r \<noteq> k" using "2.prems" by (auto simp: free_between_def)
  ultimately show ?case
    using 2 unfolding bt_insert_Cons [OF wf] by (auto simp: free_between_def)
qed

lemma spaced_filter: "spaced lo es hi \<Longrightarrow> lo' \<le> lo \<Longrightarrow> spaced lo' (filter P es) hi"
proof (induction lo es hi arbitrary: lo' rule: spaced.induct)
  case (2 lo k r v es hi)
  show ?case
    using "2.prems" "2.IH" [of "snd r"] "2.IH" [of lo'] by auto
qed simp

section \<open>First-fit search\<close>

lemma gap_room: "lo \<le> s \<Longrightarrow> sz \<le> s - lo \<longleftrightarrow> unat lo + unat sz \<le> unat (s :: 'a::len word)"
  by (auto simp: word_le_nat_alt unat_sub)

lemma add_chk_room:
  "unat a + unat sz \<le> unat (s :: 'a word) \<Longrightarrow> add_chk (a :: 'a::len word) sz = Inr (a + sz) \<and> unat (a + sz) = unat a + unat sz"
  using le_less_trans [OF _ unat_lt_pow [of s]] by (simp add: add_chk_def unat_word_ariths)

lemma word_less_add: "0 < sz \<Longrightarrow> b < b + sz \<longleftrightarrow> unat b + unat (sz :: 'a::len word) < 2 ^ LENGTH('a)"
  by (metis add_cancel_right_right le_add_same_cancel1 no_olen_add_nat order_le_imp_less_or_eq order_less_imp_le unat_0 
      unat_add_lem word_le_nat_alt word_less_nat_alt zero_le word_gt_0)


lemma gap_search:
  fixes sz :: "'a::len word"
  assumes "spaced lo es hi" "0 < sz"
  shows "(\<exists>a. rbind (find_gap sz lo es) (final_gap sz hi) = Inr (Some (a, a + sz)) \<and>
             free_between lo es hi (a, a + sz) \<and> (\<forall>b. free_between lo es hi (b, b + sz) \<longrightarrow> a \<le> b))
       \<or> (rbind (find_gap sz lo es) (final_gap sz hi) = Inr None \<and> (\<forall>b. \<not> free_between lo es hi (b, b + sz)))"
  using assms
proof (induction sz lo es arbitrary: hi rule: find_gap.induct)
  case (1 sz lo)
  then have lohi: "lo \<le> hi" by simp
  show ?case
  proof (cases "sz \<le> hi - lo")
    case True
    with lohi have "unat lo + unat sz \<le> unat hi" by (simp add: gap_room)
    then show ?thesis
      using add_chk_room [of lo sz hi] True lohi "1.prems"(2)
      by (auto simp: final_gap_def sub_chk_def free_between_def word_le_nat_alt word_less_nat_alt)
  next
    case False
    with lohi have "unat hi < unat lo + unat sz" by (simp add: gap_room not_le [symmetric])
    then have "\<not> free_between lo [] hi (b, b + sz)" for b
      using word_less_add [OF "1.prems"(2), of b]
      by (auto simp: free_between_def word_le_nat_alt unat_word_ariths)
    then show ?thesis using False lohi by (auto simp: final_gap_def sub_chk_def)
  qed
next
  case (2 sz lo k r v es)
  then have sp: "lo \<le> fst r" "fst r < snd r" "spaced (snd r) es hi" by auto
  show ?case
  proof (cases "sz \<le> fst r - lo")
    case True
    with sp have room: "unat lo + unat sz \<le> unat (fst r)" by (simp add: gap_room)
    then have "free_between lo ((k, (r, v)) # es) hi (lo, lo + sz)"
      using add_chk_room [OF room] sp "2.prems"(2) spaced_bounds [OF sp(3)]
      by (fastforce simp: free_between_def word_le_nat_alt word_less_nat_alt)
    then show ?thesis
      using add_chk_room [OF room] True sp by (auto simp: final_gap_def sub_chk_def free_between_def)
  next
    case False
    with sp have "unat (fst r) < unat lo + unat sz" by (simp add: gap_room not_le [symmetric])
    then have "free_between lo ((k, (r, v)) # es) hi (b, b + sz) \<longleftrightarrow> free_between (snd r) es hi (b, b + sz)" for b
      using word_less_add [OF "2.prems"(2), of b] sp
      by (auto simp: free_between_def word_le_nat_alt word_less_nat_alt unat_word_ariths)
    then show ?thesis using "2.IH" [OF _ False sp(3) "2.prems"(2)] False sp by (simp add: sub_chk_def)
  qed
qed


section \<open>Look-up by contained key\<close>

lemma rm_invD:
  assumes "rm_inv m"
  shows "bt_wf (rm_inner m)"
    "(k, (r, v)) \<in> set (rm_inner m) \<Longrightarrow> k = fst r \<and> fst r < snd r \<and> fst (rm_range m) \<le> fst r \<and> snd r \<le> snd (rm_range m)"
    "(k, (r, v)) \<in> set (rm_inner m) \<Longrightarrow> (k', (r', v')) \<in> set (rm_inner m) \<Longrightarrow> k \<noteq> k' \<Longrightarrow> snd r \<le> k' \<or> snd r' \<le> k"
proof -
  note sp = assms [unfolded rm_inv_def]
  show "bt_wf (rm_inner m)" by (rule spaced_wf [OF sp])
  show b: "k = fst r \<and> fst r < snd r \<and> fst (rm_range m) \<le> fst r \<and> snd r \<le> snd (rm_range m)"
    if "(k, (r, v)) \<in> set (rm_inner m)" for k r v
    using spaced_bounds(2) [OF sp that] by auto
  show "snd r \<le> k' \<or> snd r' \<le> k"
    if "(k, (r, v)) \<in> set (rm_inner m)" "(k', (r', v')) \<in> set (rm_inner m)" "k \<noteq> k'"
    using spaced_disjoint [OF sp that(1,2)] that(3) by simp
qed

lemma filter_opt_Some [simp]: "filter_opt P o' = Some x \<longleftrightarrow> o' = Some x \<and> P x"
  by (auto simp: filter_opt_def split: option.splits if_splits)

lemma last_start_iff:
  assumes inv: "rm_inv m" and x: "P (fst r)" "\<And>k. P k \<Longrightarrow> k < snd r"
  shows "map_option snd (last_of (filter (\<lambda>e. P (fst e)) (rm_inner m))) = Some (r, v) \<longleftrightarrow> (fst r, (r, v)) \<in> set (rm_inner m)"
    (is "?l \<longleftrightarrow> ?r")
proof
  let ?es = "filter (\<lambda>e. P (fst e)) (rm_inner m)"
  have wf: "bt_wf ?es" using rm_invD(1) [OF inv] by simp
  { assume ?l
    then obtain k where k: "last_of ?es = Some (k, (r, v))" by auto
    show ?r using last_of_greatest(1) [OF wf k] rm_invD(2) [OF inv, of k r v] by simp
  }
  { assume r: ?r
    then have mem: "(fst r, (r, v)) \<in> set ?es" using x(1) by simp
    obtain e where e: "last_of ?es = Some e" using last_of_Some_ex [OF mem] by auto
    obtain k' r' v' where e': "e = (k', (r', v'))" by (metis surj_pair)
    have "e \<in> set ?es" using last_of_greatest(1) [OF wf e] .
    then have "k' < snd r" "(k', (r', v')) \<in> set (rm_inner m)" using x(2) e' by auto
    moreover have "snd r \<le> k' \<or> snd r' \<le> fst r" if "fst r < k'"
      using rm_invD(3) [OF inv r calculation(2)] that by simp
    moreover have "k' < snd r'" using rm_invD(2) [OF inv calculation(2)] by simp
    ultimately have "e = (fst r, (r, v))" using last_of_greatest(2) [OF wf e mem] e' by fastforce
    with e show ?l by simp
  }
qed


lemma last_start_mem:
  assumes "rm_inv m" "map_option snd (last_of (filter Q (rm_inner m))) = Some (r, v)"
  shows "(fst r, (r, v)) \<in> set (rm_inner m)" "Q (fst r, (r, v))"
proof -
  obtain k where "last_of (filter Q (rm_inner m)) = Some (k, (r, v))" using assms(2) by auto
  then have "(k, (r, v)) \<in> set (filter Q (rm_inner m))"
    by (rule last_of_greatest(1) [rotated]) (simp add: rm_invD(1) [OF assms(1)])
  then show "(fst r, (r, v)) \<in> set (rm_inner m)" "Q (fst r, (r, v))"
    using rm_invD(2) [OF assms(1), of k r v] by auto
qed

lemma get_contained_iff:
  assumes inv: "rm_inv m"
  shows "get_contained k m = Some (r, v) \<longleftrightarrow> (fst r, (r, v)) \<in> set (rm_inner m) \<and> fst r \<le> k \<and> k < snd r"
  using last_start_mem [OF inv, of "\<lambda>e. fst e \<le> k" r v]
    last_start_iff [OF inv, of "\<lambda>x. x \<le> k" r v]
  by (auto simp: get_contained_def bt_to_def)

lemma get_contained_range_iff:
  assumes inv: "rm_inv m"
  shows "a < b \<Longrightarrow> get_contained_range (Included a) (Excluded b) m = Some (r, v) \<longleftrightarrow>
      (fst r, (r, v)) \<in> set (rm_inner m) \<and> fst r \<le> a \<and> b \<le> snd r"
    and "a \<le> b \<Longrightarrow> get_contained_range (Included a) (Included b) m = Some (r, v) \<longleftrightarrow>
      (fst r, (r, v)) \<in> set (rm_inner m) \<and> fst r \<le> a \<and> b < snd r"
  using last_start_mem [OF inv, of "\<lambda>e. fst e < b" r v] last_start_mem [OF inv, of "\<lambda>e. fst e \<le> b" r v]
    last_start_iff [OF inv, of "\<lambda>x. x < b" r v] last_start_iff [OF inv, of "\<lambda>x. x \<le> b" r v]
  by (auto simp: get_contained_range_def bt_to_def bt_below_def)

section \<open>Insertion and removal\<close>

lemma rm_free_fresh:
  assumes "rm_inv m" "rm_free m r"
  shows "map_of (rm_inner m) (fst r) = None"
proof (rule ccontr)
  assume "map_of (rm_inner m) (fst r) \<noteq> None"
  then obtain r' v where e: "(fst r, (r', v)) \<in> set (rm_inner m)" by (auto dest: map_of_SomeD)
  have "snd r \<le> fst r' \<or> snd r' \<le> fst r"
    using assms(2) e by (force simp: rm_free_def free_between_def)
  then show False using rm_invD(2) [OF assms(1) e] assms(2) by (auto simp: rm_free_def free_between_def)
qed

lemma rm_inv_insert: "rm_inv m \<Longrightarrow> rm_free m r \<Longrightarrow> rm_inv (m\<lparr>rm_inner := bt_insert (fst r) (r, v) (rm_inner m)\<rparr>)"
  by (simp add: rm_inv_def rm_free_def spaced_insert)

lemma rm_inv_new: "fst r \<le> snd r \<Longrightarrow> rm_inv (rm_new r)"
  by (simp add: rm_inv_def rm_new_def)

lemma rm_inv_remove: "rm_inv m \<Longrightarrow> rm_inv (snd (remove_if k P m))"
  by (auto simp: remove_if_def rm_inv_def bt_remove_def spaced_filter split: option.splits)

lemma try_insert_with_ok:
  assumes "rm_inv m" "rm_free m r" "val () = Inr (v, x)"
  shows "try_insert_with r val e m = (Inr x, m\<lparr>rm_inner := bt_insert (fst r) (r, v) (rm_inner m)\<rparr>)"
  using assms(2,3) rm_free_fresh [OF assms(1,2)]
  by (simp add: try_insert_with_def rm_free_def free_between_def)

text \<open>Allocation with a value that is always available.\<close>

lemma allocate_with_value:
  assumes "rm_inv m" "0 < sz"
  obtains (fits) a m' where "allocate_with sz (\<lambda>_. Inr v) no_fit m = Inr (Inr a, m')" "rm_free m (a, a + sz)"
      "rm_inv m'" "rm_range m' = rm_range m" "map_of (rm_inner m) a = None"
      "map_of (rm_inner m') = (map_of (rm_inner m))(a \<mapsto> ((a, a + sz), v))"
    | (full) "allocate_with sz (\<lambda>_. Inr v) no_fit m = Inr (Inl no_fit, m)" "\<And>a. \<not> rm_free m (a, a + sz)"
proof -
  have ok: "map_of (rm_inner m) a = None \<and> rm_inv (m\<lparr>rm_inner := bt_insert a ((a, a + sz), v) (rm_inner m)\<rparr>)"
    if "rm_free m (a, a + sz)" for a
    using rm_free_fresh [OF assms(1) that] rm_inv_insert [OF assms(1) that] by simp
  show ?thesis
    using gap_search [OF assms(1) [unfolded rm_inv_def] assms(2), folded rm_free_def] ok that
    by (elim disjE exE conjE) (auto simp: allocate_with_def bt_get_insert fun_eq_iff)
qed

section \<open>Properties\<close>

text \<open>
  C13. First-fit allocation. On a well-formed range map and for a positive size,
  \<open>allocate_with\<close> never panics. If some free range of this size exists, it picks
  the lowest one and asks the caller for the value: on an error the map is
  unchanged, else the range is entered under its start and the map stays
  well-formed. If no free range of this size exists, it returns \<open>no_fit\<close>.
\<close>

theorem allocate_with_correct:
  assumes "rm_inv m" "0 < sz"
  shows "(\<exists>a. rm_free m (a, a + sz) \<and> (\<forall>b. rm_free m (b, b + sz) \<longrightarrow> a \<le> b) \<and>
      (\<forall>e. val (a, a + sz) = Inl e \<longrightarrow> allocate_with sz val no_fit m = Inr (Inl e, m)) \<and>
      (\<forall>v. val (a, a + sz) = Inr v \<longrightarrow>
         (\<exists>m'. allocate_with sz val no_fit m = Inr (Inr a, m') \<and> rm_inv m' \<and>
            map_of (rm_inner m') = (map_of (rm_inner m))(a \<mapsto> ((a, a + sz), v)))))
    \<or> (\<forall>b. \<not> rm_free m (b, b + sz)) \<and> allocate_with sz val no_fit m = Inr (Inl no_fit, m)"
proof -
  have ok: "map_of (rm_inner m) a = None \<and> rm_inv (m\<lparr>rm_inner := bt_insert a ((a, a + sz), v) (rm_inner m)\<rparr>)"
    if "rm_free m (a, a + sz)" for a v
    using rm_free_fresh [OF assms(1) that] rm_inv_insert [OF assms(1) that] by simp
  show ?thesis
    using gap_search [OF assms(1) [unfolded rm_inv_def] assms(2), folded rm_free_def] ok
    by (elim disjE exE conjE) (auto simp: allocate_with_def bt_get_insert fun_eq_iff)
qed

theorem allocate_with_correct_witness:
  "allocate_with 3 (\<lambda>_. Inr ()) () \<lparr>rm_inner = [(2, ((2, 4), ())), (6, ((6, 9), ()))], rm_range = (1, 20)\<rparr>
     = Inr (Inr (9 :: 8 word), \<lparr>rm_inner = [(2, ((2, 4), ())), (6, ((6, 9), ())), (9, ((9, 12), ()))], rm_range = (1, 20)\<rparr>)
   \<and> rm_inv \<lparr>rm_inner = [(2, ((2, 4), ())), (6, ((6, 9), ())), (9, ((9, 12), ()))], rm_range = (1, 20 :: 8 word)\<rparr>"
proof -
  let ?m = "\<lparr>rm_inner = [(2, ((2, 4), ())), (6, ((6, 9), ()))], rm_range = (1, 20 :: 8 word)\<rparr>"
  have inv: "rm_inv ?m" by (simp add: rm_inv_def)
  have run: "allocate_with 3 (\<lambda>_. Inr ()) () ?m = Inr (Inr 9, \<lparr>rm_inner = [(2, ((2, 4), ())), (6, ((6, 9), ())), (9, ((9, 12), ()))], rm_range = (1, 20)\<rparr>)"
    by (simp add: allocate_with_def sub_chk_def add_chk_def final_gap_def bt_insert_def word_le_nat_alt)
  show ?thesis using allocate_with_correct [OF inv, of 3 "\<lambda>_. Inr ()" "()"] run by auto
qed

text \<open>
  C27. Look-up by contained key or range: on a well-formed range map
  \<open>get_contained\<close> returns an entry exactly when its range contains the key, and
  \<open>get_contained_range\<close> of a non-empty half-open range exactly when the entry's
  range contains all of it.
\<close>

theorem get_contained_correct:
  assumes "rm_inv m" "a < b"
  shows "(get_contained a m = Some (r, v) \<longleftrightarrow> (fst r, (r, v)) \<in> set (rm_inner m) \<and> fst r \<le> a \<and> a < snd r) \<and>
    (get_contained_range (Included a) (Excluded b) m = Some (r, v) \<longleftrightarrow>
       (fst r, (r, v)) \<in> set (rm_inner m) \<and> fst r \<le> a \<and> b \<le> snd r)"
  using get_contained_iff [OF assms(1)] get_contained_range_iff(1) [OF assms] by blast

theorem get_contained_correct_witness:
  "get_contained 7 \<lparr>rm_inner = [(2, ((2, 4), True)), (6, ((6, 9), False))], rm_range = (1, 20 :: 8 word)\<rparr> = Some ((6, 9), False)"
  using get_contained_correct [of "\<lparr>rm_inner = [(2, ((2, 4), True)), (6, ((6, 9), False))], rm_range = (1, 20 :: 8 word)\<rparr>" 7 9 "(6, 9)" False]
  by (simp add: rm_inv_def)

text \<open>
  \<open>try_insert_with\<close> does not keep ranges apart: it only compares starts, so on
  a well-formed map it accepts a range that overlaps an entry, and the result is
  no longer well-formed.
\<close>

theorem try_insert_with_overlap:
  "\<exists>m :: (8 word, unit) RangeMap. \<exists>r m'. rm_inv m \<and> \<not> rm_free m r \<and>
     try_insert_with r (\<lambda>_. Inr ((), ())) () m = (Inr (), m') \<and> \<not> rm_inv m'"
  by (rule exI [of _ "\<lparr>rm_inner = [(2, ((2, 6), ()))], rm_range = (1, 20)\<rparr>"], rule exI [of _ "(4, 8)"])
    (simp add: rm_inv_def rm_free_def free_between_def try_insert_with_def bt_insert_def)

end
