(* ===== verification/Resource.thy ===== *)
theory Resource
  imports Range_Map
begin

text \<open>
  \<open>Resource\<close> of \<open>h2o/kernel/src/dev/res.rs\<close>: a tree of ranges of a device resource
  (memory, port I/O, interrupt numbers), each carved out of its parent, with the
  reference counts of \<open>Arc\<close> and \<open>Weak\<close>. A store maps the address of a live object
  to its fields and its strong count; a dropped object is no longer in the
  store, so a \<open>Weak\<close> to it has a strong count of 0. The lock of the map
  serialises the operations.
\<close>

section \<open>Objects and operations\<close>

record 'k resource =
  r_magic :: u64
  r_range :: "'k range"
  r_map :: "('k, unit) RangeMap"
  r_parent :: "nat option"
  r_strong :: nat

type_synonym 'k res_store = "nat \<Rightarrow> 'k resource option"

definition res_new :: "u64 \<Rightarrow> 'k range \<Rightarrow> nat \<Rightarrow> 'k resource" where
  "res_new magic r parent =
     \<lparr>r_magic = magic, r_range = r, r_map = rm_new r, r_parent = Some parent, r_strong = 1\<rparr>"

definition new_root :: "u64 \<Rightarrow> 'k range \<Rightarrow> 'k resource" where
  "new_root magic r =
     \<lparr>r_magic = magic, r_range = r, r_map = rm_new r, r_parent = None, r_strong = 1\<rparr>"

definition strong_count :: "'k res_store \<Rightarrow> nat \<Rightarrow> nat" where
  "strong_count \<sigma> i = (case \<sigma> i of None \<Rightarrow> 0 | Some s \<Rightarrow> r_strong s)"

definition res_allocate :: "nat \<Rightarrow> nat \<Rightarrow> 'k::linorder range \<Rightarrow> 'k res_store \<Rightarrow> nat option \<times> 'k res_store" where
  "res_allocate self fresh r \<sigma> =
     (case \<sigma> self of None \<Rightarrow> (None, \<sigma>)
      | Some s \<Rightarrow>
          if (case r_parent s of None \<Rightarrow> True | Some p \<Rightarrow> 1 \<le> strong_count \<sigma> p) then
            (case try_insert_with r (\<lambda>_. Inr ((), res_new (r_magic s) r self)) () (r_map s) of
               (Inr sub, map') \<Rightarrow> (Some fresh, \<sigma>(self \<mapsto> s\<lparr>r_map := map'\<rparr>, fresh \<mapsto> sub))
             | (Inl _, map') \<Rightarrow> (None, \<sigma>(self \<mapsto> s\<lparr>r_map := map'\<rparr>)))
          else (None, \<sigma>))"

definition magic_eq :: "'k resource \<Rightarrow> 'k resource \<Rightarrow> bool" where
  "magic_eq s s' \<longleftrightarrow> r_magic s = r_magic s'"

definition res_drop :: "nat \<Rightarrow> 'k::linorder res_store \<Rightarrow> 'k res_store" where
  "res_drop i \<sigma> =
     (case \<sigma> i of None \<Rightarrow> \<sigma>
      | Some s \<Rightarrow>
          (case r_parent s of None \<Rightarrow> \<sigma>(i := None)
           | Some p \<Rightarrow>
               (case \<sigma> p of None \<Rightarrow> \<sigma>(i := None)
                | Some s' \<Rightarrow> \<sigma>(p \<mapsto> s'\<lparr>r_map := snd (rm_remove (fst (r_range s)) (r_map s'))\<rparr>, i := None))))"

definition arc_clone :: "nat \<Rightarrow> 'k res_store \<Rightarrow> 'k res_store" where
  "arc_clone i \<sigma> = (case \<sigma> i of None \<Rightarrow> \<sigma> | Some s \<Rightarrow> \<sigma>(i \<mapsto> s\<lparr>r_strong := r_strong s + 1\<rparr>))"

definition arc_drop :: "nat \<Rightarrow> 'k::linorder res_store \<Rightarrow> 'k res_store" where
  "arc_drop i \<sigma> =
     (case \<sigma> i of None \<Rightarrow> \<sigma>
      | Some s \<Rightarrow> if r_strong s = 1 then res_drop i \<sigma> else \<sigma>(i \<mapsto> s\<lparr>r_strong := r_strong s - 1\<rparr>))"

text \<open>
  All runs of the operations on one tree, in any order. The address of a new
  object is neither live nor held by a \<open>Weak\<close>, which keeps its allocation.
\<close>

inductive res_step :: "'k::linorder res_store \<Rightarrow> 'k res_store \<Rightarrow> bool" where
  step_allocate: "\<sigma> fresh = None \<Longrightarrow> fresh \<noteq> self \<Longrightarrow> (\<And>i s. \<sigma> i = Some s \<Longrightarrow> r_parent s \<noteq> Some fresh) \<Longrightarrow>
    res_step \<sigma> (snd (res_allocate self fresh r \<sigma>))"
| step_clone: "res_step \<sigma> (arc_clone i \<sigma>)"
| step_drop: "res_step \<sigma> (arc_drop i \<sigma>)"

section \<open>Confinement\<close>

text \<open>
  Every object has the magic number and lies inside the range of the root; one
  with a live parent lies in the parent's range and is entered in the parent's
  map under its start, by which its drop finds it; starts identify the children.
\<close>

definition obj_ok :: "u64 \<Rightarrow> 'k::linorder range \<Rightarrow> 'k resource \<Rightarrow> bool" where
  "obj_ok magic root s \<longleftrightarrow> 1 \<le> r_strong s \<and> r_magic s = magic \<and> rm_range (r_map s) = r_range s \<and>
     fst root \<le> fst (r_range s) \<and> snd (r_range s) \<le> snd root"

definition child_in :: "'k::linorder resource \<Rightarrow> 'k resource \<Rightarrow> bool" where
  "child_in s' s \<longleftrightarrow> map_of (rm_inner (r_map s')) (fst (r_range s)) = Some (r_range s, ()) \<and>
     fst (r_range s') \<le> fst (r_range s) \<and> snd (r_range s) \<le> snd (r_range s')"

definition res_ok :: "u64 \<Rightarrow> 'k::linorder range \<Rightarrow> 'k res_store \<Rightarrow> bool" where
  "res_ok magic root \<sigma> \<longleftrightarrow>
     (\<forall>i s. \<sigma> i = Some s \<longrightarrow> obj_ok magic root s) \<and>
     (\<forall>i s p. \<sigma> i = Some s \<longrightarrow> r_parent s = Some p \<longrightarrow> i \<noteq> p \<and> (\<forall>s'. \<sigma> p = Some s' \<longrightarrow> child_in s' s)) \<and>
     (\<forall>i j s t p. \<sigma> i = Some s \<longrightarrow> \<sigma> j = Some t \<longrightarrow> i \<noteq> j \<longrightarrow> r_parent s = Some p \<longrightarrow> r_parent t = Some p \<longrightarrow>
        \<sigma> p \<noteq> None \<longrightarrow> fst (r_range s) \<noteq> fst (r_range t))"

lemma res_okD:
  assumes "res_ok magic root \<sigma>" "\<sigma> i = Some s"
  shows "obj_ok magic root s" "r_parent s = Some p \<Longrightarrow> i \<noteq> p"
    "r_parent s = Some p \<Longrightarrow> \<sigma> p = Some s' \<Longrightarrow> child_in s' s"
    "r_parent s = Some p \<Longrightarrow> \<sigma> p \<noteq> None \<Longrightarrow> \<sigma> j = Some t \<Longrightarrow> i \<noteq> j \<Longrightarrow> r_parent t = Some p \<Longrightarrow>
       fst (r_range s) \<noteq> fst (r_range t)"
  using assms unfolding res_ok_def by blast+

lemma res_ok_upd:
  assumes ok: "res_ok magic root \<sigma>" and i: "\<sigma> i = Some s"
    and s': "obj_ok magic root s'" "r_parent s' = r_parent s" "r_range s' = r_range s"
    and ch: "\<And>j t. \<sigma> j = Some t \<Longrightarrow> r_parent t = Some i \<Longrightarrow> child_in s' t"
  shows "res_ok magic root (\<sigma>(i \<mapsto> s'))"
proof -
  have *: "child_in t s' \<longleftrightarrow> child_in t s" for t by (simp add: child_in_def s')
  show ?thesis
    using res_okD [OF ok] i s' ch unfolding res_ok_def
    by (auto simp: * split: if_splits)
qed

lemma res_ok_del:
  assumes ok: "res_ok magic root \<sigma>"
  shows "res_ok magic root (\<sigma>(i := None))"
  using ok unfolding res_ok_def by (auto split: if_splits)

lemma res_ok_add:
  assumes ok: "res_ok magic root \<sigma>" and f: "\<sigma> f = None" "\<And>i s. \<sigma> i = Some s \<Longrightarrow> r_parent s \<noteq> Some f"
    and t: "obj_ok magic root t" "r_parent t = Some p" "p \<noteq> f"
    and p: "\<sigma> p = Some s" "child_in s t"
    and diff: "\<And>j u. \<sigma> j = Some u \<Longrightarrow> r_parent u = Some p \<Longrightarrow> fst (r_range u) \<noteq> fst (r_range t)"
  shows "res_ok magic root (\<sigma>(f \<mapsto> t))"
  using res_okD [OF ok] assms(2-) unfolding res_ok_def by (auto split: if_splits) metis+

lemma res_ok_allocate:
  assumes ok: "res_ok magic root \<sigma>" and f: "\<sigma> f = None" "f \<noteq> self" "\<And>i s. \<sigma> i = Some s \<Longrightarrow> r_parent s \<noteq> Some f"
  shows "res_ok magic root (snd (res_allocate self f r \<sigma>))"
proof (cases "\<sigma> self")
  case (Some s)
  note D = res_okD [OF ok Some]
  show ?thesis
  proof (cases "fst (r_range s) \<le> fst r \<and> fst r < snd r \<and> snd r \<le> snd (r_range s) \<and> map_of (rm_inner (r_map s)) (fst r) = None")
    case True
    let ?m = "(r_map s)\<lparr>rm_inner := bt_insert (fst r) (r, ()) (rm_inner (r_map s))\<rparr>"
    let ?s = "s\<lparr>r_map := ?m\<rparr>" and ?t = "res_new (r_magic s) r self"
    have obj: "obj_ok magic root ?s" "obj_ok magic root ?t"
      using D(1) True by (auto simp: obj_ok_def res_new_def rm_new_def)
    have starts: "fst (r_range u) \<noteq> fst r \<and> child_in ?s u" if "\<sigma> j = Some u" "r_parent u = Some self" for j u
      using res_okD(3) [OF ok that Some] True by (auto simp: child_in_def bt_get_insert)
    have "res_ok magic root (\<sigma>(self \<mapsto> ?s))"
      by (rule res_ok_upd [OF ok Some]) (use obj starts in auto)
    then have "res_ok magic root (\<sigma>(self \<mapsto> ?s, f \<mapsto> ?t))"
    proof (rule res_ok_add)
      show "child_in ?s ?t" using True by (simp add: child_in_def res_new_def bt_get_insert)
      show "fst (r_range u) \<noteq> fst (r_range ?t)"
        if "(\<sigma>(self \<mapsto> ?s)) j = Some u" "r_parent u = Some self" for j u
        using that starts D(2) by (auto simp: res_new_def split: if_splits)
      show "r_parent u \<noteq> Some f" if "(\<sigma>(self \<mapsto> ?s)) j = Some u" for j u
        using that f(3) Some by (auto split: if_splits)
    qed (use f obj in \<open>auto simp: res_new_def\<close>)
    then show ?thesis
      using True Some D(1) ok by (auto simp: res_allocate_def try_insert_with_def obj_ok_def)
  next
    case False
    then show ?thesis
      using Some D(1) ok by (auto simp: res_allocate_def try_insert_with_def obj_ok_def fun_upd_idem split: option.splits)
  qed
qed (simp add: res_allocate_def ok)

lemma res_ok_drop:
  assumes ok: "res_ok magic root \<sigma>"
  shows "res_ok magic root (res_drop i \<sigma>)"
proof (cases "\<exists>s p s'. \<sigma> i = Some s \<and> r_parent s = Some p \<and> \<sigma> p = Some s'")
  case True
  then obtain s p s' where s: "\<sigma> i = Some s" "r_parent s = Some p" "\<sigma> p = Some s'" by blast
  let ?m = "snd (rm_remove (fst (r_range s)) (r_map s'))"
  have m: "map_of (rm_inner ?m) k = (if k = fst (r_range s) then None else map_of (rm_inner (r_map s')) k)" "rm_range ?m = rm_range (r_map s')" for k
    by (auto simp: rm_remove_def remove_if_def bt_get_remove split: option.splits)
  have "res_ok magic root ((\<sigma>(i := None))(p \<mapsto> s'\<lparr>r_map := ?m\<rparr>))"
  proof (rule res_ok_upd [OF res_ok_del [OF ok]])
    show "(\<sigma>(i := None)) p = Some s'" using s res_okD(2) [OF ok s(1,2)] by simp
    show "obj_ok magic root (s'\<lparr>r_map := ?m\<rparr>)" using res_okD(1) [OF ok s(3)] by (simp add: obj_ok_def m)
    show "child_in (s'\<lparr>r_map := ?m\<rparr>) t" if "(\<sigma>(i := None)) j = Some t" "r_parent t = Some p" for j t
    proof -
      have j: "\<sigma> j = Some t" "j \<noteq> i" using that by (auto split: if_splits)
      have "fst (r_range t) \<noteq> fst (r_range s)" using res_okD(4) [OF ok s(1,2) _ j(1)] s(3) j(2) that(2) by auto
      then show ?thesis using res_okD(3) [OF ok j(1) that(2) s(3)] by (simp add: child_in_def m)
    qed
  qed auto
  then show ?thesis using s res_okD(2) [OF ok s(1,2)] by (simp add: res_drop_def fun_upd_twist)
next
  case False
  then show ?thesis using ok res_ok_del [OF ok] by (auto simp: res_drop_def split: option.splits)
qed

lemma res_ok_strong:
  assumes "res_ok magic root \<sigma>" "\<sigma> i = Some s" "1 \<le> n"
  shows "res_ok magic root (\<sigma>(i \<mapsto> s\<lparr>r_strong := n\<rparr>))"
  by (rule res_ok_upd [OF assms(1,2)])
    (use res_okD(1) [OF assms(1,2)] res_okD(3) [OF assms(1) _ _ assms(2)] assms(3) in \<open>auto simp: obj_ok_def child_in_def\<close>)

lemma res_step_ok:
  assumes "res_step \<sigma> \<sigma>'" "res_ok magic root \<sigma>"
  shows "res_ok magic root \<sigma>'"
  using assms
proof (cases rule: res_step.cases)
  case (step_allocate fresh self r)
  then show ?thesis using res_ok_allocate [OF assms(2)] by blast
next
  case (step_clone i)
  then show ?thesis using assms(2) res_ok_strong [OF assms(2)] by (auto simp: arc_clone_def split: option.splits)
next
  case (step_drop i)
  have "res_ok magic root (\<sigma>(i \<mapsto> s\<lparr>r_strong := r_strong s - 1\<rparr>))" if "\<sigma> i = Some s" "r_strong s \<noteq> 1" for s
    by (rule res_ok_strong [OF assms(2) that(1)]) (use res_okD(1) [OF assms(2) that(1)] that(2) in \<open>auto simp: obj_ok_def\<close>)
  then show ?thesis using step_drop assms(2) res_ok_drop [OF assms(2)] by (auto simp: arc_drop_def split: option.splits)
qed

section \<open>Properties\<close>

text \<open>
  C10. Resources are confined. From a root with a given magic number and range,
  after any sequence of allocations, clones and drops, every live resource has
  the magic number of the root and lies inside the range of the root; one whose
  parent is live lies in the parent's range and is the entry of the parent's map
  under its start.
\<close>

theorem resources_confined:
  assumes "res_step\<^sup>*\<^sup>* [0 \<mapsto> new_root magic root] \<sigma>" "\<sigma> i = Some s"
  shows "r_magic s = magic \<and> fst root \<le> fst (r_range s) \<and> snd (r_range s) \<le> snd root \<and>
    (\<forall>p s'. r_parent s = Some p \<longrightarrow> \<sigma> p = Some s' \<longrightarrow>
       fst (r_range s') \<le> fst (r_range s) \<and> snd (r_range s) \<le> snd (r_range s') \<and>
       rm_get (fst (r_range s)) (r_map s') = Some ())"
proof -
  have "res_ok magic root [0 \<mapsto> new_root magic root]"
    by (auto simp: res_ok_def obj_ok_def new_root_def rm_new_def split: if_splits)
  with assms(1) have "res_ok magic root \<sigma>"
    by (induction rule: rtranclp_induct) (auto intro: res_step_ok)
  note D = res_okD [OF this assms(2)]
  show ?thesis using D(1,3) by (auto simp: obj_ok_def child_in_def rm_get_def)
qed


definition sample_tree :: "nat res_store" where
  "sample_tree = snd (res_allocate 0 2 (4, 8) (snd (res_allocate 0 1 (2, 6) [0 \<mapsto> new_root 7 (0, 10)])))"

lemma sample_tree_objects:
  "sample_tree 1 = Some (res_new 7 (2, 6) 0)" "sample_tree 2 = Some (res_new 7 (4, 8) 0)"
  "sample_tree 0 \<noteq> None"
  by (simp_all add: sample_tree_def res_allocate_def new_root_def rm_new_def try_insert_with_def bt_insert_def)

lemma sample_tree_reachable: "res_step\<^sup>*\<^sup>* [0 \<mapsto> new_root 7 (0, 10)] sample_tree"
proof -
  let ?r = "[0 \<mapsto> new_root 7 (0, 10)] :: nat res_store"
  let ?r1 = "snd (res_allocate 0 1 (2, 6) ?r)"
  have r1: "?r1 = [0 \<mapsto> (new_root 7 (0, 10))\<lparr>r_map := \<lparr>rm_inner = [(2, ((2, 6), ()))], rm_range = (0, 10)\<rparr>\<rparr>, 1 \<mapsto> res_new 7 (2, 6) 0]"
    by (simp add: res_allocate_def new_root_def rm_new_def try_insert_with_def bt_insert_def fun_eq_iff)
  have "res_step ?r ?r1"
    by (rule step_allocate) (auto simp: new_root_def split: if_splits)
  moreover have "res_step ?r1 sample_tree"
    unfolding sample_tree_def r1 by (rule step_allocate) (auto simp: new_root_def res_new_def split: if_splits)
  ultimately show ?thesis by (meson r_into_rtranclp rtranclp_trans)
qed

theorem resources_confined_witness:
  "\<exists>s. sample_tree 1 = Some s \<and> r_magic s = 7 \<and> 0 \<le> fst (r_range s) \<and> snd (r_range s) \<le> 10"
  using resources_confined [OF sample_tree_reachable sample_tree_objects(1)] sample_tree_objects(1) by auto

text \<open>
  Sibling resources may overlap: the map of the parent refuses a second
  child only when it has the same start, so a reachable tree holds two live
  children of the live root whose ranges share a part.
\<close>

theorem siblings_may_overlap:
  "\<exists>\<sigma> s t. res_step\<^sup>*\<^sup>* [0 \<mapsto> new_root 7 (0, 10)] \<sigma> \<and> \<sigma> 1 = Some s \<and> \<sigma> 2 = Some t \<and>
     r_parent s = Some 0 \<and> r_parent t = Some 0 \<and> \<sigma> 0 \<noteq> None \<and>
     {fst (r_range s)..<snd (r_range s)} \<inter> {fst (r_range t)..<snd (r_range t)} = {4..<(6 :: nat)}"
  using sample_tree_reachable sample_tree_objects by (intro exI [of _ sample_tree]) (auto simp: res_new_def)

end
