(* ===== verification/Syscall.thy ===== *)
theory Syscall
  imports Prelude
begin

text \<open>
  The register encoding of system call results, \<open>h2o/libs/syscall/src/call/reg.rs\<close>,
  \<open>call/hdl.rs\<close>, \<open>error.rs\<close> and \<open>error/c_ty.rs\<close>, and the dispatch of
  \<open>h2o/kernel/src/syscall.rs\<close>. The trait \<open>SerdeReg\<close> is the interface
  \<open>serde_reg\<close>; an \<open>i32\<close> is its value, an integer in the 32-bit range.
\<close>

section \<open>Errors\<close>

datatype Error = Error (raw: int)

definition in_errc_range :: "int \<Rightarrow> bool" where
  "in_errc_range e \<longleftrightarrow> 1 \<le> e \<and> e < 35"

definition in_custom_range :: "int \<Rightarrow> bool" where
  "in_custom_range e \<longleftrightarrow> 1001 \<le> e \<and> e < 1007"

text \<open>Unary minus on \<open>i32\<close>.\<close>

definition neg_i32 :: "int \<Rightarrow> int run" where
  "neg_i32 x = (if x = - (2 ^ 31) then Inl ArithOverflow else Inr (- x))"

definition as_i32 :: "usize \<Rightarrow> int" where
  "as_i32 val = sint (ucast val :: 32 word)"

definition try_decode :: "usize \<Rightarrow> Error option run" where
  "try_decode val =
     rbind (neg_i32 (as_i32 val)) (\<lambda>err.
       if in_errc_range err \<or> in_custom_range err
       then rbind (neg_i32 err) (\<lambda>r. Inr (Some (Error r))) else Inr None)"

definition OK :: Error where "OK = Error (0)"
definition EPERM :: Error where "EPERM = Error (-1)"
definition ENOENT :: Error where "ENOENT = Error (-2)"
definition ESRCH :: Error where "ESRCH = Error (-3)"
definition EINTR :: Error where "EINTR = Error (-4)"
definition EIO :: Error where "EIO = Error (-5)"
definition ENXIO :: Error where "ENXIO = Error (-6)"
definition E2BIG :: Error where "E2BIG = Error (-7)"
definition ENOEXEC :: Error where "ENOEXEC = Error (-8)"
definition EBADF :: Error where "EBADF = Error (-9)"
definition ECHILD :: Error where "ECHILD = Error (-10)"
definition EAGAIN :: Error where "EAGAIN = Error (-11)"
definition ENOMEM :: Error where "ENOMEM = Error (-12)"
definition EACCES :: Error where "EACCES = Error (-13)"
definition EFAULT :: Error where "EFAULT = Error (-14)"
definition ENOTBLK :: Error where "ENOTBLK = Error (-15)"
definition EBUSY :: Error where "EBUSY = Error (-16)"
definition EEXIST :: Error where "EEXIST = Error (-17)"
definition EXDEV :: Error where "EXDEV = Error (-18)"
definition ENODEV :: Error where "ENODEV = Error (-19)"
definition ENOTDIR :: Error where "ENOTDIR = Error (-20)"
definition EISDIR :: Error where "EISDIR = Error (-21)"
definition EINVAL :: Error where "EINVAL = Error (-22)"
definition ENFILE :: Error where "ENFILE = Error (-23)"
definition EMFILE :: Error where "EMFILE = Error (-24)"
definition ENOTTY :: Error where "ENOTTY = Error (-25)"
definition ETXTBSY :: Error where "ETXTBSY = Error (-26)"
definition EFBIG :: Error where "EFBIG = Error (-27)"
definition ENOSPC :: Error where "ENOSPC = Error (-28)"
definition ESPIPE :: Error where "ESPIPE = Error (-29)"
definition EROFS :: Error where "EROFS = Error (-30)"
definition EMLINK :: Error where "EMLINK = Error (-31)"
definition EPIPE :: Error where "EPIPE = Error (-32)"
definition EDOM :: Error where "EDOM = Error (-33)"
definition ERANGE :: Error where "ERANGE = Error (-34)"
definition EKILLED :: Error where "EKILLED = Error (-1001)"
definition EBUFFER :: Error where "EBUFFER = Error (-1002)"
definition ETIME :: Error where "ETIME = Error (-1003)"
definition EALIGN :: Error where "EALIGN = Error (-1004)"
definition ETYPE :: Error where "ETYPE = Error (-1005)"
definition ESPRT :: Error where "ESPRT = Error (-1006)"

lemmas error_defs =
  OK_def EPERM_def ENOENT_def ESRCH_def EINTR_def EIO_def ENXIO_def E2BIG_def ENOEXEC_def EBADF_def ECHILD_def EAGAIN_def ENOMEM_def EACCES_def EFAULT_def ENOTBLK_def EBUSY_def EEXIST_def
  EXDEV_def ENODEV_def ENOTDIR_def EISDIR_def EINVAL_def ENFILE_def EMFILE_def ENOTTY_def ETXTBSY_def EFBIG_def ENOSPC_def ESPIPE_def EROFS_def EMLINK_def EPIPE_def EDOM_def ERANGE_def
  EKILLED_def EBUFFER_def ETIME_def EALIGN_def ETYPE_def ESPRT_def

definition ERRC_DESC :: "string list" where
  "ERRC_DESC =
     [''Success'', ''Operation not permitted'', ''No such file or directory'', ''No such process'',
      ''Interrupted system call'', ''I/O error'', ''No such device or address'',
      ''Argument list too long'', ''Executable format error'', ''Bad file number'',
      ''No child processes'', ''Try again'', ''Out of memory'', ''Permission denied'',
      ''Bad address'', ''Block device required'', ''Device or resource busy'', ''File exists'',
      ''Cross-device link'', ''No such device'', ''Not a directory'', ''Is a directory'',
      ''Invalid argument'', ''File table overflow'', ''Too many open files'', ''Not a typewriter'',
      ''Text file busy'', ''File too large'', ''No space left on device'', ''Illegal seek'',
      ''Read-only file system'', ''Too many links'', ''Broken pipe'',
      ''Math argument out of domain of func'', ''Range not available'']"

definition ERRC_NAME :: "string list" where
  "ERRC_NAME =
     [''OK'', ''EPERM'', ''ENOENT'', ''ESRCH'', ''EINTR'', ''EIO'', ''ENXIO'', ''E2BIG'',
      ''ENOEXEC'', ''EBADF'', ''ECHILD'', ''EAGAIN'', ''ENOMEM'', ''EACCES'', ''EFAULT'',
      ''ENOTBLK'', ''EBUSY'', ''EEXIST'', ''EXDEV'', ''ENODEV'', ''ENOTDIR'', ''EISDIR'',
      ''EINVAL'', ''ENFILE'', ''EMFILE'', ''ENOTTY'', ''ETXTBSY'', ''EFBIG'', ''ENOSPC'',
      ''ESPIPE'', ''EROFS'', ''EMLINK'', ''EPIPE'', ''EDOM'', ''ERANGE'']"

definition CUSTOM_DESC :: "string list" where
  "CUSTOM_DESC =
     [''Object already killed'', ''Buffer range exceeded'', ''Timed out'', ''Pointer unaligned'',
      ''Object type mismatch'', ''Function not supported'']"

definition CUSTOM_NAME :: "string list" where
  "CUSTOM_NAME =
     [''EKILLED'', ''EBUFFER'', ''ETIME'', ''EALIGN'', ''ETYPE'', ''ESPRT'']"

definition index_run :: "'a list \<Rightarrow> int \<Rightarrow> 'a run" where
  "index_run xs i = (if 0 \<le> i \<and> nat i < length xs then Inr (xs ! nat i) else Inl OutOfBounds)"

definition error_desc :: "Error \<Rightarrow> string run" where
  "error_desc e = rbind (neg_i32 (raw e)) (\<lambda>index.
     if in_errc_range index then index_run ERRC_DESC index else index_run CUSTOM_DESC (index - 1001))"

definition error_name :: "Error \<Rightarrow> string run" where
  "error_name e = rbind (neg_i32 (raw e)) (\<lambda>index.
     if in_errc_range index then index_run ERRC_NAME index else index_run CUSTOM_NAME (index - 1001))"

definition get_opt :: "'a list \<Rightarrow> nat \<Rightarrow> 'a option" where
  "get_opt xs i = (if i < length xs then Some (xs ! i) else None)"

definition desc_by_index :: "int \<Rightarrow> string option run" where
  "desc_by_index errnum =
     rbind (neg_i32 errnum) (\<lambda>i.
       let index = unat (of_int i :: usize) in
       case get_opt ERRC_DESC index of
         Some d \<Rightarrow> Inr (Some d)
       | None \<Rightarrow> if index < 1001 then Inl ArithOverflow else Inr (get_opt CUSTOM_DESC (index - 1001)))"

section \<open>Register values\<close>

definition as_usize_i32 :: "int \<Rightarrow> usize" where
  "as_usize_i32 x = of_int x"

definition result_encode :: "('a \<Rightarrow> usize) \<Rightarrow> Error + 'a \<Rightarrow> usize" where
  "result_encode enc res = (case res of Inr t \<Rightarrow> enc t | Inl e \<Rightarrow> as_usize_i32 (raw e))"

definition result_decode :: "(usize \<Rightarrow> 'a) \<Rightarrow> usize \<Rightarrow> (Error + 'a) run" where
  "result_decode dec val = rbind (try_decode val) (\<lambda>o'. case o' of None \<Rightarrow> Inr (Inr (dec val)) | Some e \<Rightarrow> Inr (Inl e))"

definition into_retval :: "Error \<Rightarrow> usize" where
  "into_retval e = result_encode (\<lambda>_ :: unit. 0) (Inl e)"

definition encode_unsigned :: "'a::len word \<Rightarrow> usize" where "encode_unsigned x = ucast x"
definition decode_unsigned :: "usize \<Rightarrow> 'a::len word" where "decode_unsigned reg = ucast reg"
definition encode_signed :: "'a::len word \<Rightarrow> usize" where "encode_signed x = scast x"
definition decode_signed :: "usize \<Rightarrow> 'a::len word" where "decode_signed reg = ucast reg"

definition encode_bool :: "bool \<Rightarrow> usize" where "encode_bool b = (if b then 1 else 0)"
definition decode_bool :: "usize \<Rightarrow> bool" where "decode_bool val \<longleftrightarrow> val \<noteq> 0"

definition encode_unit :: "unit \<Rightarrow> usize" where "encode_unit u = 0"
definition decode_unit :: "usize \<Rightarrow> unit" where "decode_unit val = ()"

datatype Handle = Handle (hdl_raw: u32)

definition NULL :: Handle where "NULL = Handle 0"

definition check_null :: "Handle \<Rightarrow> Error + Handle" where
  "check_null h = (if hdl_raw h \<noteq> 0 then Inr h else Inl EINVAL)"

definition is_null :: "Handle \<Rightarrow> bool" where "is_null h \<longleftrightarrow> hdl_raw h = 0"

definition handle_try_from :: "usize \<Rightarrow> Error + Handle" where
  "handle_try_from value = check_null (Handle (ucast value))"

definition encode_handle :: "Handle \<Rightarrow> usize" where "encode_handle h = ucast (hdl_raw h)"
definition decode_handle :: "usize \<Rightarrow> Handle" where "decode_handle val = Handle (ucast val)"

section \<open>The C types of the stubs\<close>

datatype Status = Status Error

fun encode_status :: "Status \<Rightarrow> usize run" where
  "encode_status (Status e) = rbind (neg_i32 (raw e)) (\<lambda>x. Inr (as_usize_i32 x))"

definition decode_status :: "usize \<Rightarrow> Status run" where
  "decode_status val = rbind (try_decode val) (\<lambda>o'. Inr (Status (case o' of Some e \<Rightarrow> e | None \<Rightarrow> OK)))"

fun status_into_res :: "Status \<Rightarrow> Error + unit" where
  "status_into_res (Status e) = (if e = OK then Inr () else Inl e)"

definition status_from_res :: "Error + unit \<Rightarrow> Status run" where
  "status_from_res res = decode_status (result_encode encode_unit res)"

text \<open>The unions \<open>StatusOrHandle\<close> and \<open>StatusOrValue\<close> are their 64-bit value.\<close>

definition status_or_handle_into_res :: "usize \<Rightarrow> (Error + Handle) run" where
  "status_or_handle_into_res u = result_decode decode_handle u"

definition status_or_handle_from_res :: "Error + Handle \<Rightarrow> usize" where
  "status_or_handle_from_res res = result_encode encode_handle res"

definition status_or_value_into_res :: "usize \<Rightarrow> (Error + u64) run" where
  "status_or_value_into_res u = result_decode decode_unsigned u"

definition status_or_value_from_res :: "Error + u64 \<Rightarrow> usize" where
  "status_or_value_from_res res = result_encode encode_unsigned res"

section \<open>Dispatch\<close>

record syscall_regs =
  sc_num :: usize
  sc_args :: "usize \<times> usize \<times> usize \<times> usize \<times> usize"

definition handle_syscall ::
  "(usize \<Rightarrow> usize \<Rightarrow> usize \<Rightarrow> usize \<Rightarrow> usize \<Rightarrow> 's \<Rightarrow> usize \<times> 's) list \<Rightarrow> syscall_regs \<Rightarrow> 's \<Rightarrow> usize \<times> 's" where
  "handle_syscall table sc s =
     (case get_opt table (unat (sc_num sc)) of
        Some handler \<Rightarrow> (case sc_args sc of (a0, a1, a2, a3, a4) \<Rightarrow> handler a0 a1 a2 a3 a4 s)
      | None \<Rightarrow> (into_retval ESPRT, s))"


section \<open>Decoding, characterised by the low 32 bits\<close>

definition low32 :: "usize \<Rightarrow> int" where
  "low32 v = uint v mod 2 ^ 32"

definition error_code :: "Error \<Rightarrow> bool" where
  "error_code e \<longleftrightarrow> in_errc_range (- raw e) \<or> in_custom_range (- raw e)"

definition looks_like_error :: "usize \<Rightarrow> bool" where
  "looks_like_error v \<longleftrightarrow> 2 ^ 32 - 34 \<le> low32 v \<or> 2 ^ 32 - 1006 \<le> low32 v \<and> low32 v \<le> 2 ^ 32 - 1001"

lemma low32_bounds [simp]: "0 \<le> low32 v" "low32 v < 2 ^ 32"
  by (simp_all add: low32_def)

lemma int_mod_wrap: "m \<le> x \<Longrightarrow> x < 2 * m \<Longrightarrow> x mod m = x - (m :: int)"
  by (smt (verit) minus_mod_self2 mod_pos_pos_trivial)

lemma int_mod_neg: "- m \<le> x \<Longrightarrow> x < 0 \<Longrightarrow> x mod m = x + (m :: int)"
  by (smt (verit) mod_add_self2 mod_pos_pos_trivial)

lemma low32_of_int: "low32 (as_usize_i32 x) = x mod 2 ^ 32"
  by (simp add: low32_def as_usize_i32_def uint_word_of_int mod_mod_cancel)

lemma as_i32_low32: "as_i32 v = (if low32 v < 2 ^ 31 then low32 v else low32 v - 2 ^ 32)"
proof -
  have u: "uint (ucast v :: 32 word) = low32 v"
    by (simp add: low32_def uint_word_of_int unsigned_ucast_eq take_bit_eq_mod)
  have "as_i32 v = (low32 v + 2 ^ 31) mod 2 ^ 32 - 2 ^ 31"
    unfolding as_i32_def sint_uint u by (simp add: signed_take_bit_eq_take_bit_shift take_bit_eq_mod)
  moreover have "(low32 v + 2 ^ 31) mod 2 ^ 32 = (if low32 v < 2 ^ 31 then low32 v + 2 ^ 31 else low32 v - 2 ^ 31)"
  proof (cases "low32 v < 2 ^ 31")
    case True
    then show ?thesis by (simp add: mod_pos_pos_trivial)
  next
    case False
    then show ?thesis using low32_bounds(2) [of v] int_mod_wrap [of "2 ^ 32" "low32 v + 2 ^ 31"] by simp
  qed
  ultimately show ?thesis by simp
qed

lemma try_decode_eq:
  "try_decode v =
     (if low32 v = 2 ^ 31 then Inl ArithOverflow
      else if looks_like_error v then Inr (Some (Error (low32 v - 2 ^ 32))) else Inr None)"
proof -
  have "0 \<le> low32 v" "low32 v < 2 ^ 32" by (rule low32_bounds)+
  then show ?thesis
    by (auto simp: try_decode_def as_i32_low32 neg_i32_def in_errc_range_def in_custom_range_def looks_like_error_def
        simp del: low32_bounds)
qed

lemma low32_of_error:
  assumes "error_code e"
  shows "low32 (as_usize_i32 (raw e)) = 2 ^ 32 + raw e" "looks_like_error (as_usize_i32 (raw e))"
proof -
  have r: "- 1007 < raw e" "raw e < 0" using assms by (auto simp: error_code_def in_errc_range_def in_custom_range_def)
  show *: "low32 (as_usize_i32 (raw e)) = 2 ^ 32 + raw e"
    using r int_mod_neg [of "2 ^ 32" "raw e"] by (simp add: low32_of_int)
  show "looks_like_error (as_usize_i32 (raw e))"
    using assms by (auto simp: looks_like_error_def * error_code_def in_errc_range_def in_custom_range_def)
qed

lemma try_decode_error: "error_code e \<Longrightarrow> try_decode (as_usize_i32 (raw e)) = Inr (Some e)"
  using low32_of_error [of e]
  by (cases e) (auto simp: try_decode_eq error_code_def in_errc_range_def in_custom_range_def)

section \<open>The trait \<open>SerdeReg\<close>\<close>

locale serde_reg =
  fixes enc :: "'a \<Rightarrow> usize" and dec :: "usize \<Rightarrow> 'a"
  assumes decode_encode: "dec (enc x) = x"
begin

lemma result_err: "error_code e \<Longrightarrow> result_decode dec (result_encode enc (Inl e)) = Inr (Inl e)"
  by (simp add: result_decode_def result_encode_def try_decode_error)

lemma result_ok:
  "result_decode dec (result_encode enc (Inr x)) =
     (if low32 (enc x) = 2 ^ 31 then Inl ArithOverflow
      else if looks_like_error (enc x) then Inr (Inl (Error (low32 (enc x) - 2 ^ 32)))
      else Inr (Inr x))"
  by (simp add: result_decode_def result_encode_def try_decode_eq decode_encode)

end

lemma ucast_ucast_up: "LENGTH('a) \<le> 64 \<Longrightarrow> ucast (ucast (x :: 'a::len word) :: usize) = x"
  by (rule bit_word_eqI) (simp add: bit_ucast_iff; auto)

lemma ucast_scast_up: "LENGTH('a) \<le> 64 \<Longrightarrow> ucast (scast (x :: 'a::len word) :: usize) = x"
  by (rule bit_word_eqI) (simp add: bit_ucast_iff bit_signed_iff; auto)

interpretation reg_u8: serde_reg "encode_unsigned :: u8 \<Rightarrow> usize" decode_unsigned
  by unfold_locales (simp add: encode_unsigned_def decode_unsigned_def ucast_ucast_up)

interpretation reg_u16: serde_reg "encode_unsigned :: u16 \<Rightarrow> usize" decode_unsigned
  by unfold_locales (simp add: encode_unsigned_def decode_unsigned_def ucast_ucast_up)

interpretation reg_u32: serde_reg "encode_unsigned :: u32 \<Rightarrow> usize" decode_unsigned
  by unfold_locales (simp add: encode_unsigned_def decode_unsigned_def ucast_ucast_up)

interpretation reg_u64: serde_reg "encode_unsigned :: u64 \<Rightarrow> usize" decode_unsigned
  by unfold_locales (simp add: encode_unsigned_def decode_unsigned_def ucast_ucast_up)

interpretation reg_i32: serde_reg "encode_signed :: u32 \<Rightarrow> usize" decode_signed
  by unfold_locales (simp add: encode_signed_def decode_signed_def ucast_scast_up)

interpretation reg_bool: serde_reg encode_bool decode_bool
  by unfold_locales (simp add: encode_bool_def decode_bool_def)

interpretation reg_unit: serde_reg encode_unit decode_unit
  by unfold_locales simp

interpretation reg_handle: serde_reg encode_handle decode_handle
  by unfold_locales (simp add: encode_handle_def decode_handle_def ucast_ucast_up)

section \<open>Properties\<close>

text \<open>
  C15. The register encoding of results, for every implementation of the trait:
  every error of the two declared ranges decodes to itself. A value decodes to
  itself when its low 32 bits neither are \<open>0x80000000\<close>, where the negation of the
  decoder overflows and panics, nor look like a negated error code, where the
  caller receives that error instead.
\<close>

theorem result_register_roundtrip:
  assumes "serde_reg enc dec"
  shows "(\<forall>e. error_code e \<longrightarrow> result_decode dec (result_encode enc (Inl e)) = Inr (Inl e)) \<and>
    (\<forall>x. result_decode dec (result_encode enc (Inr x)) =
       (if low32 (enc x) = 2 ^ 31 then Inl ArithOverflow
        else if looks_like_error (enc x) then Inr (Inl (Error (low32 (enc x) - 2 ^ 32)))
        else Inr (Inr x)))"
  using serde_reg.result_err [OF assms] serde_reg.result_ok [OF assms] by blast

theorem result_register_roundtrip_witness:
  "result_decode decode_handle (result_encode encode_handle (Inl EPERM)) = Inr (Inl EPERM) \<and>
   result_decode decode_handle (result_encode encode_handle (Inr (Handle 42))) = Inr (Inr (Handle 42)) \<and>
   result_decode (decode_unsigned :: usize \<Rightarrow> u64) (result_encode encode_unsigned (Inr (0xFFFFFFFF :: u64))) = Inr (Inl EPERM)"
proof -
  have "error_code EPERM" by (simp add: error_code_def EPERM_def in_errc_range_def)
  moreover have "low32 (encode_handle (Handle 42)) = 42" by (simp add: low32_def encode_handle_def)
  moreover have "low32 (encode_unsigned (0xFFFFFFFF :: u64)) = 0xFFFFFFFF" by (simp add: low32_def encode_unsigned_def)
  ultimately show ?thesis
    using result_register_roundtrip [OF reg_handle.serde_reg_axioms]
      result_register_roundtrip [OF reg_u64.serde_reg_axioms, THEN conjunct2, rule_format, of "0xFFFFFFFF"]
    by (simp add: looks_like_error_def EPERM_def)
qed

text \<open>
  C30. The status encoding loses errors: \<open>Status\<close> encodes the negation of an
  error's code, which its own decoder reads as success.
\<close>

theorem status_encoding_loses_errors:
  assumes "error_code e"
  shows "rbind (encode_status (Status e)) decode_status = Inr (Status OK)"
proof -
  have r: "1 \<le> - raw e" "- raw e < 1007" using assms by (auto simp: error_code_def in_errc_range_def in_custom_range_def)
  have "low32 (as_usize_i32 (- raw e)) = - raw e"
    unfolding low32_of_int using r by (intro mod_pos_pos_trivial) auto
  then show ?thesis
    using r by (simp add: decode_status_def try_decode_eq looks_like_error_def neg_i32_def)
qed

theorem status_encoding_loses_errors_witness:
  "rbind (encode_status (Status ENOENT)) decode_status = Inr (Status OK)"
  using status_encoding_loses_errors [of ENOENT] by (simp add: error_code_def ENOENT_def in_errc_range_def)


lemma error_tables: "length ERRC_DESC = 35" "length ERRC_NAME = 35" "length CUSTOM_DESC = 6" "length CUSTOM_NAME = 6"
  by (simp_all add: ERRC_DESC_def ERRC_NAME_def CUSTOM_DESC_def CUSTOM_NAME_def)

lemma unat_of_int_usize: "0 \<le> i \<Longrightarrow> i < 2 ^ 64 \<Longrightarrow> unat (of_int i :: usize) = nat i"
  by (simp add: unat_eq_nat_uint uint_word_of_int mod_pos_pos_trivial)

lemma unat_of_int_usize_neg: "- (2 ^ 31) \<le> i \<Longrightarrow> i < 0 \<Longrightarrow> 2 ^ 32 \<le> unat (of_int i :: usize)"
  using int_mod_neg [of "2 ^ 64" i] by (simp add: unat_eq_nat_uint uint_word_of_int)

text \<open>
  C28. Error texts: every error of the declared ranges has a name and a
  description, and \<open>desc_by_index\<close> of its code finds the same description. For
  codes that are not errors, \<open>desc_by_index\<close> panics exactly between the two
  ranges (and for the least \<open>i32\<close>), where the index of the second table underflows.
\<close>

theorem error_texts:
  assumes "- (2 ^ 31) \<le> raw e" "raw e < 2 ^ 31"
  shows "(error_code e \<longrightarrow> (\<exists>d n. error_desc e = Inr d \<and> error_name e = Inr n \<and> desc_by_index (raw e) = Inr (Some d))) \<and>
    ((\<exists>p. desc_by_index (raw e) = Inl p) \<longleftrightarrow> raw e = - (2 ^ 31) \<or> - 1000 \<le> raw e \<and> raw e \<le> - 35)"
proof -
  consider "raw e = - (2 ^ 31)" | "- (2 ^ 31) < raw e" "raw e \<le> 0" | "0 < raw e" using assms by linarith
  then show ?thesis
  proof cases
    case 1
    then show ?thesis by (simp add: error_code_def in_errc_range_def in_custom_range_def desc_by_index_def neg_i32_def)
  next
    case 2
    then have u: "unat (of_int (- raw e) :: usize) = nat (- raw e)" by (intro unat_of_int_usize) auto
    then have "unat (- of_int (raw e) :: usize) = nat (- raw e)" by simp
    then show ?thesis using 2
      by (auto simp: error_code_def in_errc_range_def in_custom_range_def desc_by_index_def neg_i32_def error_desc_def
          error_name_def index_run_def get_opt_def error_tables nat_diff_distrib' Let_def nat_less_iff)
  next
    case 3
    then have "2 ^ 32 \<le> unat (of_int (- raw e) :: usize)" using assms by (intro unat_of_int_usize_neg) auto
    then have "2 ^ 32 \<le> unat (- of_int (raw e) :: usize)" by simp
    then show ?thesis using 3 by (auto simp: error_code_def in_errc_range_def in_custom_range_def desc_by_index_def
          neg_i32_def get_opt_def error_tables Let_def)
  qed
qed

theorem error_texts_witness: "\<exists>d. error_desc ETIME = Inr d \<and> desc_by_index (- 1003) = Inr (Some d)"
  using error_texts [of ETIME] by (auto simp: ETIME_def error_code_def in_custom_range_def)

text \<open>
  A number outside of the table changes nothing, and every result type decodes
  the returned value as the error \<open>ESPRT\<close>.
\<close>

lemma unknown_syscall:
  assumes "length table \<le> unat (sc_num sc)"
  shows "handle_syscall table sc s = (into_retval ESPRT, s)" "result_decode dec (into_retval ESPRT) = Inr (Inl ESPRT)"
proof -
  have "error_code ESPRT" by (simp add: error_code_def ESPRT_def in_custom_range_def)
  then show "handle_syscall table sc s = (into_retval ESPRT, s)" "result_decode dec (into_retval ESPRT) = Inr (Inl ESPRT)"
    using assms by (auto simp: handle_syscall_def get_opt_def into_retval_def result_encode_def result_decode_def try_decode_error)
qed

end
