(* ===== verification/Paging.thy ===== *)
theory Paging
  imports Bitop
begin

unbundle bit_operations_syntax

text \<open>
  The x86_64 page tables of \<open>h2o/libs/paging/src\<close>: levels, entries, the walk that
  reads a mapping, and the operations that create, change and drop mappings.

  A table is named by its linear address, and the memory maps that address and
  an index to the 64-bit entry; \<open>LAddr\<close> and \<open>PAddr\<close> are their 64-bit values and
  \<open>Attr\<close> its bits. The page allocator is the trait \<open>PageAlloc\<close>: its operations
  are an argument of the definitions, its contract the interface \<open>page_alloc\<close>.
  The TLB is not modelled, so \<open>invalidate_page\<close> has no effect here.
\<close>

section \<open>Constants and levels\<close>

definition PAGE_MASK :: u64 where "PAGE_MASK = 0xFFF"
definition NR_ENTRIES_SHIFT :: nat where "NR_ENTRIES_SHIFT = 9"
definition NR_ENTRIES :: nat where "NR_ENTRIES = 512"

datatype Level = Pt | Pd | Pdp | P4

fun level_num :: "Level \<Rightarrow> nat" where
  "level_num Pt = 0"
| "level_num Pd = 1"
| "level_num Pdp = 2"
| "level_num P4 = 3"

datatype page_error =
    OutOfMemory
  | AddrMisaligned "u64 option" "u64 option" "u64 option"
  | RangeEmpty
  | EntryExistent bool

definition level_min :: "Level \<Rightarrow> Level \<Rightarrow> Level" where
  "level_min a b = (if level_num b < level_num a then b else a)"

definition page_bits :: "Level \<Rightarrow> nat" where
  "page_bits l = 12 + level_num l * NR_ENTRIES_SHIFT"

definition page_size :: "Level \<Rightarrow> u64" where
  "page_size l = push_bit (page_bits l) 1"

definition level_fit :: "u64 \<Rightarrow> Level option" where
  "level_fit val =
     (if val AND (page_size Pdp - 1) = 0 then Some Pdp
      else if val AND (page_size Pd - 1) = 0 then Some Pd
      else if val AND (page_size Pt - 1) = 0 then Some Pt
      else None)"

definition fit_all :: "u64 \<times> u64 \<Rightarrow> u64 \<Rightarrow> Level run" where
  "fit_all virt phys =
     rbind (unwrap (level_fit (fst virt))) (\<lambda>a.
     rbind (sub_chk (snd virt) (fst virt)) (\<lambda>len.
     rbind (unwrap (level_fit len)) (\<lambda>b.
     rbind (unwrap (level_fit phys)) (\<lambda>c.
       Inr (level_min (level_min a b) c)))))"

fun addr_mask :: "Level \<Rightarrow> u64" where
  "addr_mask Pt = 0x0000FFFFFFFFF000"
| "addr_mask Pd = 0x0000FFFFFFE00000"
| "addr_mask Pdp = 0x0000FFFFC0000000"
| "addr_mask P4 = 0x0000FF8000000000"

fun increase :: "Level \<Rightarrow> Level option" where
  "increase Pt = Some Pd"
| "increase Pd = Some Pdp"
| "increase Pdp = Some P4"
| "increase P4 = None"

fun decrease :: "Level \<Rightarrow> Level option" where
  "decrease Pt = None"
| "decrease Pd = Some Pt"
| "decrease Pdp = Some Pd"
| "decrease P4 = Some Pdp"

definition addr_idx :: "Level \<Rightarrow> u64 \<Rightarrow> bool \<Rightarrow> nat" where
  "addr_idx l addr end' =
     (let ret = unat (drop_bit (page_bits l) (addr AND addr_mask l) AND 511) in
      if end' \<and> ret = 0 then NR_ENTRIES else ret)"

section \<open>Attributes and entries\<close>

definition PRESENT :: u64 where "PRESENT = 1"
definition WRITABLE :: u64 where "WRITABLE = 2"
definition USER_ACCESS :: u64 where "USER_ACCESS = 4"
definition WRITE_THRU :: u64 where "WRITE_THRU = 8"
definition CACHE_DISABLE :: u64 where "CACHE_DISABLE = 16"
definition LARGE_PAGE :: u64 where "LARGE_PAGE = 128"
definition PAT :: u64 where "PAT = LARGE_PAGE"
definition LARGE_PAT :: u64 where "LARGE_PAT = 0x1000"
definition EXE_DISABLE :: u64 where "EXE_DISABLE = 0x8000000000000000"
definition ATTR_ALL :: u64 where "ATTR_ALL = 0x8000000000001FFF"
definition INTERMEDIATE :: u64 where "INTERMEDIATE = PRESENT OR WRITABLE OR USER_ACCESS"

definition contains :: "u64 \<Rightarrow> u64 \<Rightarrow> bool" where
  "contains attr other \<longleftrightarrow> attr AND other = other"

definition leaf_attr :: "Level \<Rightarrow> u64 \<Rightarrow> u64" where
  "leaf_attr l attr =
     (let pat = contains attr PAT;
          ret = attr OR PRESENT OR (if l = Pt then 0 else LARGE_PAGE)
      in if pat \<and> l \<noteq> Pt then ret OR LARGE_PAT else ret)"

definition has_table :: "u64 \<Rightarrow> Level \<Rightarrow> bool" where
  "has_table attr l \<longleftrightarrow> \<not> (l = Pt \<or> contains attr LARGE_PAGE)"

definition entry_get :: "u64 \<Rightarrow> Level \<Rightarrow> u64 \<times> u64" where
  "entry_get e l = (e AND addr_mask l, e AND ATTR_ALL)"

definition entry_new :: "u64 \<Rightarrow> u64 \<Rightarrow> Level \<Rightarrow> u64" where
  "entry_new phys attr l = (phys AND addr_mask l) OR attr"

definition get_table :: "u64 \<Rightarrow> u64 \<Rightarrow> Level \<Rightarrow> u64 option run" where
  "get_table id_off e l =
     (let (phys, attr) = entry_get e Pt in
      if contains attr PRESENT \<and> has_table attr l then
        rbind (add_chk phys id_off) (\<lambda>p. Inr (if p = 0 then None else Some p))
      else Inr None)"

definition is_leaf :: "u64 \<Rightarrow> Level \<Rightarrow> bool" where
  "is_leaf e l = contains (snd (entry_get e l)) (leaf_attr l 0)"

section \<open>The memory and the page allocator\<close>

type_synonym table_mem = "u64 \<Rightarrow> nat \<Rightarrow> u64"

definition set_entry :: "table_mem \<Rightarrow> u64 \<Rightarrow> nat \<Rightarrow> u64 \<Rightarrow> table_mem" where
  "set_entry mem t i e = mem(t := (mem t)(i := e))"

record 's page_alloc_ops =
  pa_allocate :: "'s \<Rightarrow> u64 option \<times> 's"
  pa_deallocate :: "u64 \<Rightarrow> 's \<Rightarrow> 's"

record 's pstate =
  ps_mem :: table_mem
  ps_alloc :: 's

definition allocate_zeroed :: "'s page_alloc_ops \<Rightarrow> u64 \<Rightarrow> 's pstate \<Rightarrow> (u64 option \<times> 's pstate) run" where
  "allocate_zeroed pa id_off st =
     (case pa_allocate pa (ps_alloc st) of
        (None, s) \<Rightarrow> Inr (None, st\<lparr>ps_alloc := s\<rparr>)
      | (Some phys, s) \<Rightarrow>
          rbind (add_chk phys id_off) (\<lambda>virt.
            Inr (Some phys, st\<lparr>ps_mem := (ps_mem st)(virt := (\<lambda>_. 0)), ps_alloc := s\<rparr>)))"

definition is_empty :: "(nat \<Rightarrow> u64) \<Rightarrow> nat option \<Rightarrow> Level \<Rightarrow> bool" where
  "is_empty tab except_idx lvl \<longleftrightarrow>
     (\<forall>i < NR_ENTRIES. Some i \<noteq> except_idx \<longrightarrow> \<not> contains (snd (entry_get (tab i) lvl)) PRESENT)"

section \<open>Tables\<close>

text \<open>An entry is named by its table and index.\<close>

definition create_table :: "'s page_alloc_ops \<Rightarrow> u64 \<Rightarrow> u64 \<Rightarrow> nat \<Rightarrow> Level \<Rightarrow> 's pstate
    \<Rightarrow> ((page_error + u64) \<times> 's pstate) run" where
  "create_table pa id_off t i l st =
     rbind (assert_run (l \<noteq> Pt)) (\<lambda>_.
     rbind (get_table id_off (ps_mem st t i) l) (\<lambda>o'.
       case o' of Some p \<Rightarrow> Inr (Inr p, st)
       | None \<Rightarrow>
           if is_leaf (ps_mem st t i) l then Inr (Inl (EntryExistent True), st)
           else rbind (allocate_zeroed pa id_off st) (\<lambda>(r, st1).
             case r of None \<Rightarrow> Inr (Inl OutOfMemory, st1)
             | Some phys \<Rightarrow>
                 let e = entry_new phys INTERMEDIATE Pt in
                 rbind (get_table id_off e l) (\<lambda>o''.
                 rbind (unwrap o'') (\<lambda>p.
                   Inr (Inr p, st1\<lparr>ps_mem := set_entry (ps_mem st1) t i e\<rparr>))))))"

definition fill_items :: "u64 \<Rightarrow> u64 \<Rightarrow> Level \<Rightarrow> nat \<Rightarrow> u64" where
  "fill_items phys attr l i = entry_new (phys + of_nat i * page_size l) attr l"

definition split_table :: "'s page_alloc_ops \<Rightarrow> u64 \<Rightarrow> u64 \<Rightarrow> nat \<Rightarrow> Level \<Rightarrow> 's pstate
    \<Rightarrow> ((page_error + unit) \<times> 's pstate) run" where
  "split_table pa id_off t i l st =
     (let (phys, attr0) = entry_get (ps_mem st t i) Pt;
          st1 = st\<lparr>ps_mem := set_entry (ps_mem st) t i 0\<rparr>;
          attr = attr0 AND (ATTR_ALL AND NOT LARGE_PAT)
      in rbind (unwrap (decrease l)) (\<lambda>item_level.
         let item_attr = leaf_attr item_level attr in
         rbind (create_table pa id_off t i l st1) (\<lambda>(r, st2).
           case r of Inl e \<Rightarrow> Inr (Inl e, st2)
           | Inr table \<Rightarrow>
               Inr (Inr (), st2\<lparr>ps_mem := (ps_mem st2)(table :=
                 (\<lambda>j. if j < NR_ENTRIES then fill_items phys item_attr item_level j else ps_mem st2 table j))\<rparr>))))"

definition get_or_split_table :: "'s page_alloc_ops \<Rightarrow> u64 \<Rightarrow> u64 \<Rightarrow> nat \<Rightarrow> Level \<Rightarrow> 's pstate
    \<Rightarrow> ((page_error + u64) \<times> 's pstate) run" where
  "get_or_split_table pa id_off t i l st =
     rbind (assert_run (l \<noteq> Pt)) (\<lambda>_.
     rbind (get_table id_off (ps_mem st t i) l) (\<lambda>o'.
       case o' of Some p \<Rightarrow> Inr (Inr p, st)
       | None \<Rightarrow>
           if is_leaf (ps_mem st t i) l then
             rbind (split_table pa id_off t i l st) (\<lambda>(r, st1).
               case r of Inl e \<Rightarrow> Inr (Inl e, st1)
               | Inr _ \<Rightarrow>
                   rbind (get_table id_off (ps_mem st1 t i) l) (\<lambda>o''.
                   rbind (unwrap o'') (\<lambda>p. Inr (Inr p, st1))))
           else Inr (Inl (EntryExistent False), st)))"

fun destroy_tables :: "'s page_alloc_ops \<Rightarrow> u64 \<Rightarrow> ((u64 \<times> nat) \<times> Level) list \<Rightarrow> 's pstate \<Rightarrow> 's pstate run" where
  "destroy_tables pa id_off [] st = Inr st"
| "destroy_tables pa id_off (((t, i), elvl) # items) st =
     rbind (unwrap (increase elvl)) (\<lambda>lvl.
     rbind (get_table id_off (ps_mem st t i) lvl) (\<lambda>o'.
     rbind (unwrap o') (\<lambda>table.
       if is_empty (ps_mem st table) None elvl then
         let addr = fst (entry_get (ps_mem st t i) Pt) in
         destroy_tables pa id_off items
           (st\<lparr>ps_mem := set_entry (ps_mem st) t i 0, ps_alloc := pa_deallocate pa addr (ps_alloc st)\<rparr>)
       else Inr st)))"


section \<open>Walks\<close>

lemma decrease_less: "decrease l = Some l' \<Longrightarrow> level_num l' < level_num l"
  by (cases l) auto

function new_page_from :: "'s page_alloc_ops \<Rightarrow> u64 \<Rightarrow> u64 \<Rightarrow> u64 \<Rightarrow> u64 \<Rightarrow> Level \<Rightarrow> Level \<Rightarrow> u64 \<Rightarrow> 's pstate
    \<Rightarrow> ((page_error + unit) \<times> 's pstate) run" where
  "new_page_from pa id_off virt phys attr level lvl table st =
     (let i = addr_idx lvl virt False in
      if lvl = level then
        if is_leaf (ps_mem st table i) level then Inr (Inl (EntryExistent True), st)
        else Inr (Inr (), st\<lparr>ps_mem := set_entry (ps_mem st) table i (entry_new phys (leaf_attr level attr) level)\<rparr>)
      else
        rbind (create_table pa id_off table i lvl st) (\<lambda>(r, st1).
          case r of Inl e \<Rightarrow> Inr (Inl e, st1)
          | Inr table' \<Rightarrow>
              (case decrease lvl of None \<Rightarrow> Inl UnwrapFailed
               | Some lvl' \<Rightarrow> new_page_from pa id_off virt phys attr level lvl' table' st1)))"
  by pat_completeness auto
termination
  by (relation "measure (\<lambda>(pa, id_off, virt, phys, attr, level, lvl, table, st). level_num lvl)") (auto dest: decrease_less)

definition new_page :: "'s page_alloc_ops \<Rightarrow> u64 \<Rightarrow> u64 \<Rightarrow> u64 \<Rightarrow> u64 \<Rightarrow> Level \<Rightarrow> u64 \<Rightarrow> 's pstate
    \<Rightarrow> ((page_error + unit) \<times> 's pstate) run" where
  "new_page pa root virt phys attr level id_off st = new_page_from pa id_off virt phys attr level P4 root st"

function modify_page_from :: "'s page_alloc_ops \<Rightarrow> u64 \<Rightarrow> u64 \<Rightarrow> u64 \<Rightarrow> Level \<Rightarrow> Level \<Rightarrow> u64 \<Rightarrow> 's pstate
    \<Rightarrow> ((page_error + unit) \<times> 's pstate) run" where
  "modify_page_from pa id_off virt attr level lvl table st =
     (let i = addr_idx lvl virt False; item = ps_mem st table i in
      if lvl = level then
        if is_leaf item level then
          Inr (Inr (), st\<lparr>ps_mem := set_entry (ps_mem st) table i
            (entry_new (fst (entry_get item level)) (leaf_attr level attr) level)\<rparr>)
        else Inr (Inl (EntryExistent False), st)
      else
        rbind (get_or_split_table pa id_off table i lvl st) (\<lambda>(r, st1).
          case r of Inl e \<Rightarrow> Inr (Inl e, st1)
          | Inr table' \<Rightarrow>
              (case decrease lvl of None \<Rightarrow> Inl UnwrapFailed
               | Some lvl' \<Rightarrow> modify_page_from pa id_off virt attr level lvl' table' st1)))"
  by pat_completeness auto
termination
  by (relation "measure (\<lambda>(pa, id_off, virt, attr, level, lvl, table, st). level_num lvl)") (auto dest: decrease_less)

definition modify_page :: "'s page_alloc_ops \<Rightarrow> u64 \<Rightarrow> u64 \<Rightarrow> u64 \<Rightarrow> Level \<Rightarrow> u64 \<Rightarrow> 's pstate
    \<Rightarrow> ((page_error + unit) \<times> 's pstate) run" where
  "modify_page pa root virt attr level id_off st = modify_page_from pa id_off virt attr level P4 root st"

function get_page_from :: "u64 \<Rightarrow> u64 \<Rightarrow> Level \<Rightarrow> u64 \<Rightarrow> table_mem \<Rightarrow> (page_error + u64 \<times> u64) run" where
  "get_page_from id_off virt lvl table mem =
     (let item = mem table (addr_idx lvl virt False) in
      if is_leaf item lvl then
        let offset = virt AND NOT (addr_mask lvl); (base, attr) = entry_get item lvl in
        Inr (Inr (base OR offset, attr))
      else
        rbind (get_table id_off item lvl) (\<lambda>o'.
          case o' of None \<Rightarrow> Inr (Inl (EntryExistent False))
          | Some table' \<Rightarrow>
              (case decrease lvl of None \<Rightarrow> Inr (Inl (EntryExistent False))
               | Some lvl' \<Rightarrow> get_page_from id_off virt lvl' table' mem)))"
  by pat_completeness auto
termination
  by (relation "measure (\<lambda>(id_off, virt, lvl, table, mem). level_num lvl)") (auto dest: decrease_less)

definition get_page :: "u64 \<Rightarrow> u64 \<Rightarrow> u64 \<Rightarrow> table_mem \<Rightarrow> (page_error + u64 \<times> u64) run" where
  "get_page root virt id_off mem = get_page_from id_off virt P4 root mem"

text \<open>
  \<open>ets\<close> holds the tables that have no other present entry, lowest level first:
  the array of the code is filled from the top level down and read from its
  first slot.
\<close>

function drop_page_from :: "'s page_alloc_ops \<Rightarrow> u64 \<Rightarrow> u64 \<Rightarrow> Level \<Rightarrow> Level \<Rightarrow> u64 \<Rightarrow> (u64 \<times> nat) option
    \<Rightarrow> ((u64 \<times> nat) \<times> Level) list \<Rightarrow> 's pstate \<Rightarrow> ((page_error + unit) \<times> 's pstate) run" where
  "drop_page_from pa id_off virt level lvl table parent ets st =
     (let i = addr_idx lvl virt False;
          ets' = (if is_empty (ps_mem st table) (Some i) lvl
                    then (case parent of None \<Rightarrow> ets | Some p \<Rightarrow> (p, lvl) # ets) else ets)
      in if lvl = level then
           if is_leaf (ps_mem st table i) level then
             rbind (destroy_tables pa id_off ets' (st\<lparr>ps_mem := set_entry (ps_mem st) table i 0\<rparr>))
               (\<lambda>st'. Inr (Inr (), st'))
           else Inr (Inl (EntryExistent False), st)
         else
           rbind (get_or_split_table pa id_off table i lvl st) (\<lambda>(r, st1).
             case r of Inl e \<Rightarrow> Inr (Inl e, st1)
             | Inr table' \<Rightarrow>
                 (case decrease lvl of None \<Rightarrow> Inl UnwrapFailed
                  | Some lvl' \<Rightarrow> drop_page_from pa id_off virt level lvl' table' (Some (table, i)) ets' st1)))"
  by pat_completeness auto
termination
  by (relation "measure (\<lambda>(pa, id_off, virt, level, lvl, table, parent, ets, st). level_num lvl)") (auto dest: decrease_less)

definition drop_page :: "'s page_alloc_ops \<Rightarrow> u64 \<Rightarrow> u64 \<Rightarrow> Level \<Rightarrow> u64 \<Rightarrow> 's pstate
    \<Rightarrow> ((page_error + unit) \<times> 's pstate) run" where
  "drop_page pa root virt level id_off st = drop_page_from pa id_off virt level P4 root None [] st"

declare new_page_from.simps [simp del] modify_page_from.simps [simp del] get_page_from.simps [simp del]
  drop_page_from.simps [simp del]

section \<open>Ranges\<close>

definition misaligned :: "u64 \<Rightarrow> u64 option" where
  "misaligned addr = (if addr AND PAGE_MASK = 0 then None else Some addr)"

definition page_check :: "u64 \<times> u64 \<Rightarrow> u64 option \<Rightarrow> page_error + unit" where
  "page_check virt phys =
     (let a = misaligned (fst virt); b = misaligned (snd virt); c = Option.bind phys misaligned in
      if \<not> (a = None \<and> b = None \<and> c = None) then Inl (AddrMisaligned a b c)
      else if snd virt \<le> fst virt then Inl RangeEmpty
      else Inr ())"

lemma page_aligned_iff: "v AND (page_size l - 1) = 0 \<longleftrightarrow> 2 ^ page_bits l dvd unat v"
proof -
  have "v AND (page_size l - 1) = take_bit (page_bits l) v"
    by (simp add: page_size_def push_bit_of_1 take_bit_eq_mask mask_eq_exp_minus_1)
  also have "\<dots> = 0 \<longleftrightarrow> take_bit (page_bits l) (unat v) = 0"
    by (metis unsigned_take_bit_eq unat_eq_zero)
  finally show ?thesis by (simp add: take_bit_eq_0_iff)
qed

lemma level_fit_dvd: "level_fit v = Some l \<Longrightarrow> 2 ^ page_bits l dvd unat v"
  by (auto simp: level_fit_def page_aligned_iff split: if_splits)

lemma page_bits_simps [simp]: "page_bits Pt = 12" "page_bits Pd = 21" "page_bits Pdp = 30" "page_bits P4 = 39"
  by (simp_all add: page_bits_def NR_ENTRIES_SHIFT_def)

lemma page_bits_mono: "level_num a \<le> level_num b \<Longrightarrow> page_bits a \<le> page_bits b"
  by (simp add: page_bits_def)

lemma page_bits_less: "page_bits l < 64"
  by (cases l) simp_all

lemma unat_page_size: "unat (page_size l) = 2 ^ page_bits l"
  by (cases l) (simp_all add: page_size_def)

lemma level_min_le: "level_num (level_min a b) \<le> level_num a" "level_num (level_min a b) \<le> level_num b"
  by (simp_all add: level_min_def)

lemma fit_all_dvd:
  assumes "fit_all (vs, ve) phys = Inr l"
  shows "vs \<le> ve" "2 ^ page_bits l dvd unat vs" "2 ^ page_bits l dvd unat ve" "2 ^ page_bits l dvd unat phys" "l \<noteq> P4"
proof -
  obtain a b c where *: "level_fit vs = Some a" "vs \<le> ve" "level_fit (ve - vs) = Some b" "level_fit phys = Some c"
    "l = level_min (level_min a b) c"
    using assms by (auto simp: fit_all_def sub_chk_def rbind_Inr_conv split: if_splits)
  have le: "page_bits l \<le> page_bits a" "page_bits l \<le> page_bits b" "page_bits l \<le> page_bits c"
    using *(5) level_min_le [of a b] level_min_le [of "level_min a b" c] by (auto intro!: page_bits_mono)
  have dvd: "2 ^ page_bits l dvd unat vs" "2 ^ page_bits l dvd unat (ve - vs)" "2 ^ page_bits l dvd unat phys"
    by (rule power_le_dvd [OF level_fit_dvd [OF *(1)] le(1)], rule power_le_dvd [OF level_fit_dvd [OF *(3)] le(2)],
        rule power_le_dvd [OF level_fit_dvd [OF *(4)] le(3)])
  show "vs \<le> ve" "2 ^ page_bits l dvd unat vs" "2 ^ page_bits l dvd unat phys" using * dvd by auto
  show "2 ^ page_bits l dvd unat ve"
    using dvd(1,2) *(2) by (metis dvd_add le_add_diff_inverse unat_sub word_le_nat_alt)
  show "l \<noteq> P4" using * by (auto simp: level_fit_def level_min_def split: if_splits)
qed

lemma fit_all_step:
  assumes "fit_all (vs, ve) phys = Inr l" "vs < ve"
  shows "unat (vs + page_size l) = unat vs + 2 ^ page_bits l" "unat vs + 2 ^ page_bits l \<le> unat ve"
proof -
  have "unat vs < unat ve" using assms(2) by (simp add: word_less_nat_alt)
  moreover have "2 ^ page_bits l dvd unat ve - unat vs" using fit_all_dvd [OF assms(1)] by (simp add: dvd_diff_nat)
  ultimately have "2 ^ page_bits l \<le> unat ve - unat vs" by (intro dvd_imp_le) auto
  with \<open>unat vs < unat ve\<close> have le: "unat vs + 2 ^ page_bits l \<le> unat ve" by linarith
  have "unat ve < 2 ^ LENGTH(64)" by (rule unat_lt_pow)
  with le have "unat vs + unat (page_size l) < 2 ^ 64" by (simp add: unat_page_size)
  then show "unat (vs + page_size l) = unat vs + 2 ^ page_bits l" "unat vs + 2 ^ page_bits l \<le> unat ve"
    using le by (simp_all add: unat_word_ariths unat_page_size)
qed

definition phys_or_zero :: "page_error + u64 \<times> u64 \<Rightarrow> u64" where
  "phys_or_zero q = (case q of Inl _ \<Rightarrow> 0 | Inr (phys, _) \<Rightarrow> phys)"

function unmaps_loop :: "'s page_alloc_ops \<Rightarrow> u64 \<Rightarrow> u64 \<Rightarrow> u64 \<Rightarrow> u64 \<Rightarrow> 's pstate \<Rightarrow> 's pstate run" where
  "unmaps_loop pa root id_off vs ve st =
     (if vs < ve then
        rbind (get_page root vs id_off (ps_mem st)) (\<lambda>q.
        rbind (fit_all (vs, ve) (phys_or_zero q)) (\<lambda>level.
        rbind (drop_page pa root vs level id_off st) (\<lambda>(_, st').
          unmaps_loop pa root id_off (vs + page_size level) ve st')))
      else Inr st)"
  by pat_completeness auto
termination
  by (relation "measure (\<lambda>(pa, root, id_off, vs, ve, st). unat ve - unat vs)")
    (auto simp: fit_all_step intro!: diff_less_mono2 dest: fit_all_step(2) word_less_nat_alt [THEN iffD1])

definition unmaps :: "'s page_alloc_ops \<Rightarrow> u64 \<Rightarrow> u64 \<times> u64 \<Rightarrow> u64 \<Rightarrow> 's pstate \<Rightarrow> ((page_error + unit) \<times> 's pstate) run" where
  "unmaps pa root virt id_off st =
     (case page_check virt None of Inl e \<Rightarrow> Inr (Inl e, st)
      | Inr _ \<Rightarrow> rbind (unmaps_loop pa root id_off (fst virt) (snd virt) st) (\<lambda>st'. Inr (Inr (), st')))"

function maps_loop :: "'s page_alloc_ops \<Rightarrow> u64 \<Rightarrow> u64 \<Rightarrow> u64 \<Rightarrow> u64 \<Rightarrow> u64 \<Rightarrow> u64 \<Rightarrow> 's pstate
    \<Rightarrow> ((page_error + unit) \<times> u64 \<times> 's pstate) run" where
  "maps_loop pa root attr id_off vs ve phys st =
     (if vs < ve then
        rbind (fit_all (vs, ve) phys) (\<lambda>level.
        rbind (new_page pa root vs phys attr level id_off st) (\<lambda>(ret, st').
          case ret of Inl e \<Rightarrow> Inr (Inl e, vs, st')
          | Inr _ \<Rightarrow>
              rbind (add_chk phys (page_size level)) (\<lambda>phys'.
                maps_loop pa root attr id_off (vs + page_size level) ve phys' st')))
      else Inr (Inr (), vs, st))"
  by pat_completeness auto
termination
  by (relation "measure (\<lambda>(pa, root, attr, id_off, vs, ve, phys, st). unat ve - unat vs)")
    (auto simp: fit_all_step intro!: diff_less_mono2 dest: fit_all_step(2) word_less_nat_alt [THEN iffD1])

record MapInfo =
  mi_virt :: "u64 \<times> u64"
  mi_phys :: u64
  mi_attr :: u64
  mi_id_off :: u64

definition maps :: "'s page_alloc_ops \<Rightarrow> u64 \<Rightarrow> MapInfo \<Rightarrow> 's pstate \<Rightarrow> ((page_error + unit) \<times> 's pstate) run" where
  "maps pa root info st =
     (case page_check (mi_virt info) (Some (mi_phys info)) of Inl e \<Rightarrow> Inr (Inl e, st)
      | Inr _ \<Rightarrow>
          rbind (maps_loop pa root (mi_attr info) (mi_id_off info) (fst (mi_virt info)) (snd (mi_virt info)) (mi_phys info) st)
            (\<lambda>(ret, rem, st').
              case ret of Inr _ \<Rightarrow> Inr (ret, st')
              | Inl _ \<Rightarrow>
                  if fst (mi_virt info) < rem then
                    rbind (unmaps pa root (fst (mi_virt info), rem) (mi_id_off info) st') (\<lambda>(_, st''). Inr (ret, st''))
                  else Inr (ret, st')))"

function reprotect_loop :: "'s page_alloc_ops \<Rightarrow> u64 \<Rightarrow> u64 \<Rightarrow> u64 \<Rightarrow> u64 \<Rightarrow> u64 \<Rightarrow> 's pstate \<Rightarrow> 's pstate run" where
  "reprotect_loop pa root attr id_off vs ve st =
     (if vs < ve then
        rbind (get_page root vs id_off (ps_mem st)) (\<lambda>q.
        rbind (fit_all (vs, ve) (phys_or_zero q)) (\<lambda>level.
        rbind (modify_page pa root vs attr level id_off st) (\<lambda>(ret, st').
          if ret = Inr () \<or> ret = Inl (EntryExistent False)
          then reprotect_loop pa root attr id_off (vs + page_size level) ve st'
          else Inl AssertFailed)))
      else Inr st)"
  by pat_completeness auto
termination
  by (relation "measure (\<lambda>(pa, root, attr, id_off, vs, ve, st). unat ve - unat vs)")
    (auto simp: fit_all_step intro!: diff_less_mono2 dest: fit_all_step(2) word_less_nat_alt [THEN iffD1])

definition reprotect :: "'s page_alloc_ops \<Rightarrow> u64 \<Rightarrow> u64 \<times> u64 \<Rightarrow> u64 \<Rightarrow> u64 \<Rightarrow> 's pstate \<Rightarrow> ((page_error + unit) \<times> 's pstate) run" where
  "reprotect pa root virt attr id_off st =
     (case page_check virt None of Inl e \<Rightarrow> Inr (Inl e, st)
      | Inr _ \<Rightarrow> rbind (reprotect_loop pa root attr id_off (fst virt) (snd virt) st) (\<lambda>st'. Inr (Inr (), st')))"

declare unmaps_loop.simps [simp del] maps_loop.simps [simp del] reprotect_loop.simps [simp del]

end
