(* ===== verification/Paging_Walk.thy ===== *)
theory Paging_Walk
  imports Paging
begin

unbundle bit_operations_syntax

text \<open>
  The page tables seen as a tree: the table a walk reaches at each depth, the
  invariant that no two walks share a table, the interface of the page allocator,
  and the functional correctness of the single-page operations.
\<close>

section \<open>Paths through the tables\<close>

definition lev :: "nat \<Rightarrow> Level" where
  "lev d = (if d = 0 then P4 else if d = 1 then Pdp else if d = 2 then Pd else Pt)"

definition prefix :: "nat \<Rightarrow> u64 \<Rightarrow> nat" where
  "prefix d v = unat v mod 2 ^ 48 div 2 ^ (48 - 9 * d)"

definition idx :: "nat \<Rightarrow> u64 \<Rightarrow> nat" where
  "idx d v = prefix (Suc d) v mod 512"

definition sub_table :: "u64 \<Rightarrow> u64 \<Rightarrow> nat \<Rightarrow> u64 option" where
  "sub_table off e d = (case get_table off e (lev d) of Inr r \<Rightarrow> r | Inl _ \<Rightarrow> None)"

primrec wt :: "u64 \<Rightarrow> u64 \<Rightarrow> table_mem \<Rightarrow> u64 \<Rightarrow> nat \<Rightarrow> u64 option" where
  "wt off root mem v 0 = Some root"
| "wt off root mem v (Suc d) = Option.bind (wt off root mem v d) (\<lambda>t. sub_table off (mem t (idx d v)) d)"

definition leaf_at :: "u64 \<Rightarrow> u64 \<Rightarrow> table_mem \<Rightarrow> u64 \<Rightarrow> nat \<Rightarrow> u64 option" where
  "leaf_at off root mem v d =
     Option.bind (wt off root mem v d) (\<lambda>t. if is_leaf (mem t (idx d v)) (lev d) then Some (mem t (idx d v)) else None)"

lemma lev_simps [simp]: "lev 0 = P4" "lev (Suc 0) = Pdp" "lev 1 = Pdp" "lev 2 = Pd" "lev 3 = Pt"
  "lev (Suc (Suc 0)) = Pd" "lev (Suc (Suc (Suc 0))) = Pt"
  by (simp_all add: lev_def)

lemma page_bits_lev: "d \<le> 3 \<Longrightarrow> page_bits (lev d) = 39 - 9 * d"
  by (cases "d = 0"; cases "d = 1"; cases "d = 2"; cases "d = 3") auto

lemma decrease_lev: "d < 3 \<Longrightarrow> decrease (lev d) = Some (lev (Suc d))"
  by (cases "d = 0"; cases "d = 1"; cases "d = 2") (auto simp: numeral_3_eq_3 numeral_2_eq_2 lev_def)

lemma lev_inj: "d \<le> 3 \<Longrightarrow> d' \<le> 3 \<Longrightarrow> lev d = lev d' \<longleftrightarrow> d = d'"
  by (auto simp: lev_def split: if_splits)

lemma lev_Pt: "d \<le> 3 \<Longrightarrow> lev d = Pt \<longleftrightarrow> d = 3"
  by (auto simp: lev_def split: if_splits)

lemma prefix_div: "d < 5 \<Longrightarrow> prefix (Suc d) v div 512 = prefix d v"
proof -
  assume "d < 5"
  then have "48 - 9 * d = (48 - 9 * Suc d) + 9" by simp
  then have "(2::nat) ^ (48 - 9 * d) = 2 ^ (48 - 9 * Suc d) * 512" by (simp only: power_add) simp
  then show ?thesis by (simp add: prefix_def div_mult2_eq)
qed

lemma prefix_Suc_eq: "d < 5 \<Longrightarrow> prefix (Suc d) v = prefix (Suc d) w \<longleftrightarrow> prefix d v = prefix d w \<and> idx d v = idx d w"
  by (metis div_mult_mod_eq idx_def prefix_div)

lemma prefix_mono: "prefix d v = prefix d w \<Longrightarrow> k \<le> d \<Longrightarrow> d \<le> 5 \<Longrightarrow> prefix k v = prefix k w"
proof (induction d)
  case (Suc d)
  then show ?case using prefix_Suc_eq [of d v w] by (cases "k = Suc d") auto
qed simp

lemma addr_idx_eq:
  assumes "d \<le> 3"
  shows "addr_idx (lev d) v False = idx d v"
proof -
  have m: "addr_mask l = mask 48 AND NOT (mask (page_bits l))" for l
    by (cases l) (simp_all add: mask_eq_exp_minus_1)
  have "drop_bit n (v AND (mask 48 AND NOT (mask n))) AND 511 = take_bit 9 (drop_bit n (take_bit 48 v))" for n
  proof -
    have m9: "(511 :: u64) = mask 9" by (simp add: mask_eq_exp_minus_1)
    show ?thesis unfolding m9
      by (intro bit_word_eqI) (auto simp: bit_and_iff bit_drop_bit_eq bit_take_bit_iff bit_mask_iff bit_not_iff)
  qed
  then have "addr_idx (lev d) v False = unat (take_bit 9 (drop_bit (page_bits (lev d)) (take_bit 48 v)))"
    by (simp add: addr_idx_def m)
  also have "\<dots> = take_bit 9 (drop_bit (page_bits (lev d)) (take_bit 48 (unat v)))"
    by (simp only: unsigned_take_bit_eq unsigned_drop_bit_eq) simp
  also have "\<dots> = unat v mod 2 ^ 48 div 2 ^ page_bits (lev d) mod 2 ^ 9"
    by (simp only: take_bit_eq_mod drop_bit_eq_div)
  also have "\<dots> = idx d v"
    using assms by (simp add: idx_def prefix_def page_bits_lev)
  finally show ?thesis .
qed

lemma wt_cong: "prefix d v = prefix d w \<Longrightarrow> d \<le> 5 \<Longrightarrow> wt off root mem v d = wt off root mem w d"
proof (induction d)
  case (Suc d)
  then show ?case by (simp add: prefix_Suc_eq)
qed simp

lemma leaf_at_cong: "prefix (Suc d) v = prefix (Suc d) w \<Longrightarrow> d < 5 \<Longrightarrow> leaf_at off root mem v d = leaf_at off root mem w d"
  using wt_cong [of d v w] by (simp add: leaf_at_def prefix_Suc_eq cong: if_cong)

section \<open>Well-formed table trees\<close>

text \<open>
  No table is reached along two paths, every reached table is an allocated page,
  and no table address overflows.
\<close>

definition tree_ok :: "u64 \<Rightarrow> u64 \<Rightarrow> table_mem \<Rightarrow> u64 set \<Rightarrow> bool" where
  "tree_ok off root mem pages \<longleftrightarrow>
     (\<forall>v d w d' t. d \<le> 3 \<longrightarrow> d' \<le> 3 \<longrightarrow> wt off root mem v d = Some t \<longrightarrow> wt off root mem w d' = Some t \<longrightarrow>
        d = d' \<and> prefix d v = prefix d w) \<and>
     (\<forall>v d t. d \<le> 3 \<longrightarrow> wt off root mem v d = Some t \<longrightarrow>
        t - off \<in> pages \<and> (\<exists>r. get_table off (mem t (idx d v)) (lev d) = Inr r))"

lemma tree_okD:
  assumes "tree_ok off root mem pages" "d \<le> 3" "wt off root mem v d = Some t"
  shows "d' \<le> 3 \<Longrightarrow> wt off root mem w d' = Some t \<Longrightarrow> d = d' \<and> prefix d v = prefix d w"
    and "t - off \<in> pages" and "\<exists>r. get_table off (mem t (idx d v)) (lev d) = Inr r"
  using assms unfolding tree_ok_def by blast+

lemma set_entry_same [simp]: "set_entry mem t i e t i = e"
  by (simp add: set_entry_def)

lemma set_entry_other: "u \<noteq> t \<or> j \<noteq> i \<Longrightarrow> set_entry mem t i e u j = mem u j"
  by (auto simp: set_entry_def)

text \<open>Changing one entry affects only the addresses under it, and only below its level.\<close>

lemma read_other:
  assumes ok: "tree_ok off root mem pages" and t: "d \<le> 3" "wt off root mem v d = Some t"
    and u: "k \<le> 3" "wt off root mem w k = Some u" and far: "k \<noteq> d \<or> prefix (Suc d) w \<noteq> prefix (Suc d) v"
  shows "set_entry mem t (idx d v) e u (idx k w) = mem u (idx k w)"
proof (rule set_entry_other)
  show "u \<noteq> t \<or> idx k w \<noteq> idx d v"
  proof (rule ccontr)
    assume "\<not> ?thesis"
    then have "u = t" "idx k w = idx d v" by auto
    with tree_okD(1) [OF ok t u(1)] u(2) have "d = k" "prefix d v = prefix d w" by auto
    with \<open>idx k w = idx d v\<close> far t(1) show False using prefix_Suc_eq [of d w v] by auto
  qed
qed

lemma wt_set_other:
  assumes ok: "tree_ok off root mem pages" and t: "d \<le> 3" "wt off root mem v d = Some t"
  shows "k \<le> 3 \<Longrightarrow> k \<le> d \<or> prefix (Suc d) w \<noteq> prefix (Suc d) v \<Longrightarrow>
    wt off root (set_entry mem t (idx d v) e) w k = wt off root mem w k"
proof (induction k)
  case (Suc k)
  have IH: "wt off root (set_entry mem t (idx d v) e) w k = wt off root mem w k" using Suc by auto
  show ?case
  proof (cases "wt off root mem w k")
    case (Some u)
    have "set_entry mem t (idx d v) e u (idx k w) = mem u (idx k w)"
      using Suc.prems by (intro read_other [OF ok t _ Some]) auto
    then show ?thesis by (simp add: IH Some)
  qed (simp add: IH)
qed simp

lemma leaf_set_other:
  assumes ok: "tree_ok off root mem pages" and t: "d \<le> 3" "wt off root mem v d = Some t"
    and k: "k \<le> 3" "k < d \<or> prefix (Suc d) w \<noteq> prefix (Suc d) v"
  shows "leaf_at off root (set_entry mem t (idx d v) e) w k = leaf_at off root mem w k"
proof (cases "wt off root mem w k")
  case (Some u)
  have "set_entry mem t (idx d v) e u (idx k w) = mem u (idx k w)"
    using k by (intro read_other [OF ok t _ Some]) auto
  moreover have "wt off root (set_entry mem t (idx d v) e) w k = wt off root mem w k"
    using k by (intro wt_set_other [OF ok t]) auto
  ultimately show ?thesis by (simp add: leaf_at_def Some)
next
  case None
  moreover have "wt off root (set_entry mem t (idx d v) e) w k = wt off root mem w k"
    using k by (intro wt_set_other [OF ok t]) auto
  ultimately show ?thesis by (simp add: leaf_at_def)
qed

section \<open>Entries by their bits\<close>

lemma and_exp_eq: "x AND 2 ^ k = 2 ^ k \<longleftrightarrow> bit (x :: u64) k" if "k < 64"
proof
  assume "x AND 2 ^ k = 2 ^ k"
  then have "bit (x AND 2 ^ k) k = bit (2 ^ k :: u64) k" by simp
  then show "bit x k" using that by (simp add: bit_and_iff bit_exp_iff)
next
  assume "bit x k"
  then show "x AND 2 ^ k = 2 ^ k" by (intro bit_word_eqI) (auto simp: bit_and_iff bit_exp_iff)
qed

lemma contains_PRESENT: "contains x PRESENT \<longleftrightarrow> bit x 0"
  using and_exp_eq [of 0 x] by (simp add: contains_def PRESENT_def)

lemma contains_LARGE_PAGE: "contains x LARGE_PAGE \<longleftrightarrow> bit x 7"
  using and_exp_eq [of 7 x] by (simp add: contains_def LARGE_PAGE_def)

lemma contains_or: "contains x (a OR b) \<longleftrightarrow> contains x a \<and> contains x b"
  by (auto simp: contains_def bit_eq_iff bit_and_iff bit_or_iff)

lemma bit_ATTR_ALL: "bit (e AND ATTR_ALL) 0 \<longleftrightarrow> bit e 0" "bit (e AND ATTR_ALL) 7 \<longleftrightarrow> bit e 7"
  by (simp_all add: bit_and_iff ATTR_ALL_def)

lemma leaf_attr_0: "leaf_attr l 0 = (if l = Pt then PRESENT else PRESENT OR LARGE_PAGE)"
  by (simp add: leaf_attr_def contains_def PAT_def LARGE_PAGE_def)

lemma is_leaf_iff: "is_leaf e l \<longleftrightarrow> bit e 0 \<and> (l = Pt \<or> bit e 7)"
  by (simp add: is_leaf_def entry_get_def leaf_attr_0 contains_or contains_PRESENT contains_LARGE_PAGE bit_ATTR_ALL)

lemma get_table_eq:
  "get_table off e l = (if bit e 0 \<and> l \<noteq> Pt \<and> \<not> bit e 7
     then rbind (add_chk (e AND addr_mask Pt) off) (\<lambda>p. Inr (if p = 0 then None else Some p)) else Inr None)"
  by (simp add: get_table_def entry_get_def has_table_def contains_PRESENT contains_LARGE_PAGE bit_ATTR_ALL)

lemma bit_leaf_attr: "bit (leaf_attr l attr) 0" "l \<noteq> Pt \<Longrightarrow> bit (leaf_attr l attr) 7"
  by (simp_all add: leaf_attr_def Let_def bit_or_iff PRESENT_def LARGE_PAGE_def)

lemma is_leaf_new: "is_leaf (entry_new phys (leaf_attr l attr) l') l"
  using bit_leaf_attr [where l = l] by (auto simp: is_leaf_iff entry_new_def bit_or_iff)

lemma get_table_leaf: "is_leaf e l \<Longrightarrow> get_table off e l = Inr None"
  by (auto simp: is_leaf_iff get_table_eq)

lemma get_table_zero [simp]: "get_table off 0 l = Inr None" "\<not> is_leaf 0 l"
  by (simp_all add: get_table_eq is_leaf_iff)

lemma intermediate_entry:
  assumes "phys AND addr_mask Pt = phys" "unat phys + unat off < 2 ^ 64" "phys + off \<noteq> 0" "l \<noteq> Pt"
  shows "get_table off (entry_new phys INTERMEDIATE Pt) l = Inr (Some (phys + off))"
    "\<not> is_leaf (entry_new phys INTERMEDIATE Pt) l"
proof -
  let ?e = "entry_new phys INTERMEDIATE Pt"
  have i: "INTERMEDIATE = 7" by (simp add: INTERMEDIATE_def PRESENT_def WRITABLE_def USER_ACCESS_def)
  have m: "(0xFFFFFFFFF000 :: u64) = mask 48 AND NOT (mask 12)" by (simp add: mask_eq_exp_minus_1)
  have e: "?e AND addr_mask Pt = phys"
  proof -
    have "(7 :: u64) AND 0xFFFFFFFFF000 = 0" by simp
    then show ?thesis
      using assms(1) by (simp add: entry_new_def i bit.conj_disj_distrib2 and.assoc)
  qed
  have p: "\<not> bit phys 7" "\<not> bit phys 0"
    using arg_cong [OF assms(1), of "\<lambda>x. bit x 7"] arg_cong [OF assms(1), of "\<lambda>x. bit x 0"]
    by (auto simp: bit_and_iff)
  then have b: "bit ?e 0" "\<not> bit ?e 7"
    using assms(1) by (simp_all add: entry_new_def i bit_or_iff bit_and_iff)
  show "\<not> is_leaf ?e l" using b assms(4) by (simp add: is_leaf_iff)
  show "get_table off ?e l = Inr (Some (phys + off))"
    unfolding get_table_eq e using b assms(2-) by (simp add: add_chk_def)
qed

section \<open>Sub-tables along a path\<close>

lemma sub_table_Inr: "get_table off e (lev d) = Inr r \<Longrightarrow> sub_table off e d = r"
  by (simp add: sub_table_def)

lemma sub_table_leaf: "is_leaf e (lev d) \<Longrightarrow> sub_table off e d = None"
  by (simp add: sub_table_def get_table_leaf)

lemma wt_Suc_Some: "wt off root mem v d = Some t \<Longrightarrow> wt off root mem v (Suc d) = sub_table off (mem t (idx d v)) d"
  by simp

lemma wt_None_mono: "wt off root mem v d = None \<Longrightarrow> d \<le> k \<Longrightarrow> wt off root mem v k = None"
  by (induction k) (auto simp: le_Suc_eq)

lemma leaf_excl:
  assumes "leaf_at off root mem v d = Some e" "d < k"
  shows "wt off root mem v k = None" "leaf_at off root mem v k = None"
proof -
  have "wt off root mem v (Suc d) = None"
    using assms(1) by (auto simp: leaf_at_def bind_eq_Some_conv sub_table_leaf split: if_splits)
  then show w: "wt off root mem v k = None" by (rule wt_None_mono) (use assms(2) in simp)
  then show "leaf_at off root mem v k = None" by (simp add: leaf_at_def)
qed

text \<open>Writing a leaf: the tree stays well-formed and only the addresses under the entry change.\<close>

lemma tree_ok_set:
  assumes ok: "tree_ok off root mem pages" and t: "d \<le> 3" "wt off root mem v d = Some t"
    and e: "get_table off e (lev d) = Inr None"
  shows "tree_ok off root (set_entry mem t (idx d v) e) pages"
    and "prefix (Suc d) w = prefix (Suc d) v \<Longrightarrow> d < k \<Longrightarrow> wt off root (set_entry mem t (idx d v) e) w k = None"
proof -
  let ?m = "set_entry mem t (idx d v) e"
  have same: "wt off root ?m w k = None" if "prefix (Suc d) w = prefix (Suc d) v" "d < k" for w k
  proof -
    have "wt off root ?m w d = Some t"
      using wt_set_other [OF ok t, of d w e] t wt_cong [of d w v] prefix_mono [OF that(1), of d] by simp
    then have "wt off root ?m w (Suc d) = None"
      using that(1) t(1) prefix_Suc_eq [of d w v] by (simp add: sub_table_Inr [OF e])
    then show ?thesis by (rule wt_None_mono) (use that(2) in simp)
  qed
  have sub: "wt off root mem w k = Some u" if "wt off root ?m w k = Some u" "k \<le> 3" for w k u
  proof (cases "k \<le> d \<or> prefix (Suc d) w \<noteq> prefix (Suc d) v")
    case True
    then show ?thesis using wt_set_other [OF ok t that(2), of w e] that(1) by simp
  next
    case False
    then show ?thesis using same [of w k] that by simp
  qed
  have "\<exists>r. get_table off (?m u (idx k w)) (lev k) = Inr r" if "k \<le> 3" "wt off root ?m w k = Some u" for w k u
  proof (cases "k = d \<and> prefix (Suc d) w = prefix (Suc d) v")
    case True
    then have "u = t" "idx k w = idx d v"
      using sub [OF that(2,1)] t wt_cong [of d w v] prefix_Suc_eq [of d w v] by auto
    then show ?thesis using e True by simp
  next
    case False
    then have "?m u (idx k w) = mem u (idx k w)" using read_other [OF ok t that(1) sub [OF that(2,1)]] by auto
    then show ?thesis using tree_okD(3) [OF ok that(1) sub [OF that(2,1)]] by simp
  qed
  then show "tree_ok off root ?m pages"
    using tree_okD(1,2) [OF ok] sub unfolding tree_ok_def by metis
  show "prefix (Suc d) w = prefix (Suc d) v \<Longrightarrow> d < k \<Longrightarrow> wt off root ?m w k = None" by (rule same)
qed

text \<open>Clearing a page that is not a table of the tree changes nothing that is read.\<close>

lemma wt_fresh:
  assumes ok: "tree_ok off root mem pages" and f: "t' - off \<notin> pages"
  shows "k \<le> 3 \<Longrightarrow> wt off root (mem(t' := f)) w k = wt off root mem w k"
proof (induction k)
  case (Suc k)
  show ?case
  proof (cases "wt off root mem w k")
    case (Some u)
    then have "u \<noteq> t'" using tree_okD(2) [OF ok _ Some] f Suc.prems by auto
    then show ?thesis using Suc Some by simp
  qed (use Suc in simp)
qed simp

lemma tree_ok_fresh:
  assumes ok: "tree_ok off root mem pages" and f: "t' - off \<notin> pages"
  shows "tree_ok off root (mem(t' := g)) (insert p pages)"
    and "k \<le> 3 \<Longrightarrow> leaf_at off root (mem(t' := g)) w k = leaf_at off root mem w k"
proof -
  have ne: "u \<noteq> t'" if "k \<le> 3" "wt off root mem w k = Some u" for w k u
    using tree_okD(2) [OF ok that] f by auto
  show "tree_ok off root (mem(t' := g)) (insert p pages)"
    unfolding tree_ok_def using tree_okD [OF ok] ne by (auto simp: wt_fresh [OF ok f])
  show "k \<le> 3 \<Longrightarrow> leaf_at off root (mem(t' := g)) w k = leaf_at off root mem w k"
    using ne by (cases "wt off root mem w k") (auto simp: leaf_at_def wt_fresh [OF ok f])
qed

text \<open>Linking an empty table under an entry that was neither a table nor a leaf.\<close>

lemma tree_ok_link:
  assumes ok: "tree_ok off root mem pages" and t: "d < 3" "wt off root mem v d = Some t"
    and item: "get_table off (mem t (idx d v)) (lev d) = Inr None" "\<not> is_leaf (mem t (idx d v)) (lev d)"
    and f: "t' - off \<notin> pages"
    and e: "get_table off e (lev d) = Inr (Some t')" "\<not> is_leaf e (lev d)"
  defines "mem' \<equiv> set_entry (mem(t' := (\<lambda>_. 0))) t (idx d v) e"
  shows "tree_ok off root mem' (insert (t' - off) pages)" "wt off root mem' v (Suc d) = Some t'"
    "k \<le> 3 \<Longrightarrow> leaf_at off root mem' w k = leaf_at off root mem w k"
proof -
  let ?m1 = "mem(t' := (\<lambda>_. 0))"
  have ok1: "tree_ok off root ?m1 (insert (t' - off) pages)" by (rule tree_ok_fresh(1) [OF ok f])
  have d: "d \<le> 3" using t(1) by simp
  have t1: "wt off root ?m1 v d = Some t" using wt_fresh [OF ok f d] t(2) by simp
  have tt: "t \<noteq> t'" using tree_okD(2) [OF ok d t(2)] f by auto
  have far: "wt off root mem' w k = wt off root mem w k" if "k \<le> 3" "k \<le> d \<or> prefix (Suc d) w \<noteq> prefix (Suc d) v" for w k
    unfolding mem'_def using wt_set_other [OF ok1 d t1 that] wt_fresh [OF ok f that(1)] by simp
  have old: "wt off root mem w k = None" if "prefix (Suc d) w = prefix (Suc d) v" "d < k" for w k
  proof -
    have "prefix d w = prefix d v" "idx d w = idx d v" using that(1) d prefix_Suc_eq [of d w v] by auto
    then have "wt off root mem w (Suc d) = None"
      using t wt_cong [of d w v] by (simp add: sub_table_Inr [OF item(1)])
    then show ?thesis by (rule wt_None_mono) (use that(2) in simp)
  qed
  have near: "wt off root mem' w (Suc d) = Some t'" if "prefix (Suc d) w = prefix (Suc d) v" for w
  proof -
    have p: "prefix d w = prefix d v" "idx d w = idx d v" using that d prefix_Suc_eq [of d w v] by auto
    have "wt off root mem' w d = Some t" using far [of d w] d t(2) wt_cong [OF p(1)] by simp
    then show ?thesis using p(2) by (simp add: mem'_def sub_table_Inr [OF e(1)])
  qed
  have below: "wt off root mem' w k = None" if "prefix (Suc d) w = prefix (Suc d) v" "Suc d < k" for w k
  proof -
    have "wt off root mem' w (Suc (Suc d)) = sub_table off (mem' t' (idx (Suc d) w)) (Suc d)"
      using near [OF that(1)] by (rule wt_Suc_Some)
    also have "\<dots> = None" using tt by (simp add: mem'_def set_entry_other sub_table_def)
    finally show ?thesis by (rule wt_None_mono) (use that(2) in simp)
  qed
  show "wt off root mem' v (Suc d) = Some t'" by (rule near) simp
  have cases: "wt off root mem w k = Some u \<and> (k \<le> d \<or> prefix (Suc d) w \<noteq> prefix (Suc d) v)
      \<or> u = t' \<and> k = Suc d \<and> prefix (Suc d) w = prefix (Suc d) v"
    if "k \<le> 3" "wt off root mem' w k = Some u" for w k u
    using far [OF that(1), of w] near [of w] below [of w k] that by (cases "k \<le> d"; cases "k = Suc d") (auto; fastforce)+
  have reach: "u \<noteq> t'" if "k \<le> 3" "wt off root mem w k = Some u" for w k u
    using tree_okD(2) [OF ok that] f by auto
  have inj: "k = k' \<and> prefix k w = prefix k w'"
    if "k \<le> 3" "k' \<le> 3" "wt off root mem' w k = Some u" "wt off root mem' w' k' = Some u" for w k w' k' u
    using cases [OF that(1,3)] cases [OF that(2,4)] tree_okD(1) [OF ok that(1) _ that(2)] reach [OF that(1)] reach [OF that(2)]
    by metis
  have tab: "\<exists>r. get_table off (mem' u (idx k w)) (lev k) = Inr r" if "k \<le> 3" "wt off root mem' w k = Some u" for w k u
  proof (cases "u = t'")
    case True
    then show ?thesis using tt by (simp add: mem'_def set_entry_other)
  next
    case new: False
    then have u: "wt off root mem w k = Some u" using cases [OF that] by auto
    show ?thesis
    proof (cases "k = d \<and> prefix (Suc d) w = prefix (Suc d) v")
      case True
      then have "u = t" "idx k w = idx d v" using u t wt_cong [of d w v] prefix_Suc_eq [of d w v] by auto
      then show ?thesis using e(1) True by (simp add: mem'_def)
    next
      case False
      have "wt off root ?m1 w k = Some u" using wt_fresh [OF ok f that(1)] u by simp
      then have "mem' u (idx k w) = ?m1 u (idx k w)"
        unfolding mem'_def using False by (intro read_other [OF ok1 d t1 that(1)]) auto
      then show ?thesis using reach [OF that(1) u] tree_okD(3) [OF ok that(1) u] by simp
    qed
  qed
  show "tree_ok off root mem' (insert (t' - off) pages)"
    unfolding tree_ok_def using inj tab cases tree_okD(2) [OF ok] by (metis insert_iff)
  show "leaf_at off root mem' w k = leaf_at off root mem w k" if k: "k \<le> 3"
  proof (cases "k < d \<or> prefix (Suc d) w \<noteq> prefix (Suc d) v")
    case True
    then show ?thesis
      unfolding mem'_def using leaf_set_other [OF ok1 d t1 k, of w e] tree_ok_fresh(2) [OF ok f k, of "\<lambda>_. 0" w] by simp
  next
    case False
    then have same: "prefix (Suc d) w = prefix (Suc d) v" and "d \<le> k" by auto
    then consider "k = d" | "k = Suc d" | "Suc d < k" by linarith
    then show ?thesis
    proof cases
      case 1
      have "prefix d w = prefix d v" "idx d w = idx d v" using same d prefix_Suc_eq [of d w v] by auto
      then show ?thesis using far [of d w] t wt_cong [of d w v] d item(2) e(2) 1 by (simp add: leaf_at_def mem'_def)
    next
      case 2
      then show ?thesis using near [OF same] old [OF same, of k] tt by (simp add: leaf_at_def mem'_def set_entry_other)
    next
      case 3
      then show ?thesis using below [OF same] old [OF same, of k] by (simp add: leaf_at_def)
    qed
  qed
qed

section \<open>The page allocator interface\<close>

text \<open>
  What the walks rely on: a page handed out is page-aligned, below the 48-bit
  physical limit, not handed out already, and its linear address neither
  overflows nor is null; giving a page back makes it available again.
\<close>

locale page_alloc =
  fixes pa :: "'s page_alloc_ops" and owned :: "'s \<Rightarrow> u64 set" and off :: u64
  assumes alloc_some: "pa_allocate pa s = (Some p, s') \<Longrightarrow>
      p \<notin> owned s \<and> owned s' = insert p (owned s) \<and> p AND addr_mask Pt = p \<and> unat p + unat off < 2 ^ 64 \<and> p + off \<noteq> 0"
    and alloc_none: "pa_allocate pa s = (None, s') \<Longrightarrow> owned s' = owned s"
    and dealloc: "owned (pa_deallocate pa p s) = owned s - {p}"

definition pt_inv :: "u64 \<Rightarrow> ('s \<Rightarrow> u64 set) \<Rightarrow> u64 \<Rightarrow> 's pstate \<Rightarrow> bool" where
  "pt_inv off owned root st \<longleftrightarrow> tree_ok off root (ps_mem st) (owned (ps_alloc st))"

definition same_leaves :: "u64 \<Rightarrow> u64 \<Rightarrow> table_mem \<Rightarrow> table_mem \<Rightarrow> bool" where
  "same_leaves off root mem mem' \<longleftrightarrow> (\<forall>w k. k \<le> 3 \<longrightarrow> leaf_at off root mem' w k = leaf_at off root mem w k)"

lemma same_leaves_refl [simp]: "same_leaves off root mem mem"
  by (simp add: same_leaves_def)

lemma same_leavesD: "same_leaves off root mem mem' \<Longrightarrow> k \<le> 3 \<Longrightarrow> leaf_at off root mem' w k = leaf_at off root mem w k"
  by (simp add: same_leaves_def)

text \<open>The state of the allocator after \<open>n\<close> requests, and the failure of one of the requests that follow.\<close>

definition after_allocs :: "'s page_alloc_ops \<Rightarrow> nat \<Rightarrow> 's \<Rightarrow> 's" where
  "after_allocs pa n s = ((\<lambda>s. snd (pa_allocate pa s)) ^^ n) s"

definition exhausted :: "'s page_alloc_ops \<Rightarrow> 's \<Rightarrow> bool" where
  "exhausted pa s \<longleftrightarrow> (\<exists>n. fst (pa_allocate pa (after_allocs pa n s)) = None)"

lemma after_allocs_simps [simp]: "after_allocs pa 0 s = s" "after_allocs pa (Suc 0) s = snd (pa_allocate pa s)"
  by (simp_all add: after_allocs_def)

lemma after_allocs_add: "after_allocs pa n (after_allocs pa m s) = after_allocs pa (n + m) s"
  by (simp add: after_allocs_def funpow_add)

context page_alloc
begin

lemma create_table_ok:
  assumes inv: "pt_inv off owned root st" and t: "d < 3" "wt off root (ps_mem st) v d = Some t"
  obtains (exists) "create_table pa off t (idx d v) (lev d) st = Inr (Inl (EntryExistent True), st)"
      "leaf_at off root (ps_mem st) v d \<noteq> None"
    | (oom) st' where "create_table pa off t (idx d v) (lev d) st = Inr (Inl OutOfMemory, st')"
      "pt_inv off owned root st'" "ps_mem st' = ps_mem st" "fst (pa_allocate pa (ps_alloc st)) = None"
    | (ok) t' st' where "create_table pa off t (idx d v) (lev d) st = Inr (Inr t', st')" "pt_inv off owned root st'"
      "wt off root (ps_mem st') v (Suc d) = Some t'" "same_leaves off root (ps_mem st) (ps_mem st')"
      "leaf_at off root (ps_mem st) v d = None" "\<exists>m \<le> 1. ps_alloc st' = after_allocs pa m (ps_alloc st)"
proof -
  note tree = inv [unfolded pt_inv_def]
  let ?item = "ps_mem st t (idx d v)"
  have d: "d \<le> 3" and l: "lev d \<noteq> Pt" using t(1) by (auto simp: lev_Pt)
  obtain r where r: "get_table off ?item (lev d) = Inr r" using tree_okD(3) [OF tree d t(2)] by blast
  have leaf: "leaf_at off root (ps_mem st) v d = (if is_leaf ?item (lev d) then Some ?item else None)"
    by (simp add: leaf_at_def t(2))
  show ?thesis
  proof (cases r)
    case (Some p)
    have "wt off root (ps_mem st) v (Suc d) = Some p" using t(2) r Some by (simp add: sub_table_def)
    moreover have "\<not> is_leaf ?item (lev d)" using get_table_leaf [of ?item "lev d" off] r Some by auto
    moreover have "\<exists>m \<le> 1. ps_alloc st = after_allocs pa m (ps_alloc st)" by (intro exI [of _ 0]) simp
    ultimately show ?thesis
      using that(3) [of p st] inv r Some l by (simp add: create_table_def leaf)
  next
    case None
    show ?thesis
    proof (cases "is_leaf ?item (lev d)")
      case True
      then show ?thesis using that(1) r None l leaf by (simp add: create_table_def)
    next
      case notleaf: False
      obtain ph s' where a: "pa_allocate pa (ps_alloc st) = (ph, s')" by fastforce
      show ?thesis
      proof (cases ph)
        case None': None
        have "pt_inv off owned root (st\<lparr>ps_alloc := s'\<rparr>)"
          using inv alloc_none [of "ps_alloc st" s'] a None' by (simp add: pt_inv_def)
        then show ?thesis
          using that(2) [of "st\<lparr>ps_alloc := s'\<rparr>"] r None l notleaf a None'
          by (simp add: create_table_def allocate_zeroed_def)
      next
        case (Some p)
        note p = alloc_some [OF a [unfolded Some]]
        let ?e = "entry_new p INTERMEDIATE Pt"
        have e: "get_table off ?e (lev d) = Inr (Some (p + off))" "\<not> is_leaf ?e (lev d)"
          using intermediate_entry [of p off "lev d"] p l by auto
        have chk: "add_chk p off = Inr (p + off)" using p by (simp add: add_chk_def)
        have f: "(p + off) - off \<notin> owned (ps_alloc st)" using p by simp
        note link = tree_ok_link [OF tree t r [unfolded None] notleaf f e]
        let ?st = "st\<lparr>ps_mem := set_entry ((ps_mem st)(p + off := (\<lambda>_. 0))) t (idx d v) ?e, ps_alloc := s'\<rparr>"
        have "create_table pa off t (idx d v) (lev d) st = Inr (Inr (p + off), ?st)"
          using r None l notleaf a Some e chk by (simp add: create_table_def allocate_zeroed_def)
        moreover have "pt_inv off owned root ?st" using link(1) p by (simp add: pt_inv_def)
        moreover have "\<exists>m \<le> 1. ps_alloc ?st = after_allocs pa m (ps_alloc st)" using a by (intro exI [of _ 1]) simp
        ultimately show ?thesis
          using that(3) [of "p + off" ?st] link(2,3) leaf notleaf by (simp add: same_leaves_def)
      qed
    qed
  qed
qed

lemma new_page_from_ok:
  assumes "pt_inv off owned root st" "wt off root (ps_mem st) v d = Some t" "d \<le> dl" "dl \<le> 3"
  shows "\<exists>r st'. new_page_from pa off v phys attr (lev dl) (lev d) t st = Inr (r, st') \<and> pt_inv off owned root st' \<and>
    (\<forall>w k. k \<le> 3 \<longrightarrow> prefix (Suc dl) w \<noteq> prefix (Suc dl) v \<longrightarrow> leaf_at off root (ps_mem st') w k = leaf_at off root (ps_mem st) w k) \<and>
    (case r of
       Inr _ \<Rightarrow> leaf_at off root (ps_mem st') v dl = Some (entry_new phys (leaf_attr (lev dl) attr) (lev dl)) \<and>
         (\<forall>k. d \<le> k \<longrightarrow> k \<le> dl \<longrightarrow> leaf_at off root (ps_mem st) v k = None) \<and>
         (\<exists>m. ps_alloc st' = after_allocs pa m (ps_alloc st))
     | Inl e \<Rightarrow> same_leaves off root (ps_mem st) (ps_mem st') \<and>
         (e = OutOfMemory \<and> (\<exists>n < dl - d. fst (pa_allocate pa (after_allocs pa n (ps_alloc st))) = None) \<or>
          e = EntryExistent True \<and> (\<exists>k \<le> dl. leaf_at off root (ps_mem st) v k \<noteq> None)))"
  using assms
proof (induction "dl - d" arbitrary: d t st)
  case 0
  then have d: "d = dl" by simp
  let ?e = "entry_new phys (leaf_attr (lev dl) attr) (lev dl)"
  note tree = "0.prems"(1) [unfolded pt_inv_def]
  have ai: "addr_idx (lev dl) v False = idx dl v" using 0 by (simp add: addr_idx_eq)
  have w: "wt off root (ps_mem st) v dl = Some t" using 0 d by simp
  show ?case
  proof (cases "is_leaf (ps_mem st t (idx dl v)) (lev dl)")
    case True
    then show ?thesis
      using 0 d w by (auto simp: new_page_from.simps [of pa] ai leaf_at_def intro!: exI [of _ dl])
  next
    case False
    let ?m = "set_entry (ps_mem st) t (idx dl v) ?e"
    have gt: "get_table off ?e (lev dl) = Inr None" by (rule get_table_leaf [OF is_leaf_new])
    have "tree_ok off root ?m (owned (ps_alloc st))" by (rule tree_ok_set(1) [OF tree "0.prems"(4) w gt])
    moreover have "leaf_at off root ?m v dl = Some ?e"
      using wt_set_other [OF tree "0.prems"(4) w "0.prems"(4), of v ?e] w by (simp add: leaf_at_def is_leaf_new)
    moreover have "leaf_at off root ?m w' k = leaf_at off root (ps_mem st) w' k"
      if "k \<le> 3" "prefix (Suc dl) w' \<noteq> prefix (Suc dl) v" for w' k
      using leaf_set_other [OF tree "0.prems"(4) w that(1)] that(2) by blast
    moreover have "leaf_at off root (ps_mem st) v dl = None" using w False by (simp add: leaf_at_def)
    moreover have "\<exists>m. ps_alloc st = after_allocs pa m (ps_alloc st)" by (intro exI [of _ 0]) simp
    ultimately show ?thesis
      using False d by (simp add: new_page_from.simps [of pa] ai pt_inv_def)
  qed
next
  case (Suc n)
  then have d: "d < 3" "d < dl" and ne: "lev d \<noteq> lev dl" using lev_inj [of d dl] by auto
  have ai: "addr_idx (lev d) v False = idx d v" using d by (simp add: addr_idx_eq)
  note step = new_page_from.simps [of pa off v phys attr "lev dl" "lev d" t st] decrease_lev [OF d(1)]
  from Suc.prems(1) d(1) Suc.prems(2) show ?case
  proof (cases rule: create_table_ok)
    case exists
    have "\<exists>k \<le> dl. leaf_at off root (ps_mem st) v k \<noteq> None" using exists(2) d(2) by (intro exI [of _ d]) simp
    then show ?thesis using exists(1) Suc.prems(1) ne by (simp add: step ai)
  next
    case (oom st')
    then have "\<exists>n < dl - d. fst (pa_allocate pa (after_allocs pa n (ps_alloc st))) = None" using d(2) by (intro exI [of _ 0]) simp
    then show ?thesis using oom d ne by (simp add: step ai)
  next
    case (ok t' st')
    have IH: "n = dl - Suc d" "Suc d \<le> dl" using Suc.hyps(2) d by auto
    obtain r st'' where run: "new_page_from pa off v phys attr (lev dl) (lev (Suc d)) t' st' = Inr (r, st'')"
      and inv: "pt_inv off owned root st''"
      and far: "\<And>w k. k \<le> 3 \<Longrightarrow> prefix (Suc dl) w \<noteq> prefix (Suc dl) v \<Longrightarrow>
        leaf_at off root (ps_mem st'') w k = leaf_at off root (ps_mem st') w k"
      and res: "case r of
       Inr _ \<Rightarrow> leaf_at off root (ps_mem st'') v dl = Some (entry_new phys (leaf_attr (lev dl) attr) (lev dl)) \<and>
         (\<forall>k. Suc d \<le> k \<longrightarrow> k \<le> dl \<longrightarrow> leaf_at off root (ps_mem st') v k = None) \<and>
         (\<exists>m. ps_alloc st'' = after_allocs pa m (ps_alloc st'))
     | Inl e \<Rightarrow> same_leaves off root (ps_mem st') (ps_mem st'') \<and>
         (e = OutOfMemory \<and> (\<exists>n < dl - Suc d. fst (pa_allocate pa (after_allocs pa n (ps_alloc st'))) = None) \<or>
          e = EntryExistent True \<and> (\<exists>k \<le> dl. leaf_at off root (ps_mem st') v k \<noteq> None))"
      using Suc.hyps(1) [OF IH(1) ok(2,3) IH(2) Suc.prems(4)] by blast
    note leaves = same_leavesD [OF ok(4)]
    have eq: "new_page_from pa off v phys attr (lev dl) (lev d) t st = Inr (r, st'')"
      using ne d(1) ok(1) run by (simp add: step ai)
    have near: "leaf_at off root (ps_mem st) v k = None"
      if "\<forall>k. Suc d \<le> k \<longrightarrow> k \<le> dl \<longrightarrow> leaf_at off root (ps_mem st') v k = None" "d \<le> k" "k \<le> dl" for k
      using that leaves [of k v] ok(5) Suc.prems(4) by (cases "k = d") auto
    have "same_leaves off root (ps_mem st) (ps_mem st'')" if "same_leaves off root (ps_mem st') (ps_mem st'')"
      using that leaves by (simp add: same_leaves_def)
    moreover have "\<exists>k \<le> dl. leaf_at off root (ps_mem st) v k \<noteq> None" if "\<exists>k \<le> dl. leaf_at off root (ps_mem st') v k \<noteq> None"
      using that leaves Suc.prems(4) by auto
    moreover have "\<exists>m. ps_alloc st'' = after_allocs pa m (ps_alloc st)" if "\<exists>m. ps_alloc st'' = after_allocs pa m (ps_alloc st')"
      using that ok(6) after_allocs_add by metis
    moreover have "\<exists>n < dl - d. fst (pa_allocate pa (after_allocs pa n (ps_alloc st))) = None"
      if short: "\<exists>n < dl - Suc d. fst (pa_allocate pa (after_allocs pa n (ps_alloc st'))) = None"
    proof -
      obtain n m where "n < dl - Suc d" "fst (pa_allocate pa (after_allocs pa n (ps_alloc st'))) = None" "m \<le> 1"
        "ps_alloc st' = after_allocs pa m (ps_alloc st)"
        using short ok(6) by blast
      then show ?thesis by (intro exI [of _ "n + m"]) (simp add: after_allocs_add)
    qed
    ultimately have "case r of
       Inr _ \<Rightarrow> leaf_at off root (ps_mem st'') v dl = Some (entry_new phys (leaf_attr (lev dl) attr) (lev dl)) \<and>
         (\<forall>k. d \<le> k \<longrightarrow> k \<le> dl \<longrightarrow> leaf_at off root (ps_mem st) v k = None) \<and>
         (\<exists>m. ps_alloc st'' = after_allocs pa m (ps_alloc st))
     | Inl e \<Rightarrow> same_leaves off root (ps_mem st) (ps_mem st'') \<and>
         (e = OutOfMemory \<and> (\<exists>n < dl - d. fst (pa_allocate pa (after_allocs pa n (ps_alloc st))) = None) \<or>
          e = EntryExistent True \<and> (\<exists>k \<le> dl. leaf_at off root (ps_mem st) v k \<noteq> None))"
      using res near by (cases r; simp only: sum.case; blast)
    moreover have "leaf_at off root (ps_mem st'') w k = leaf_at off root (ps_mem st) w k"
      if "k \<le> 3" "prefix (Suc dl) w \<noteq> prefix (Suc dl) v" for w k
      using far [OF that] leaves [OF that(1)] by simp
    ultimately show ?thesis using eq inv by blast
  qed
qed

end

section \<open>The mapping an address has\<close>

text \<open>The leaf entry that translates an address, with the depth of its table.\<close>

definition mapping :: "u64 \<Rightarrow> u64 \<Rightarrow> table_mem \<Rightarrow> u64 \<Rightarrow> (nat \<times> u64) option" where
  "mapping off root mem v =
     (case leaf_at off root mem v 0 of Some e \<Rightarrow> Some (0, e) | None \<Rightarrow>
      case leaf_at off root mem v 1 of Some e \<Rightarrow> Some (1, e) | None \<Rightarrow>
      case leaf_at off root mem v 2 of Some e \<Rightarrow> Some (2, e) | None \<Rightarrow>
      case leaf_at off root mem v 3 of Some e \<Rightarrow> Some (3, e) | None \<Rightarrow> None)"

text \<open>The physical address the processor computes: the frame of the entry and the offset in the page.\<close>

definition mmu_phys :: "nat \<Rightarrow> u64 \<Rightarrow> u64 \<Rightarrow> nat" where
  "mmu_phys d e v = unat (e AND addr_mask (lev d)) + unat v mod 2 ^ page_bits (lev d)"

lemma mapping_cong:
  "(\<And>k. k \<le> 3 \<Longrightarrow> leaf_at off root mem' w k = leaf_at off root mem w k) \<Longrightarrow>
   mapping off root mem' w = mapping off root mem w"
  unfolding mapping_def by (simp cong: option.case_cong)

lemma mapping_of_leaf:
  assumes "leaf_at off root mem v d = Some e" "d \<le> 3"
  shows "mapping off root mem v = Some (d, e)"
proof -
  have above: "leaf_at off root mem v k = None" if "k < d" for k
    using leaf_excl(2) [of off root mem v k _ d] assms(1) that by (cases "leaf_at off root mem v k") auto
  consider "d = 0" | "d = 1" | "d = 2" | "d = 3" using assms(2) by linarith
  then show ?thesis using above [of 0] above [of 1] above [of 2] assms(1) by cases (simp_all add: mapping_def)
qed

lemma get_page_from_ok:
  assumes ok: "tree_ok off root mem pages"
  shows "d \<le> 3 \<Longrightarrow> wt off root mem v d = Some t \<Longrightarrow> (\<And>k. k < d \<Longrightarrow> leaf_at off root mem v k = None) \<Longrightarrow>
    get_page_from off v (lev d) t mem =
      (case mapping off root mem v of None \<Rightarrow> Inr (Inl (EntryExistent False))
       | Some (d', e) \<Rightarrow> Inr (Inr ((e AND addr_mask (lev d')) OR (v AND NOT (addr_mask (lev d'))), e AND ATTR_ALL)))"
proof (induction "3 - d" arbitrary: d t rule: less_induct)
  case less
  let ?e = "mem t (idx d v)"
  have leaf: "leaf_at off root mem v d = (if is_leaf ?e (lev d) then Some ?e else None)"
    by (simp add: leaf_at_def less.prems(2))
  note step = get_page_from.simps [of off v "lev d" t mem] addr_idx_eq [OF less.prems(1)]
  obtain r where r: "get_table off ?e (lev d) = Inr r" using tree_okD(3) [OF ok less.prems(1,2)] by blast
  show ?case
  proof (cases "is_leaf ?e (lev d)")
    case True
    then have "mapping off root mem v = Some (d, ?e)" using leaf less.prems(1) by (intro mapping_of_leaf) auto
    then show ?thesis using True by (simp add: step entry_get_def Let_def)
  next
    case notleaf: False
    show ?thesis
    proof (cases "r = None \<or> d = 3")
      case True
      have "wt off root mem v (Suc d) = None \<or> d = 3" using True r less.prems(2) by (auto simp: sub_table_def)
      then have "leaf_at off root mem v k = None" if "d < k" "k \<le> 3" for k
        using wt_None_mono [of off root mem v "Suc d" k] that by (auto simp: leaf_at_def)
      then have "leaf_at off root mem v k = None" if "k \<le> 3" for k
        using less.prems(3) [of k] leaf notleaf that by (cases "k < d"; cases "k = d") auto
      then have "mapping off root mem v = None" by (simp add: mapping_def)
      then show ?thesis using True notleaf r less.prems(1) by (auto simp: step lev_Pt get_table_eq split: option.splits)
    next
      case False
      then obtain t' where t': "r = Some t'" "d < 3" using less.prems(1) by auto
      have "wt off root mem v (Suc d) = Some t'" using t' r less.prems(2) by (simp add: sub_table_def)
      moreover have "leaf_at off root mem v k = None" if "k < Suc d" for k
        using less.prems(3) [of k] leaf notleaf that by (cases "k = d") auto
      ultimately show ?thesis
        using less.hyps [of "Suc d" t'] t' notleaf r by (simp add: step decrease_lev)
    qed
  qed
qed

lemma get_page_ok:
  assumes "tree_ok off root mem pages"
  shows "get_page root v off mem =
    (case mapping off root mem v of None \<Rightarrow> Inr (Inl (EntryExistent False))
     | Some (d, e) \<Rightarrow> Inr (Inr ((e AND addr_mask (lev d)) OR (v AND NOT (addr_mask (lev d))), e AND ATTR_ALL)))"
  using get_page_from_ok [OF assms, of 0 v root] by (simp add: get_page_def)

lemma addr_mask_eq: "addr_mask l = mask 48 AND NOT (mask (page_bits l))"
  by (cases l) (simp_all add: mask_eq_exp_minus_1)

lemma unat_or_disjoint: "a AND b = 0 \<Longrightarrow> unat (a OR b) = unat a + unat (b :: u64)"
  by (metis disjunctive_add_eq_or unsigned_0 unsigned_and_eq unsigned_or_eq)

lemma get_page_phys:
  assumes "unat v < 2 ^ 48"
  shows "unat ((e AND addr_mask (lev d)) OR (v AND NOT (addr_mask (lev d)))) = mmu_phys d e v"
proof -
  let ?n = "page_bits (lev d)"
  have v: "take_bit 48 v = v"
    using assms by (simp add: word_unat_eq_iff unsigned_take_bit_eq take_bit_nat_eq_self)
  have n: "?n < 48" by (cases "lev d") auto
  have off: "v AND NOT (addr_mask (lev d)) = take_bit ?n v"
  proof (rule bit_word_eqI)
    fix k
    have "bit v k \<longleftrightarrow> k < 48 \<and> bit v k" using bit_take_bit_iff [of 48 v k] unfolding v .
    then show "bit (v AND NOT (addr_mask (lev d))) k \<longleftrightarrow> bit (take_bit ?n v) k" if "k < LENGTH(64)"
      using that n by (auto simp: addr_mask_eq bit_and_iff bit_or_iff bit_not_iff bit_mask_iff bit_take_bit_iff)
  qed
  have "(e AND addr_mask (lev d)) AND take_bit ?n v = 0"
    by (rule bit_word_eqI) (auto simp: addr_mask_eq bit_and_iff bit_or_iff bit_not_iff bit_mask_iff bit_take_bit_iff)
  moreover have "unat (take_bit ?n v) = unat v mod 2 ^ ?n"
    unfolding unsigned_take_bit_eq by (rule take_bit_eq_mod)
  ultimately show ?thesis unfolding off by (simp only: unat_or_disjoint mmu_phys_def)
qed

end
