(* ===== verification/Paging_Drop.thy ===== *)
theory Paging_Drop
  imports Paging_Walk
begin

unbundle bit_operations_syntax

text \<open>
  Removing one page: \<open>drop_page\<close> clears the leaf, and \<open>destroy_tables\<close> gives back the tables that have become empty, without
  any effect on other addresses.
\<close>

lemma get_or_split_existing:
  assumes ok: "tree_ok off root (ps_mem st) pages" and d: "d < 3"
    and t: "wt off root (ps_mem st) v d = Some t" "wt off root (ps_mem st) v (Suc d) = Some t'"
  shows "get_or_split_table pa off t (idx d v) (lev d) st = Inr (Inr t', st)" "\<not> is_leaf (ps_mem st t (idx d v)) (lev d)"
proof -
  obtain r where r: "get_table off (ps_mem st t (idx d v)) (lev d) = Inr r" using tree_okD(3) [OF ok _ t(1)] d by auto
  then have "r = Some t'" using t by (simp add: sub_table_def)
  then show "get_or_split_table pa off t (idx d v) (lev d) st = Inr (Inr t', st)"
    "\<not> is_leaf (ps_mem st t (idx d v)) (lev d)"
    using r d get_table_leaf [of "ps_mem st t (idx d v)" "lev d" off] by (auto simp: get_or_split_table_def lev_Pt)
qed

section \<open>Empty tables\<close>

lemma idx_less: "idx d v < 512"
  by (simp add: idx_def)

lemma is_empty_all: "is_empty tab None l \<longleftrightarrow> (\<forall>i < 512. \<not> bit (tab i) 0)"
  by (simp add: is_empty_def NR_ENTRIES_def NR_ENTRIES_SHIFT_def entry_get_def contains_PRESENT bit_ATTR_ALL)

text \<open>Unlinking a table without present entries: its page is no longer part of the tree, and no address changes.\<close>

lemma unlink_empty:
  assumes ok: "tree_ok off root mem pages" and d: "d < 3"
    and t: "wt off root mem v d = Some t" "wt off root mem v (Suc d) = Some t'"
    and empty: "\<forall>i < 512. \<not> bit (mem t' i) 0"
  defines "mem' \<equiv> set_entry mem t (idx d v) 0"
  shows "tree_ok off root mem' (pages - {t' - off})" "same_leaves off root mem mem'" "k \<le> d \<Longrightarrow> wt off root mem' w k = wt off root mem w k"
proof -
  have d3: "d \<le> 3" using d by simp
  note set = tree_ok_set [OF ok d3 t(1) get_table_zero(1), folded mem'_def]
  note other = wt_set_other [OF ok d3 t(1), where e = 0, folded mem'_def]
  have sub: "wt off root mem w k = Some u" if "wt off root mem' w k = Some u" "k \<le> 3" for w k u
    using set(2) [of w k] other [OF that(2), of w] that(1) by (cases "k \<le> d \<or> prefix (Suc d) w \<noteq> prefix (Suc d) v") auto
  have gone: "u \<noteq> t'" if "k \<le> 3" "wt off root mem' w k = Some u" for w k u
  proof
    assume "u = t'"
    then have "Suc d = k" "prefix (Suc d) v = prefix (Suc d) w"
      using tree_okD(1) [OF ok _ t(2) that(1)] sub [OF that(2,1)] d by auto
    then show False using set(2) [of w k] that(2) by simp
  qed
  show "tree_ok off root mem' (pages - {t' - off})"
    unfolding tree_ok_def
  proof (intro conjI allI impI)
    fix w k u
    assume k: "k \<le> 3" and u: "wt off root mem' w k = Some u"
    show "u - off \<in> pages - {t' - off}" using tree_okD(2) [OF set(1) k u] gone [OF k u] by simp
    show "\<exists>r. get_table off (mem' u (idx k w)) (lev k) = Inr r" by (rule tree_okD(3) [OF set(1) k u])
  next
    fix w k u x k'
    assume "k \<le> 3" "k' \<le> 3" "wt off root mem' w k = Some u" "wt off root mem' x k' = Some u"
    then show "k = k'" "prefix k w = prefix k x" using tree_okD(1) [OF set(1)] by blast+
  qed
  show "k \<le> d \<Longrightarrow> wt off root mem' w k = wt off root mem w k" using other [of k w] d by simp
  have nleaf: "\<not> is_leaf (mem t (idx d v)) (lev d)"
    using t get_table_leaf [of "mem t (idx d v)" "lev d" off] by (auto simp: sub_table_def)
  show "same_leaves off root mem mem'" unfolding same_leaves_def
  proof (intro allI impI)
    fix w k
    assume k: "k \<le> (3 :: nat)"
    show "leaf_at off root mem' w k = leaf_at off root mem w k"
    proof (cases "k < d \<or> prefix (Suc d) w \<noteq> prefix (Suc d) v")
      case True
      then show ?thesis using leaf_set_other [OF ok d3 t(1) k, of w 0] by (simp add: mem'_def)
    next
      case False
      then have pre: "prefix (Suc d) w = prefix (Suc d) v" and dk: "d \<le> k" by auto
      have ix: "idx d w = idx d v" "wt off root mem w d = Some t" "wt off root mem w (Suc d) = Some t'"
        using prefix_Suc_eq [of d w v] pre d t wt_cong [of d w v off root mem] wt_cong [OF pre, of off root mem] by auto
      show ?thesis
      proof (cases "k = d")
        case True
        have "wt off root mem' w d = Some t" using other [of d w] ix(2) d by simp
        then show ?thesis using True ix nleaf by (simp add: leaf_at_def mem'_def)
      next
        case ne: False
        then have "wt off root mem' w k = None" using set(2) [OF pre, of k] dk by simp
        moreover have "leaf_at off root mem w k = None"
        proof (cases "k = Suc d")
          case True
          have "\<not> bit (mem t' (idx (Suc d) w)) 0" using empty idx_less by blast
          then show ?thesis using True ix(3) by (simp add: leaf_at_def is_leaf_iff)
        next
          case False
          have "\<not> bit (mem t' (idx (Suc d) w)) 0" using empty idx_less by blast
          then have "wt off root mem w (Suc (Suc d)) = None" using ix(3) by (simp add: sub_table_def get_table_eq)
          then have "wt off root mem w k = None" by (rule wt_None_mono) (use False ne dk in simp)
          then show ?thesis by (simp add: leaf_at_def)
        qed
        ultimately show ?thesis by (simp add: leaf_at_def)
      qed
    qed
  qed
qed

text \<open>The tables that \<open>drop_page\<close> collects lie on the path of the address, the deepest first.\<close>

fun path_tables :: "u64 \<Rightarrow> u64 \<Rightarrow> table_mem \<Rightarrow> u64 \<Rightarrow> nat \<Rightarrow> ((u64 \<times> nat) \<times> Level) list \<Rightarrow> bool" where
  "path_tables off root mem v d [] \<longleftrightarrow> True"
| "path_tables off root mem v d (((t, i), l) # ets) \<longleftrightarrow>
     (\<exists>k t'. k < d \<and> l = lev (Suc k) \<and> wt off root mem v k = Some t \<and> i = idx k v \<and> wt off root mem v (Suc k) = Some t'
        \<and> path_tables off root mem v k ets)"

lemma path_tables_cong:
  "(\<And>k. k \<le> d \<Longrightarrow> wt off root mem' v k = wt off root mem v k) \<Longrightarrow> path_tables off root mem' v d ets = path_tables off root mem v d ets"
proof (induction ets arbitrary: d)
  case (Cons x ets)
  obtain t i l where x: "x = ((t, i), l)" by (metis surj_pair)
  have "path_tables off root mem' v k ets = path_tables off root mem v k ets" if "k < d" for k
    using Cons.prems that by (intro Cons.IH) simp
  then show ?case using Cons.prems by (fastforce simp: x simp del: wt.simps)
qed simp

lemma path_tables_mono: "path_tables off root mem v d ets \<Longrightarrow> d \<le> d' \<Longrightarrow> path_tables off root mem v d' ets"
proof (induction ets)
  case (Cons x ets)
  obtain t i l where x: "x = ((t, i), l)" by (metis surj_pair)
  show ?case using Cons.prems unfolding x path_tables.simps by (blast intro: less_le_trans)
qed simp

lemma increase_lev: "d < 3 \<Longrightarrow> increase (lev (Suc d)) = Some (lev d)"
  by (auto simp: lev_def)

context page_alloc
begin

lemma destroy_tables_ok:
  assumes "pt_inv off owned root st" "path_tables off root (ps_mem st) v d ets" "d \<le> 3"
  shows "\<exists>st'. destroy_tables pa off ets st = Inr st' \<and> pt_inv off owned root st' \<and> same_leaves off root (ps_mem st) (ps_mem st')"
  using assms
proof (induction ets arbitrary: st d)
  case (Cons x ets)
  obtain t i l where x: "x = ((t, i), l)" by (metis surj_pair)
  then obtain k t' where k: "k < d" "l = lev (Suc k)" "wt off root (ps_mem st) v k = Some t" "i = idx k v"
    "wt off root (ps_mem st) v (Suc k) = Some t'" "path_tables off root (ps_mem st) v k ets"
    using Cons.prems(2) by (auto simp del: wt.simps)
  note ok = Cons.prems(1) [unfolded pt_inv_def]
  have k3: "k < 3" "k \<le> 3" using k(1) Cons.prems(3) by auto
  let ?e = "ps_mem st t i"
  obtain r where "get_table off ?e (lev k) = Inr r" using tree_okD(3) [OF ok k3(2) k(3)] k(4) by auto
  then have gt: "get_table off ?e (lev k) = Inr (Some t')" using k(3,4,5) by (simp add: sub_table_def)
  then have addr: "fst (entry_get ?e Pt) = t' - off"
    by (auto simp: get_table_eq entry_get_def add_chk_def split: if_splits)
  show ?case
  proof (cases "is_empty (ps_mem st t') None l")
    case True
    let ?st = "st\<lparr>ps_mem := set_entry (ps_mem st) t i 0, ps_alloc := pa_deallocate pa (t' - off) (ps_alloc st)\<rparr>"
    note un = unlink_empty [OF ok k3(1) k(3,5) True [unfolded is_empty_all], folded k(4)]
    have inv: "pt_inv off owned root ?st" using un(1) by (simp add: pt_inv_def dealloc)
    have "path_tables off root (ps_mem ?st) v k ets" using k(6) un(3) path_tables_cong [of k off root "ps_mem ?st" v "ps_mem st" ets] by simp
    then obtain st' where "destroy_tables pa off ets ?st = Inr st'" "pt_inv off owned root st'" "same_leaves off root (ps_mem ?st) (ps_mem st')"
      using Cons.IH [OF inv] k3(2) by blast
    then show ?thesis using un(2) gt addr True k(2) increase_lev [OF k3(1)] by (simp add: x same_leaves_def Let_def)
  next
    case False
    then show ?thesis using Cons.prems(1) gt k(2) increase_lev [OF k3(1)] by (simp add: x)
  qed
qed simp

lemma drop_page_from_ok:
  assumes "pt_inv off owned root st" "wt off root (ps_mem st) v d = Some t" "d \<le> dl" "dl \<le> 3" "leaf_at off root (ps_mem st) v dl = Some e"
    "path_tables off root (ps_mem st) v (d - 1) ets"
    "case parent of None \<Rightarrow> d = 0 | Some (p, i) \<Rightarrow> 0 < d \<and> wt off root (ps_mem st) v (d - 1) = Some p \<and> i = idx (d - 1) v"
  shows "\<exists>st'. drop_page_from pa off v (lev dl) (lev d) t parent ets st = Inr (Inr (), st') \<and> pt_inv off owned root st' \<and>
    (\<forall>w k. k \<le> 3 \<longrightarrow> leaf_at off root (ps_mem st') w k
       = (if prefix (Suc dl) w = prefix (Suc dl) v then None else leaf_at off root (ps_mem st) w k))"
  using assms
proof (induction "dl - d" arbitrary: d t parent ets)
  case 0
  then have d: "d = dl" by simp
  note ok = "0.prems"(1) [unfolded pt_inv_def] and d3 = "0.prems"(4)
  have t: "wt off root (ps_mem st) v dl = Some t" using "0.prems"(2) d by simp
  let ?m = "set_entry (ps_mem st) t (idx dl v) 0"
  let ?ets = "if is_empty (ps_mem st t) (Some (idx dl v)) (lev dl) then (case parent of None \<Rightarrow> ets | Some p \<Rightarrow> (p, lev dl) # ets) else ets"
  have leaf: "is_leaf (ps_mem st t (idx dl v)) (lev dl)" using "0.prems"(5) t by (auto simp: leaf_at_def split: if_splits)
  have ets: "path_tables off root (ps_mem st) v dl ?ets"
    using "0.prems"(6,7) d t path_tables_mono [of off root "ps_mem st" v "dl - 1" ets dl] by (cases dl) (auto split: option.splits simp del: wt.simps)
  have inv: "pt_inv off owned root (st\<lparr>ps_mem := ?m\<rparr>)" using tree_ok_set(1) [OF ok d3 t get_table_zero(1)] by (simp add: pt_inv_def)
  have "path_tables off root ?m v dl ?ets"
    using ets path_tables_cong [of dl off root ?m v "ps_mem st" ?ets] wt_set_other [OF ok d3 t, where e = 0 and w = v] d3 by simp
  then obtain st' where st': "destroy_tables pa off ?ets (st\<lparr>ps_mem := ?m\<rparr>) = Inr st'" "pt_inv off owned root st'" "same_leaves off root ?m (ps_mem st')"
    using destroy_tables_ok [OF inv _ d3, of v ?ets] by auto
  have "leaf_at off root ?m w k = (if prefix (Suc dl) w = prefix (Suc dl) v then None else leaf_at off root (ps_mem st) w k)" if k: "k \<le> 3" for w k
  proof (cases "prefix (Suc dl) w = prefix (Suc dl) v")
    case True
    have here: "wt off root ?m w dl = Some t" "idx dl w = idx dl v"
      using wt_set_other [OF ok d3 t d3, of w 0] t wt_cong [of dl w v off root "ps_mem st"] prefix_Suc_eq [of dl w v] True d3 by auto
    consider "k < dl" | "k = dl" | "dl < k" by linarith
    then have "leaf_at off root ?m w k = None"
    proof cases
      case 1
      have "leaf_at off root (ps_mem st) w k = leaf_at off root (ps_mem st) v k"
        using leaf_at_cong [of k w v] prefix_mono [OF True, of "Suc k"] 1 d3 by simp
      moreover have "leaf_at off root (ps_mem st) v k = None"
        using leaf_excl(2) [of off root "ps_mem st" v k _ dl] "0.prems"(5) 1 by (cases "leaf_at off root (ps_mem st) v k") auto
      ultimately show ?thesis using leaf_set_other [OF ok d3 t k, of w 0] 1 by simp
    next
      case 2
      then show ?thesis using here by (simp add: leaf_at_def)
    next
      case 3
      then show ?thesis using tree_ok_set(2) [OF ok d3 t get_table_zero(1) True] by (simp add: leaf_at_def)
    qed
    then show ?thesis using True by simp
  next
    case False
    then show ?thesis using leaf_set_other [OF ok d3 t k, of w 0] by simp
  qed
  then show ?case
    using st' leaf d3 d by (simp add: drop_page_from.simps [of pa off v "lev dl" "lev dl"] addr_idx_eq Let_def same_leaves_def)
next
  case (Suc n)
  then have d: "d < 3" "d < dl" and ne: "lev d \<noteq> lev dl" using lev_inj [of d dl] by auto
  note ok = Suc.prems(1) [unfolded pt_inv_def]
  have "wt off root (ps_mem st) v dl \<noteq> None" using Suc.prems(5) by (auto simp: leaf_at_def bind_eq_Some_conv)
  then obtain t' where t': "wt off root (ps_mem st) v (Suc d) = Some t'"
    using wt_None_mono [of off root "ps_mem st" v "Suc d" dl] d(2) by (cases "wt off root (ps_mem st) v (Suc d)") auto
  let ?ets = "if is_empty (ps_mem st t) (Some (idx d v)) (lev d) then (case parent of None \<Rightarrow> ets | Some p \<Rightarrow> (p, lev d) # ets) else ets"
  have ets: "path_tables off root (ps_mem st) v (Suc d - 1) ?ets"
    using Suc.prems(2,6,7) path_tables_mono [of off root "ps_mem st" v "d - 1" ets d] by (cases d) (auto split: option.splits simp del: wt.simps)
  have "n = dl - Suc d" "Suc d \<le> dl" using Suc.hyps(2) d by auto
  then obtain st' where "drop_page_from pa off v (lev dl) (lev (Suc d)) t' (Some (t, idx d v)) ?ets st = Inr (Inr (), st')"
    "pt_inv off owned root st'"
    "\<forall>w k. k \<le> 3 \<longrightarrow> leaf_at off root (ps_mem st') w k
       = (if prefix (Suc dl) w = prefix (Suc dl) v then None else leaf_at off root (ps_mem st) w k)"
    using Suc.hyps(1) [of "Suc d" t' ?ets "Some (t, idx d v)"] Suc.prems(1,2,4,5) t' ets by auto
  then show ?case
    using ne d get_or_split_existing(1) [OF ok d(1) Suc.prems(2) t', of pa]
    by (simp add: drop_page_from.simps [of pa off v "lev dl" "lev d"] addr_idx_eq decrease_lev Let_def)
qed

lemma drop_page_ok:
  assumes "pt_inv off owned root st" "dl \<le> 3" "leaf_at off root (ps_mem st) v dl = Some e"
  obtains st' where "drop_page pa root v (lev dl) off st = Inr (Inr (), st')" "pt_inv off owned root st'"
    "\<And>w. mapping off root (ps_mem st') w = (if prefix (Suc dl) w = prefix (Suc dl) v then None else mapping off root (ps_mem st) w)"
proof -
  obtain st' where st': "drop_page_from pa off v (lev dl) (lev 0) root None [] st = Inr (Inr (), st')" "pt_inv off owned root st'"
    "\<forall>w k. k \<le> 3 \<longrightarrow> leaf_at off root (ps_mem st') w k
       = (if prefix (Suc dl) w = prefix (Suc dl) v then None else leaf_at off root (ps_mem st) w k)"
    using drop_page_from_ok [OF assms(1), of v 0 root dl e "[]" None] assms(2,3) by auto
  then have "mapping off root (ps_mem st') w = (if prefix (Suc dl) w = prefix (Suc dl) v then None else mapping off root (ps_mem st) w)" for w
    using mapping_cong [of off root "ps_mem st'" w "ps_mem st"]
    by (cases "prefix (Suc dl) w = prefix (Suc dl) v") (simp_all add: mapping_def [of off root "ps_mem st'"])
  then show ?thesis using that st'(1,2) by (simp add: drop_page_def)
qed

end

text \<open>A page that is mapped by smaller pages is left alone.\<close>

lemma drop_page_from_skip:
  assumes "tree_ok off root (ps_mem st) pages" "wt off root (ps_mem st) v d = Some t" "d \<le> dl" "dl < 3" "wt off root (ps_mem st) v (Suc dl) = Some t'"
  shows "drop_page_from pa off v (lev dl) (lev d) t parent ets st = Inr (Inl (EntryExistent False), st)"
  using assms
proof (induction "dl - d" arbitrary: d t parent ets)
  case 0
  then have "d = dl" by simp
  then show ?case using 0 get_or_split_existing(2) [OF 0(2,5) _ 0(6), of t]
    by (simp add: drop_page_from.simps [of pa off v "lev dl" "lev dl"] addr_idx_eq Let_def del: wt.simps)
next
  case (Suc n)
  then have d: "d < 3" "d < dl" and ne: "lev d \<noteq> lev dl" using lev_inj [of d dl] by auto
  obtain u where u: "wt off root (ps_mem st) v (Suc d) = Some u"
    using wt_None_mono [of off root "ps_mem st" v "Suc d" "Suc dl"] Suc.prems(5) d(2) by (cases "wt off root (ps_mem st) v (Suc d)") auto
  have "drop_page_from pa off v (lev dl) (lev (Suc d)) u parent' ets' st = Inr (Inl (EntryExistent False), st)" for parent' ets'
    using Suc.hyps(1) [of "Suc d" u] Suc.hyps(2) Suc.prems(1,4,5) u d(2) by simp
  then show ?case
    using ne d get_or_split_existing(1) [OF Suc.prems(1) d(1) Suc.prems(2) u, of pa]
    by (simp add: drop_page_from.simps [of pa off v "lev dl" "lev d"] addr_idx_eq decrease_lev Let_def del: wt.simps)
qed

lemma drop_page_skip:
  assumes "tree_ok off root (ps_mem st) pages" "leaf_at off root (ps_mem st) v d = Some e" "dl < d" "d \<le> 3"
  shows "drop_page pa root v (lev dl) off st = Inr (Inl (EntryExistent False), st)"
proof -
  have "wt off root (ps_mem st) v d \<noteq> None" using assms(2) by (auto simp: leaf_at_def bind_eq_Some_conv)
  then obtain t' where "wt off root (ps_mem st) v (Suc dl) = Some t'"
    using wt_None_mono [of off root "ps_mem st" v "Suc dl" d] assms(3) by (cases "wt off root (ps_mem st) v (Suc dl)") auto
  then show ?thesis using drop_page_from_skip [OF assms(1), of v 0 root dl t' pa None "[]"] assms(3,4) by (simp add: drop_page_def)
qed

end
