(* ===== verification/Paging_Ranges.thy ===== *)
theory Paging_Ranges
  imports Paging_Drop
begin

unbundle bit_operations_syntax

text \<open>
  Correctness of the operations on ranges of pages: what \<open>maps\<close> establishes, what
  it rolls back, and the pages \<open>unmaps\<close> may miss; a reference page allocator that
  satisfies the interface.
\<close>

section \<open>Mapping ranges\<close>

text \<open>The 48 bits of an address that the tables translate.\<close>

definition canon :: "u64 \<Rightarrow> nat" where
  "canon v = unat v mod 2 ^ 48"

lemma canon_dvd: "n \<le> 48 \<Longrightarrow> 2 ^ n dvd canon v \<longleftrightarrow> 2 ^ n dvd unat v"
  unfolding canon_def by (rule dvd_mod_iff) (rule le_imp_power_dvd)

lemma canon_mod: "n \<le> 48 \<Longrightarrow> canon v mod 2 ^ n = unat v mod 2 ^ n"
  unfolding canon_def by (rule mod_mod_cancel) (rule le_imp_power_dvd)

lemma aligned_div_eq:
  assumes "(m :: nat) dvd a" "0 < m"
  shows "b div m = a div m \<longleftrightarrow> a \<le> b \<and> b < a + m"
proof -
  have "a div m * m = a" using assms(1) by simp
  then show ?thesis using assms(2) by (metis add.commute div_nat_eqI dividend_less_div_times div_times_less_eq_dividend mult.commute mult_Suc)
qed

lemma same_page_iff:
  assumes "d \<le> 3" "2 ^ page_bits (lev d) dvd unat v"
  shows "prefix (Suc d) w = prefix (Suc d) v \<longleftrightarrow> canon v \<le> canon w \<and> canon w < canon v + 2 ^ page_bits (lev d)"
proof -
  have p: "prefix (Suc d) u = canon u div 2 ^ page_bits (lev d)" for u
    using assms(1) by (simp add: prefix_def canon_def page_bits_lev)
  have "2 ^ page_bits (lev d) dvd canon v" using assms by (simp add: canon_dvd page_bits_lev)
  then show ?thesis unfolding p by (intro aligned_div_eq) auto
qed

lemma level_fit_Some: "2 ^ 12 dvd unat v \<Longrightarrow> \<exists>l. level_fit v = Some l"
  using page_aligned_iff [of v Pt] by (auto simp: level_fit_def)

lemma misaligned_iff: "misaligned v = None \<longleftrightarrow> 2 ^ 12 dvd unat v"
  using page_aligned_iff [of v Pt] by (simp add: misaligned_def PAGE_MASK_def page_size_def)

lemma fit_all_ok:
  assumes "vs \<le> ve" "2 ^ 12 dvd unat vs" "2 ^ 12 dvd unat ve" "2 ^ 12 dvd unat phys"
  shows "\<exists>d \<le> 3. fit_all (vs, ve) phys = Inr (lev d)"
proof -
  have "2 ^ 12 dvd unat (ve - vs)" using assms by (simp add: unat_sub word_le_nat_alt dvd_diff_nat)
  then obtain a b c where "level_fit vs = Some a" "level_fit (ve - vs) = Some b" "level_fit phys = Some c"
    using level_fit_Some [OF assms(2)] level_fit_Some [OF assms(4)] level_fit_Some [of "ve - vs"] by auto
  then obtain l where l: "fit_all (vs, ve) phys = Inr l" using assms(1) by (simp add: fit_all_def sub_chk_def)
  then have "fit_all (vs, ve) phys = Inr (lev (3 - level_num l))" by (cases l) simp_all
  then show ?thesis by (intro exI [of _ "3 - level_num l"]) simp
qed

lemma leaf_frame:
  assumes "attr AND addr_mask Pt = 0" "2 ^ page_bits l dvd unat phys" "unat phys < 2 ^ 48"
  shows "entry_new phys (leaf_attr l attr) l AND addr_mask l = phys"
proof -
  have ph: "phys AND addr_mask l = phys"
  proof -
    have a: "take_bit 48 phys = phys" using assms(3) by (simp add: word_unat_eq_iff unsigned_take_bit_eq take_bit_nat_eq_self)
    have b: "take_bit (page_bits l) phys = 0"
      using assms(2) by (simp add: word_unat_eq_iff unsigned_take_bit_eq take_bit_eq_0_iff)
    show ?thesis
    proof (rule bit_word_eqI)
      fix k
      have "bit phys k \<longleftrightarrow> k < 48 \<and> bit phys k" using bit_take_bit_iff [of 48 phys k] unfolding a .
      moreover have "\<not> (k < page_bits l \<and> bit phys k)" using bit_take_bit_iff [of "page_bits l" phys k] unfolding b by simp
      ultimately show "bit (phys AND addr_mask l) k = bit phys k" if "k < LENGTH(64)"
        using that by (auto simp: addr_mask_eq bit_and_iff bit_not_iff bit_mask_iff)
    qed
  qed
  have sub: "addr_mask l AND addr_mask Pt = addr_mask l" by (cases l) simp_all
  have la: "leaf_attr l attr AND addr_mask l = 0"
  proof -
    have "attr AND addr_mask l = (attr AND addr_mask Pt) AND addr_mask l"
      by (subst sub [symmetric]) (simp only: ac_simps)
    then have "attr AND addr_mask l = 0" unfolding assms(1) by simp
    moreover have "PRESENT AND addr_mask l = 0" "LARGE_PAGE AND addr_mask l = 0" by (cases l; simp add: PRESENT_def LARGE_PAGE_def)+
    moreover have "l \<noteq> Pt \<Longrightarrow> LARGE_PAT AND addr_mask l = 0" by (cases l) (simp_all add: LARGE_PAT_def)
    ultimately show ?thesis by (auto simp: leaf_attr_def Let_def bit.conj_disj_distrib2)
  qed
  show ?thesis by (simp add: entry_new_def bit.conj_disj_distrib2 la ph and.assoc)
qed

definition maps_to :: "u64 \<Rightarrow> u64 \<Rightarrow> table_mem \<Rightarrow> u64 \<Rightarrow> u64 \<Rightarrow> nat \<Rightarrow> bool" where
  "maps_to off root mem attr w p \<longleftrightarrow>
     (\<exists>d e. mapping off root mem w = Some (d, e) \<and> d \<le> 3 \<and> mmu_phys d e w = p \<and>
        (\<exists>f. e = f OR leaf_attr (lev d) attr \<and> f AND addr_mask (lev d) = f))"

lemma high_part:
  "unat ((e AND addr_mask (lev d)) OR (v AND NOT (addr_mask (lev d)))) = mmu_phys d e v + unat v div 2 ^ 48 * 2 ^ 48"
proof -
  let ?n = "page_bits (lev d)"
  have n: "?n < 48" by (cases "lev d") auto
  let ?hi = "v AND NOT (mask 48)" and ?lo = "take_bit 48 v"
  have v: "v = ?hi OR ?lo"
    by (rule bit_word_eqI) (auto simp: bit_and_iff bit_or_iff bit_not_iff bit_mask_iff bit_take_bit_iff)
  have "(e AND addr_mask (lev d)) OR (v AND NOT (addr_mask (lev d))) =
      ((e AND addr_mask (lev d)) OR (?lo AND NOT (addr_mask (lev d)))) OR ?hi"
    by (rule bit_word_eqI) (use n in \<open>auto simp: addr_mask_eq bit_and_iff bit_or_iff bit_not_iff bit_mask_iff bit_take_bit_iff\<close>)
  moreover have "((e AND addr_mask (lev d)) OR (?lo AND NOT (addr_mask (lev d)))) AND ?hi = 0"
    by (rule bit_word_eqI) (use n in \<open>auto simp: addr_mask_eq bit_and_iff bit_or_iff bit_not_iff bit_mask_iff bit_take_bit_iff\<close>)
  ultimately have "unat ((e AND addr_mask (lev d)) OR (v AND NOT (addr_mask (lev d)))) =
      unat ((e AND addr_mask (lev d)) OR (?lo AND NOT (addr_mask (lev d)))) + unat ?hi"
    by (simp only: unat_or_disjoint)
  also have "unat ((e AND addr_mask (lev d)) OR (?lo AND NOT (addr_mask (lev d)))) = mmu_phys d e v"
  proof -
    have l: "unat ?lo = unat v mod 2 ^ 48" unfolding unsigned_take_bit_eq by (rule take_bit_eq_mod)
    then have "unat ?lo mod 2 ^ ?n = unat v mod 2 ^ ?n" using n canon_mod [of ?n v] by (simp add: canon_def)
    then show ?thesis using get_page_phys [of ?lo e d] l by (simp add: mmu_phys_def)
  qed
  also have "unat ?hi = unat v div 2 ^ 48 * 2 ^ 48"
  proof -
    have "?hi AND ?lo = 0" by (rule bit_word_eqI) (auto simp: bit_and_iff bit_not_iff bit_mask_iff bit_take_bit_iff)
    then have "unat v = unat ?hi + unat ?lo" by (metis v unat_or_disjoint)
    moreover have "unat ?lo = unat v mod 2 ^ 48" unfolding unsigned_take_bit_eq by (rule take_bit_eq_mod)
    ultimately show ?thesis by (metis add_right_imp_eq div_mult_mod_eq)
  qed
  finally show ?thesis .
qed

lemma frame_dvd: "2 ^ page_bits l dvd unat (e AND addr_mask l)"
proof -
  have "take_bit (page_bits l) (e AND addr_mask l) = 0"
    by (rule bit_word_eqI) (auto simp: addr_mask_eq bit_simps)
  then have "take_bit (page_bits l) (unat (e AND addr_mask l)) = 0" by (metis unsigned_take_bit_eq unat_eq_zero)
  then show ?thesis by (simp add: take_bit_eq_0_iff)
qed

text \<open>
  A range of addresses that is covered by whole pages whose sizes divide its end, as \<open>maps\<close> leaves it. The pages are as large
  as the linear and the physical address allow if \<open>tight\<close>.
\<close>

definition tiled :: "u64 \<Rightarrow> u64 \<Rightarrow> table_mem \<Rightarrow> nat \<Rightarrow> nat \<Rightarrow> bool" where
  "tiled off root mem lo hi \<longleftrightarrow> (\<forall>w. lo \<le> canon w \<longrightarrow> canon w < hi \<longrightarrow>
     (\<exists>d e. mapping off root mem w = Some (d, e) \<and> lev d \<noteq> P4 \<and> 2 ^ page_bits (lev d) dvd hi
        \<and> lo \<le> canon w div 2 ^ page_bits (lev d) * 2 ^ page_bits (lev d)))"

definition tight :: "u64 \<Rightarrow> u64 \<Rightarrow> table_mem \<Rightarrow> nat \<Rightarrow> nat \<Rightarrow> bool" where
  "tight off root mem lo hi \<longleftrightarrow> (\<forall>w d e l. lo \<le> canon w \<longrightarrow> canon w < hi \<longrightarrow> mapping off root mem w = Some (d, e) \<longrightarrow> l \<noteq> P4
     \<longrightarrow> 2 ^ page_bits l dvd canon w \<longrightarrow> 2 ^ page_bits l dvd mmu_phys d e w \<longrightarrow> page_bits l \<le> page_bits (lev d))"

lemma tiled_empty [simp]: "tiled off root mem lo lo" "tight off root mem lo lo"
  by (auto simp: tiled_def tight_def)

text \<open>The end of the range is aligned to every page size that the linear and the physical addresses agree on.\<close>

definition aligned_end :: "u64 \<Rightarrow> u64 \<Rightarrow> u64 \<Rightarrow> bool" where
  "aligned_end vs ve phys \<longleftrightarrow>
     (\<forall>l. l \<noteq> P4 \<longrightarrow> 2 ^ page_bits l dvd int (unat vs) - int (unat phys) \<longrightarrow> 2 ^ page_bits l dvd unat ve)"

lemma fit_all_max:
  assumes "fit_all (vs, ve) phys = Inr l'" "l \<noteq> P4" "2 ^ page_bits l dvd unat vs" "2 ^ page_bits l dvd unat ve" "2 ^ page_bits l dvd unat phys"
  shows "page_bits l \<le> page_bits l'"
proof -
  have fit: "level_num l \<le> level_num a" if "level_fit v = Some a" "2 ^ page_bits l dvd unat v" for v a
    using that assms(2) page_aligned_iff [of v Pdp] page_aligned_iff [of v Pd] by (cases l) (auto simp: level_fit_def split: if_splits)
  obtain a b c where *: "level_fit vs = Some a" "vs \<le> ve" "level_fit (ve - vs) = Some b" "level_fit phys = Some c"
    "l' = level_min (level_min a b) c"
    using assms(1) by (auto simp: fit_all_def sub_chk_def rbind_Inr_conv split: if_splits)
  have "2 ^ page_bits l dvd unat (ve - vs)" using assms(3,4) *(2) by (simp add: unat_sub word_le_nat_alt dvd_diff_nat)
  then have "level_num l \<le> level_num l'"
    using fit [OF *(1) assms(3)] fit [OF *(3)] fit [OF *(4) assms(5)] *(5) by (simp add: level_min_def)
  then show ?thesis by (rule page_bits_mono)
qed

lemma tiled_cong:
  "(\<And>w. lo \<le> canon w \<Longrightarrow> canon w < hi \<Longrightarrow> mapping off root mem' w = mapping off root mem w) \<Longrightarrow> tiled off root mem' lo hi = tiled off root mem lo hi"
  unfolding tiled_def by simp

lemma tight_cong:
  "(\<And>w. lo \<le> canon w \<Longrightarrow> canon w < hi \<Longrightarrow> mapping off root mem' w = mapping off root mem w) \<Longrightarrow> tight off root mem' lo hi = tight off root mem lo hi"
  unfolding tight_def by simp

lemma multiple_less:
  assumes "(m :: nat) dvd a" "m dvd b" "a < b"
  shows "a + m \<le> b"
proof -
  have "m dvd b - a" using assms(1,2) by (simp add: dvd_diff_nat)
  then have "m \<le> b - a" using assms(3) by (intro dvd_imp_le) auto
  then show ?thesis using assms(3) by linarith
qed

text \<open>The pages behind the first \<open>2 ^ n\<close> addresses are whole pages too if \<open>n\<close> is at least the size of the first page.\<close>

lemma tiled_rest:
  assumes tiled: "tiled off root mem (canon p) hi" and p: "mapping off root mem p = Some (d, e)" and d: "d \<le> 3"
    and n: "2 ^ n dvd canon p" "page_bits (lev d) \<le> n"
  shows "tiled off root mem (canon p + 2 ^ n) hi"
  unfolding tiled_def
proof (intro allI impI)
  fix w
  assume w: "canon p + 2 ^ n \<le> canon w" "canon w < hi"
  then have "canon p \<le> canon w" by simp
  then obtain dw ew where dw: "mapping off root mem w = Some (dw, ew)" "lev dw \<noteq> P4" "2 ^ page_bits (lev dw) dvd hi"
    "canon p \<le> canon w div 2 ^ page_bits (lev dw) * 2 ^ page_bits (lev dw)"
    using tiled [unfolded tiled_def, rule_format, of w] w(2) by blast
  let ?m = "page_bits (lev dw)"
  let ?s = "canon w div 2 ^ ?m * 2 ^ ?m"
  have s: "2 ^ ?m dvd ?s" "canon w < ?s + 2 ^ ?m"
    by (rule dvd_triv_right) (subst add.commute, rule dividend_less_div_times, simp)
  have "canon p + 2 ^ n \<le> ?s"
  proof (rule ccontr)
    assume less: "\<not> ?thesis"
    show False
    proof (cases "?m \<le> n")
      case True
      then have "(2 :: nat) ^ ?m dvd 2 ^ n" by (rule le_imp_power_dvd)
      then have "2 ^ ?m dvd canon p + 2 ^ n" using n(1) by (metis dvd_add dvd_trans)
      then have "?s + 2 ^ ?m \<le> canon p + 2 ^ n" using multiple_less [OF s(1)] less by simp
      then show False using s(2) w(1) by linarith
    next
      case False
      then have "(2 :: nat) ^ n dvd 2 ^ ?m" by (intro le_imp_power_dvd) simp
      then have "2 ^ n dvd ?s" using s(1) by (rule dvd_trans)
      then have "?s = canon p" using multiple_less [OF n(1), of ?s] dw(4) less by linarith
      then have "canon p div 2 ^ ?m = canon w div 2 ^ ?m" by (metis div_mult_self_is_m nat_zero_less_power_iff zero_less_numeral)
      moreover have dw3: "dw \<le> 3" "leaf_at off root mem w dw = Some ew" using dw(1) by (auto simp: mapping_def split: option.splits)
      ultimately have "prefix (Suc dw) p = prefix (Suc dw) w" by (simp add: prefix_def canon_def page_bits_lev)
      then have "leaf_at off root mem p dw = Some ew" using leaf_at_cong [of dw p w off root mem] dw3 by simp
      then have "d = dw" using mapping_of_leaf [of off root mem p dw ew] p dw3(1) by simp
      then show False using False n(2) by simp
    qed
  qed
  then show "\<exists>d e. mapping off root mem w = Some (d, e) \<and> lev d \<noteq> P4 \<and> 2 ^ page_bits (lev d) dvd hi
      \<and> canon p + 2 ^ n \<le> canon w div 2 ^ page_bits (lev d) * 2 ^ page_bits (lev d)"
    using dw by blast
qed

lemma tiled_extend:
  assumes "tiled off root mem mid hi" "\<And>w. lo \<le> canon w \<Longrightarrow> canon w < mid \<Longrightarrow> mapping off root mem w = Some (d, e)" "lo \<le> mid"
    "lev d \<noteq> P4" "2 ^ page_bits (lev d) dvd hi" "2 ^ page_bits (lev d) dvd lo"
  shows "tiled off root mem lo hi"
  unfolding tiled_def
proof (intro allI impI)
  fix w
  assume w: "lo \<le> canon w" "canon w < hi"
  show "\<exists>d e. mapping off root mem w = Some (d, e) \<and> lev d \<noteq> P4 \<and> 2 ^ page_bits (lev d) dvd hi
      \<and> lo \<le> canon w div 2 ^ page_bits (lev d) * 2 ^ page_bits (lev d)"
  proof (cases "canon w < mid")
    case True
    obtain k where "lo = k * 2 ^ page_bits (lev d)" using assms(6) by (metis dvdE mult.commute)
    moreover from this have "k \<le> canon w div 2 ^ page_bits (lev d)" using w(1) by (simp add: less_eq_div_iff_mult_less_eq)
    ultimately show ?thesis using assms(2) [OF w(1) True] assms(4,5) by simp
  next
    case False
    then show ?thesis using assms(1,3) w(2) unfolding tiled_def by (meson le_trans not_le)
  qed
qed

lemma tight_extend:
  assumes "tight off root mem mid hi" "\<And>w. lo \<le> canon w \<Longrightarrow> canon w < mid \<Longrightarrow> mapping off root mem w = Some (d, e) \<and> mmu_phys d e w = unat phys + (canon w - lo)"
    "mid = lo + 2 ^ page_bits (lev d)" "lo = canon vs" "fit_all (vs, ve) phys = Inr (lev d)" "aligned_end vs ve phys" "d \<le> 3"
  shows "tight off root mem lo hi"
  unfolding tight_def
proof (intro allI impI)
  fix w d' e' l
  assume w: "lo \<le> canon w" "canon w < hi" "mapping off root mem w = Some (d', e')" "l \<noteq> P4" "2 ^ page_bits l dvd canon w" "2 ^ page_bits l dvd mmu_phys d' e' w"
  show "page_bits l \<le> page_bits (lev d')"
  proof (cases "canon w < mid")
    case True
    note here = assms(2) [OF w(1) True]
    have d': "d' = d" "e' = e" using here w(3) by auto
    show ?thesis
    proof (rule ccontr)
      assume big: "\<not> page_bits l \<le> page_bits (lev d')"
      have l: "page_bits l \<le> 48" "page_bits (lev d) \<le> 48" using assms(7) by (cases l; simp add: page_bits_lev)+
      have "2 ^ page_bits (lev d) dvd lo" using fit_all_dvd(2) [OF assms(5)] l(2) by (simp add: assms(4) canon_dvd)
      moreover have "2 ^ page_bits (lev d) dvd canon w" using w(5) big d'(1) power_le_dvd [of 2 "page_bits l" "canon w" "page_bits (lev d)"] by simp
      ultimately have "2 ^ page_bits (lev d) dvd canon w - lo" by (rule dvd_diff_nat [rotated])
      moreover have "canon w - lo < 2 ^ page_bits (lev d)" using True w(1) assms(3) by simp
      ultimately have "canon w - lo = 0" by (metis dvd_imp_le not_le not_gr_zero)
      then have eq: "canon w = lo" using w(1) by simp
      have vs: "2 ^ page_bits l dvd unat vs" using w(5) eq l(1) by (simp add: assms(4) canon_dvd)
      have ph: "2 ^ page_bits l dvd unat phys" using w(6) here d' eq by simp
      have "(2 :: int) ^ page_bits l dvd int (unat vs)" "(2 :: int) ^ page_bits l dvd int (unat phys)"
        using vs [THEN int_dvd_int_iff [THEN iffD2]] ph [THEN int_dvd_int_iff [THEN iffD2]] by simp_all
      then have "2 ^ page_bits l dvd unat ve" using assms(6) w(4) by (simp add: aligned_end_def)
      then show False using fit_all_max [OF assms(5) w(4) vs _ ph] big d'(1) by simp
    qed
  next
    case False
    then have "mid \<le> canon w" by simp
    then show ?thesis using assms(1) w unfolding tight_def by blast
  qed
qed

context page_alloc
begin

lemma new_page_ok:
  assumes "pt_inv off owned root st" "dl \<le> 3"
  obtains (ok) st' where "new_page pa root v phys attr (lev dl) off st = Inr (Inr (), st')" "pt_inv off owned root st'"
      "\<And>w. prefix (Suc dl) w \<noteq> prefix (Suc dl) v \<Longrightarrow> mapping off root (ps_mem st') w = mapping off root (ps_mem st) w"
      "\<And>w. prefix (Suc dl) w = prefix (Suc dl) v \<Longrightarrow>
         mapping off root (ps_mem st') w = Some (dl, entry_new phys (leaf_attr (lev dl) attr) (lev dl))"
      "\<And>k. k \<le> dl \<Longrightarrow> leaf_at off root (ps_mem st) v k = None" "\<exists>m. ps_alloc st' = after_allocs pa m (ps_alloc st)"
    | (err) e st' where "new_page pa root v phys attr (lev dl) off st = Inr (Inl e, st')" "pt_inv off owned root st'"
      "\<And>w. mapping off root (ps_mem st') w = mapping off root (ps_mem st) w"
      "e = OutOfMemory \<and> (\<exists>n < dl. fst (pa_allocate pa (after_allocs pa n (ps_alloc st))) = None) \<or>
       e = EntryExistent True \<and> (\<exists>k \<le> dl. leaf_at off root (ps_mem st) v k \<noteq> None)"
proof -
  obtain r st' where run: "new_page_from pa off v phys attr (lev dl) (lev 0) root st = Inr (r, st')"
    and inv: "pt_inv off owned root st'"
    and far: "\<And>w k. k \<le> 3 \<Longrightarrow> prefix (Suc dl) w \<noteq> prefix (Suc dl) v \<Longrightarrow>
        leaf_at off root (ps_mem st') w k = leaf_at off root (ps_mem st) w k"
    and res: "case r of
       Inr _ \<Rightarrow> leaf_at off root (ps_mem st') v dl = Some (entry_new phys (leaf_attr (lev dl) attr) (lev dl)) \<and>
         (\<forall>k. 0 \<le> k \<longrightarrow> k \<le> dl \<longrightarrow> leaf_at off root (ps_mem st) v k = None) \<and>
         (\<exists>m. ps_alloc st' = after_allocs pa m (ps_alloc st))
     | Inl e \<Rightarrow> same_leaves off root (ps_mem st) (ps_mem st') \<and>
         (e = OutOfMemory \<and> (\<exists>n < dl - 0. fst (pa_allocate pa (after_allocs pa n (ps_alloc st))) = None) \<or>
          e = EntryExistent True \<and> (\<exists>k \<le> dl. leaf_at off root (ps_mem st) v k \<noteq> None))"
    using new_page_from_ok [OF assms(1), of v 0 root dl phys attr] assms(2) by auto
  have np: "new_page pa root v phys attr (lev dl) off st = Inr (r, st')" using run by (simp add: new_page_def)
  show ?thesis
  proof (cases r)
    case (Inl e)
    have "mapping off root (ps_mem st') w = mapping off root (ps_mem st) w" for w
      using res Inl by (intro mapping_cong) (simp add: same_leaves_def)
    then show ?thesis using err [of e st'] np inv res Inl by simp
  next
    case (Inr u)
    have "mapping off root (ps_mem st') w = mapping off root (ps_mem st) w" if "prefix (Suc dl) w \<noteq> prefix (Suc dl) v" for w
      using far that by (intro mapping_cong) simp
    moreover have "mapping off root (ps_mem st') w = Some (dl, entry_new phys (leaf_attr (lev dl) attr) (lev dl))"
      if "prefix (Suc dl) w = prefix (Suc dl) v" for w
      using res Inr assms(2) leaf_at_cong [OF that] by (intro mapping_of_leaf) auto
    ultimately show ?thesis using ok [of st'] np inv res Inr by simp
  qed
qed

text \<open>One round of the loop of \<open>maps\<close>: the loop is over, the page cannot be mapped, or it is and the loop goes on behind it.\<close>

lemma maps_loop_cases:
  assumes inv: "pt_inv off owned root st" and le: "vs \<le> ve" and al: "2 ^ 12 dvd unat vs" "2 ^ 12 dvd unat ve" "2 ^ 12 dvd unat phys"
    and room: "canon vs + (unat ve - unat vs) \<le> 2 ^ 48" "unat phys + (unat ve - unat vs) \<le> 2 ^ 48" and attr: "attr AND addr_mask Pt = 0"
  obtains (finished) "vs = ve" "maps_loop pa root attr off vs ve phys st = Inr (Inr (), vs, st)"
    | (err) e st' where "maps_loop pa root attr off vs ve phys st = Inr (Inl e, vs, st')" "pt_inv off owned root st'" "vs < ve"
      "\<And>w. mapping off root (ps_mem st') w = mapping off root (ps_mem st) w"
      "e = OutOfMemory \<and> exhausted pa (ps_alloc st) \<or> e = EntryExistent True \<and> mapping off root (ps_mem st) vs \<noteq> None"
    | (ok) d e st' vs' phys' where "maps_loop pa root attr off vs ve phys st = maps_loop pa root attr off vs' ve phys' st'"
      "d \<le> 3" "fit_all (vs, ve) phys = Inr (lev d)" "pt_inv off owned root st'" "\<exists>m. ps_alloc st' = after_allocs pa m (ps_alloc st)"
      "unat vs' = unat vs + 2 ^ page_bits (lev d)" "unat phys' = unat phys + 2 ^ page_bits (lev d)" "unat vs' \<le> unat ve"
      "canon vs' = canon vs + 2 ^ page_bits (lev d) \<or> unat vs' = unat ve"
      "canon vs' + (unat ve - unat vs') \<le> 2 ^ 48"
      "\<And>w. canon w < canon vs \<or> canon vs + 2 ^ page_bits (lev d) \<le> canon w \<Longrightarrow> mapping off root (ps_mem st') w = mapping off root (ps_mem st) w"
      "\<And>w. canon vs \<le> canon w \<Longrightarrow> canon w < canon vs + 2 ^ page_bits (lev d) \<Longrightarrow> mapping off root (ps_mem st') w = Some (d, e)
         \<and> mmu_phys d e w = unat phys + (canon w - canon vs)"
      "\<exists>f. e = f OR leaf_attr (lev d) attr \<and> f AND addr_mask (lev d) = f"
proof (cases "vs < ve")
  case False
  then have "maps_loop pa root attr off vs ve phys st = Inr (Inr (), vs, st)" by (simp add: maps_loop.simps [of pa root attr off vs])
  then show ?thesis using False le finished by simp
next
  case True
  obtain d where d: "d \<le> 3" and fit: "fit_all (vs, ve) phys = Inr (lev d)"
    using fit_all_ok [OF le al] by blast
  let ?n = "page_bits (lev d)"
  have n: "12 \<le> ?n" "?n \<le> 48" using d by (auto simp: page_bits_lev)
  note step = fit_all_step [OF fit True] and dvd = fit_all_dvd [OF fit]
  have ph1: "unat phys + 2 ^ ?n \<le> 2 ^ 48" using step room(2) by simp
  moreover have "0 < (2 :: nat) ^ ?n" by simp
  ultimately have ph: "unat phys < 2 ^ 48" by linarith
  note page = same_page_iff [OF d dvd(2)]
  from inv d show ?thesis
  proof (cases rule: new_page_ok [where v = vs and phys = phys and attr = attr])
    case np: (err e st')
    have "maps_loop pa root attr off vs ve phys st = Inr (Inl e, vs, st')"
      using True fit np(1) by (simp add: maps_loop.simps [of pa root attr off vs])
    moreover have "mapping off root (ps_mem st) vs \<noteq> None" if "\<exists>k \<le> d. leaf_at off root (ps_mem st) vs k \<noteq> None"
      using that d mapping_of_leaf [of off root "ps_mem st" vs] by fastforce
    then have "e = OutOfMemory \<and> exhausted pa (ps_alloc st) \<or> e = EntryExistent True \<and> mapping off root (ps_mem st) vs \<noteq> None"
      using np(4) unfolding exhausted_def by blast
    ultimately show ?thesis using np(2,3) True err by blast
  next
    case np: (ok st')
    let ?vs = "vs + page_size (lev d)" and ?ph = "phys + page_size (lev d)" and ?e = "entry_new phys (leaf_attr (lev d) attr) (lev d)"
    have vs: "unat ?vs = unat vs + 2 ^ ?n" "unat ?vs \<le> unat ve" using step by auto
    have chk: "add_chk phys (page_size (lev d)) = Inr ?ph" and ph': "unat ?ph = unat phys + 2 ^ ?n"
      using ph1 by (simp_all add: add_chk_def unat_page_size unat_word_ariths)
    have eq: "maps_loop pa root attr off vs ve phys st = maps_loop pa root attr off ?vs ve ?ph st'"
      using True fit np(1) chk by (simp add: maps_loop.simps [of pa root attr off vs])
    have cv: "canon ?vs = canon vs + 2 ^ ?n \<or> unat ?vs = unat ve"
    proof (cases "canon vs + 2 ^ ?n < 2 ^ 48")
      case True
      then show ?thesis unfolding canon_def vs(1) by (metis mod_add_left_eq mod_less)
    next
      case False
      then show ?thesis using room(1) step(2) vs(1) by linarith
    qed
    have "canon ?vs < 2 ^ 48" unfolding canon_def by simp
    then have room': "canon ?vs + (unat ve - unat ?vs) \<le> 2 ^ 48" using cv room(1) vs(1) step(2) by linarith
    have far: "mapping off root (ps_mem st') w = mapping off root (ps_mem st) w"
      if "canon w < canon vs \<or> canon vs + 2 ^ ?n \<le> canon w" for w
      using that np(3) [of w] page [of w] by auto
    have near: "mapping off root (ps_mem st') w = Some (d, ?e) \<and> mmu_phys d ?e w = unat phys + (canon w - canon vs)"
      if w: "canon vs \<le> canon w" "canon w < canon vs + 2 ^ ?n" for w
    proof -
      have "2 ^ ?n dvd canon vs" using dvd(2) n by (simp add: canon_dvd)
      then have "canon w mod 2 ^ ?n = (canon w - canon vs) mod 2 ^ ?n"
        using w(1) by (metis dvd_imp_mod_0 le_add_diff_inverse mod_add_left_eq add_0)
      then have "unat w mod 2 ^ ?n = canon w - canon vs" using w n by (simp add: canon_mod)
      moreover have "?e AND addr_mask (lev d) = phys" by (rule leaf_frame [OF attr dvd(4) ph])
      ultimately show ?thesis using np(4) [of w] page [of w] w by (simp add: mmu_phys_def)
    qed
    have "\<exists>f. ?e = f OR leaf_attr (lev d) attr \<and> f AND addr_mask (lev d) = f"
      by (intro exI [of _ "phys AND addr_mask (lev d)"]) (simp add: entry_new_def and.assoc)
    then show ?thesis using ok [OF eq d fit np(2,6) vs(1) ph' vs(2) cv room' far near] by blast
  qed
qed

lemma maps_loop_ok:
  assumes "pt_inv off owned root st" "vs \<le> ve" "2 ^ 12 dvd unat vs" "2 ^ 12 dvd unat ve" "2 ^ 12 dvd unat phys"
    "canon vs + (unat ve - unat vs) \<le> 2 ^ 48" "unat phys + (unat ve - unat vs) \<le> 2 ^ 48" "attr AND addr_mask Pt = 0"
  shows "\<exists>r rem st'. maps_loop pa root attr off vs ve phys st = Inr (r, rem, st') \<and> pt_inv off owned root st' \<and>
    vs \<le> rem \<and> rem \<le> ve \<and> (r = Inr () \<longrightarrow> rem = ve) \<and>
    (\<forall>l. l \<noteq> P4 \<longrightarrow> 2 ^ page_bits l dvd unat vs \<longrightarrow> 2 ^ page_bits l dvd unat ve \<longrightarrow> 2 ^ page_bits l dvd unat phys \<longrightarrow>
       2 ^ page_bits l dvd unat rem) \<and>
    (\<forall>w. canon w < canon vs \<or> canon vs + (unat rem - unat vs) \<le> canon w \<longrightarrow>
       mapping off root (ps_mem st') w = mapping off root (ps_mem st) w) \<and>
    (\<forall>w. canon vs \<le> canon w \<longrightarrow> canon w < canon vs + (unat rem - unat vs) \<longrightarrow>
       maps_to off root (ps_mem st') attr w (unat phys + (canon w - canon vs))) \<and>
    tiled off root (ps_mem st') (canon vs) (canon vs + (unat rem - unat vs)) \<and>
    (aligned_end vs ve phys \<longrightarrow> tight off root (ps_mem st') (canon vs) (canon vs + (unat rem - unat vs))) \<and>
    (\<forall>e. r = Inl e \<longrightarrow> e = OutOfMemory \<and> exhausted pa (ps_alloc st) \<or> e = EntryExistent True \<and>
       (\<exists>w. canon vs \<le> canon w \<and> canon w < canon vs + (unat ve - unat vs) \<and> mapping off root (ps_mem st) w \<noteq> None))"
  (is "\<exists>r rem st'. ?P vs phys st r rem st'")
  using assms
proof (induction "unat ve - unat vs" arbitrary: vs phys st rule: less_induct)
  case less
  from less.prems show ?case
  proof (cases rule: maps_loop_cases)
    case finished
    then have "?P vs phys st (Inr ()) vs st" using less.prems by (simp add: tiled_def tight_def)
    then show ?thesis by blast
  next
    case (err e st')
    have "unat vs < unat ve" using err(3) by (simp add: word_less_nat_alt)
    then have "e = OutOfMemory \<and> exhausted pa (ps_alloc st) \<or> e = EntryExistent True \<and>
       (\<exists>w. canon vs \<le> canon w \<and> canon w < canon vs + (unat ve - unat vs) \<and> mapping off root (ps_mem st) w \<noteq> None)"
      using err(5) by (metis le_refl less_add_same_cancel1 zero_less_diff)
    then have "?P vs phys st (Inl e) vs st'" using less.prems err by (simp add: tiled_def tight_def)
    then show ?thesis by blast
  next
    case (ok d e st' vs' phys')
    let ?n = "page_bits (lev d)"
    have n: "12 \<le> ?n" "?n \<le> 48" using ok(2) by (auto simp: page_bits_lev)
    note dvd = fit_all_dvd [OF ok(3)]
    have al: "2 ^ 12 dvd (2 :: nat) ^ ?n" using n(1) by (rule le_imp_power_dvd)
    have smaller: "unat ve - unat vs' < unat ve - unat vs" using ok(6,8) by (metis diff_less_mono2 less_add_same_cancel1 less_le_trans zero_less_numeral zero_less_power)
    have pre: "vs' \<le> ve" "2 ^ 12 dvd unat vs'" "2 ^ 12 dvd unat phys'" "unat phys' + (unat ve - unat vs') \<le> 2 ^ 48"
      unfolding ok(6,7) using less.prems(3,5,7) al ok(6,8) by (auto simp: word_le_nat_alt)
    obtain r rem st'' where IH: "?P vs' phys' st' r rem st''"
      using less.hyps [OF smaller ok(4) pre(1,2) less.prems(4) pre(3) ok(10) pre(4) less.prems(8)] by blast
    have rem: "unat vs' \<le> unat rem" "unat rem \<le> unat ve" using IH by (auto simp: word_le_nat_alt)
    let ?mid = "canon vs + 2 ^ ?n" and ?hi = "canon vs + (unat rem - unat vs)"
    have hi: "?hi = ?mid + (unat rem - unat vs')" using rem ok(6) by simp
    have cv: "canon vs' = ?mid" if "unat rem \<noteq> unat vs'" using ok(9) rem that by auto
    have fr: "mapping off root (ps_mem st'') w = mapping off root (ps_mem st') w" if "canon w < ?mid \<or> ?hi \<le> canon w" for w
    proof (cases "unat rem = unat vs'")
      case True
      then show ?thesis using IH by (cases "canon w < canon vs'") auto
    next
      case False
      then show ?thesis using IH that hi cv by auto
    qed
    have page: "mapping off root (ps_mem st'') w = Some (d, e) \<and> mmu_phys d e w = unat phys + (canon w - canon vs)"
      if "canon vs \<le> canon w" "canon w < ?mid" for w
      using fr [of w] ok(12) that by simp
    have far: "mapping off root (ps_mem st'') w = mapping off root (ps_mem st) w" if "canon w < canon vs \<or> ?hi \<le> canon w" for w
      using fr [of w] ok(11) [of w] that hi by auto
    have near: "maps_to off root (ps_mem st'') attr w (unat phys + (canon w - canon vs))" if "canon vs \<le> canon w" "canon w < ?hi" for w
    proof (cases "canon w < ?mid")
      case True
      then show ?thesis using page that(1) ok(2,13) unfolding maps_to_def by blast
    next
      case False
      then have "canon vs' = ?mid" using cv that hi by auto
      then show ?thesis using IH False that hi ok(7) by auto
    qed
    have "2 ^ page_bits l dvd unat rem" if l: "l \<noteq> P4" "2 ^ page_bits l dvd unat vs" "2 ^ page_bits l dvd unat ve" "2 ^ page_bits l dvd unat phys" for l
    proof -
      have "2 ^ page_bits l dvd (2 :: nat) ^ ?n" using fit_all_max [OF ok(3) l] by (rule le_imp_power_dvd)
      then show ?thesis using IH l ok(6,7) by (metis dvd_add)
    qed
    note rdvd = this
    have tiled: "tiled off root (ps_mem st'') (canon vs) ?hi"
    proof (rule tiled_extend)
      show "tiled off root (ps_mem st'') ?mid ?hi" unfolding hi using IH cv by (cases "unat rem = unat vs'") auto
      have "2 ^ ?n dvd unat rem" by (rule rdvd [OF dvd(5,2,3,4)])
      then have "2 ^ ?n dvd unat rem - unat vs" using dvd(2) by (rule dvd_diff_nat)
      moreover show "2 ^ ?n dvd canon vs" using dvd(2) n(2) by (simp add: canon_dvd)
      ultimately show "2 ^ ?n dvd ?hi" by (rule dvd_add [rotated])
    qed (use page dvd(5) in auto)
    have tight: "tight off root (ps_mem st'') (canon vs) ?hi" if ae: "aligned_end vs ve phys"
    proof (rule tight_extend [where vs = vs and ve = ve and phys = phys and d = d and e = e])
      have "aligned_end vs' ve phys'" using ae by (simp add: aligned_end_def ok(6,7))
      then show "tight off root (ps_mem st'') ?mid ?hi" unfolding hi using IH cv by (cases "unat rem = unat vs'") auto
    qed (use page ok(2,3) ae in auto)
    have why: "e' = OutOfMemory \<and> exhausted pa (ps_alloc st) \<or> e' = EntryExistent True \<and>
        (\<exists>w. canon vs \<le> canon w \<and> canon w < canon vs + (unat ve - unat vs) \<and> mapping off root (ps_mem st) w \<noteq> None)"
      if r: "r = Inl e'" for e'
    proof (cases "e' = OutOfMemory")
      case True
      then have "exhausted pa (ps_alloc st')" using IH r by auto
      then show ?thesis using True ok(5) unfolding exhausted_def by (metis after_allocs_add)
    next
      case False
      then obtain w where w: "e' = EntryExistent True" "canon vs' \<le> canon w" "canon w < canon vs' + (unat ve - unat vs')"
        "mapping off root (ps_mem st') w \<noteq> None"
        using IH r by blast
      then have "canon vs' = ?mid" using ok(9) by linarith
      then have "canon vs \<le> canon w" "canon w < canon vs + (unat ve - unat vs)" "?mid \<le> canon w" using w(2,3) ok(6,8) by linarith+
      then show ?thesis using w(1,4) ok(11) [of w] by metis
    qed
    have "vs \<le> rem" "rem \<le> ve" using rem ok(6) by (simp_all add: word_le_nat_alt)
    then have "?P vs phys st r rem st''" using IH ok(1) rdvd far near tiled tight why by simp
    then show ?thesis by blast
  qed
qed

lemma unmaps_round:
  assumes "pt_inv off owned root st" "p \<le> rem" "2 ^ 12 dvd unat p" "2 ^ 12 dvd unat rem" "p < rem"
    "mapping off root (ps_mem st) p = Some (d, e)" "lev d \<noteq> P4" "2 ^ page_bits (lev d) dvd canon p + (unat rem - unat p)"
    "canon p \<le> canon p div 2 ^ page_bits (lev d) * 2 ^ page_bits (lev d)"
  obtains d' st1 where "unmaps_loop pa root off p rem st = unmaps_loop pa root off (p + page_size (lev d')) rem st1"
    "d' \<le> d" "d \<le> 3" "2 ^ page_bits (lev d') dvd unat p" "2 ^ page_bits (lev d') dvd mmu_phys d e p" "lev d' \<noteq> P4"
    "unat (p + page_size (lev d')) = unat p + 2 ^ page_bits (lev d')" "unat p + 2 ^ page_bits (lev d') \<le> unat rem" "2 ^ page_bits (lev d') dvd unat rem"
    "pt_inv off owned root st1"
    "if d' = d then \<forall>w. mapping off root (ps_mem st1) w = (if prefix (Suc d) w = prefix (Suc d) p then None else mapping off root (ps_mem st) w) else st1 = st"
    "\<forall>l. l \<noteq> P4 \<longrightarrow> 2 ^ page_bits l dvd unat p \<longrightarrow> 2 ^ page_bits l dvd unat rem \<longrightarrow> 2 ^ page_bits l dvd mmu_phys d e p \<longrightarrow>
       page_bits l \<le> page_bits (lev d')"
proof -
  let ?n = "page_bits (lev d)" and ?ph = "(e AND addr_mask (lev d)) OR (p AND NOT (addr_mask (lev d)))"
  note ok = assms(1) [unfolded pt_inv_def]
  have d: "d \<le> 3" "leaf_at off root (ps_mem st) p d = Some e" using assms(6) by (auto simp: mapping_def split: option.splits)
  have n: "12 \<le> ?n" "?n \<le> 48" using d(1) by (auto simp: page_bits_lev)
  have p: "2 ^ ?n dvd canon p" using assms(9) by (metis dvd_triv_right le_antisym div_times_less_eq_dividend)
  then have p': "2 ^ ?n dvd unat p" using n(2) by (simp add: canon_dvd)
  have "2 ^ ?n dvd unat rem - unat p" using assms(8) p by (simp add: dvd_add_right_iff)
  then have rem: "2 ^ ?n dvd unat rem" using p' assms(2) by (metis dvd_diffD word_le_nat_alt)
  have "2 ^ ?n dvd unat (e AND addr_mask (lev d))" by (rule frame_dvd)
  moreover have "unat p mod 2 ^ ?n = 0" using p' by simp
  ultimately have ph: "2 ^ ?n dvd mmu_phys d e p" by (simp add: mmu_phys_def)
  have dvd48: "2 ^ k dvd unat ?ph \<longleftrightarrow> 2 ^ k dvd mmu_phys d e p" if "k \<le> 48" for k
  proof -
    have "(2 :: nat) ^ k dvd unat p div 2 ^ 48 * 2 ^ 48" using that by (intro dvd_mult) (rule le_imp_power_dvd)
    then show ?thesis by (simp add: high_part dvd_add_left_iff)
  qed
  have ph': "2 ^ ?n dvd unat ?ph" using dvd48 [OF n(2)] ph by simp
  then have "2 ^ 12 dvd unat ?ph" using n(1) power_le_dvd by blast
  then obtain d' where d': "d' \<le> 3" and fit: "fit_all (p, rem) ?ph = Inr (lev d')" using fit_all_ok [OF assms(2-4)] by blast
  note step = fit_all_step [OF fit assms(5)] and dvd = fit_all_dvd [OF fit]
  have "page_bits (lev d) \<le> page_bits (lev d')" by (rule fit_all_max [OF fit assms(7) p' rem ph'])
  then have le: "d' \<le> d" using d(1) d' by (simp add: page_bits_lev)
  have "2 ^ page_bits (lev d') dvd mmu_phys d e p" using dvd48 [of "page_bits (lev d')"] dvd(4) d' by (simp add: page_bits_lev)
  note facts = le d(1) dvd(2) this dvd(5) step dvd(3)
  have max: "\<forall>l. l \<noteq> P4 \<longrightarrow> 2 ^ page_bits l dvd unat p \<longrightarrow> 2 ^ page_bits l dvd unat rem \<longrightarrow> 2 ^ page_bits l dvd mmu_phys d e p \<longrightarrow>
      page_bits l \<le> page_bits (lev d')"
  proof (intro allI impI)
    fix l
    assume l: "l \<noteq> P4" "2 ^ page_bits l dvd unat p" "2 ^ page_bits l dvd unat rem" "2 ^ page_bits l dvd mmu_phys d e p"
    have "page_bits l \<le> 48" by (cases l) simp_all
    then show "page_bits l \<le> page_bits (lev d')" using fit_all_max [OF fit l(1,2,3)] dvd48 l(4) by simp
  qed
  have q: "get_page root p off (ps_mem st) = Inr (Inr (?ph, e AND ATTR_ALL))" using get_page_ok [OF ok] assms(6) by simp
  have eq: "unmaps_loop pa root off p rem st = unmaps_loop pa root off (p + page_size (lev d')) rem st1"
    if "drop_page pa root p (lev d') off st = Inr (r, st1)" for r st1
    using assms(5) q fit that by (simp add: unmaps_loop.simps [of pa root off p] phys_or_zero_def)
  show ?thesis
  proof (cases "d' = d")
    case True
    show ?thesis
    proof (rule drop_page_ok [OF assms(1) d])
      fix st1
      assume "drop_page pa root p (lev d) off st = Inr (Inr (), st1)" "pt_inv off owned root st1"
        "\<And>w. mapping off root (ps_mem st1) w = (if prefix (Suc d) w = prefix (Suc d) p then None else mapping off root (ps_mem st) w)"
      then show ?thesis using that [of d' st1] facts eq True max by simp
    qed
  next
    case False
    then have "drop_page pa root p (lev d') off st = Inr (Inl (EntryExistent False), st)"
      using drop_page_skip [OF ok d(2) _ d(1), of d' pa] le by simp
    then show ?thesis using that [of d' st] facts eq False assms(1) max by simp
  qed
qed

lemma unmaps_loop_tiled:
  assumes "pt_inv off owned root st" "p \<le> rem" "2 ^ 12 dvd unat p" "2 ^ 12 dvd unat rem" "canon p + (unat rem - unat p) \<le> 2 ^ 48"
    "tiled off root (ps_mem st) (canon p) (canon p + (unat rem - unat p))"
  shows "\<exists>st'. unmaps_loop pa root off p rem st = Inr st' \<and> pt_inv off owned root st' \<and>
    (\<forall>w. canon w < canon p \<or> canon p + (unat rem - unat p) \<le> canon w \<longrightarrow> mapping off root (ps_mem st') w = mapping off root (ps_mem st) w) \<and>
    (\<forall>w. mapping off root (ps_mem st') w = None \<or> mapping off root (ps_mem st') w = mapping off root (ps_mem st) w) \<and>
    (tight off root (ps_mem st) (canon p) (canon p + (unat rem - unat p)) \<longrightarrow>
      (\<forall>w. canon p \<le> canon w \<longrightarrow> canon w < canon p + (unat rem - unat p) \<longrightarrow> mapping off root (ps_mem st') w = None))"
  (is "\<exists>st'. ?P p st st'")
  using assms
proof (induction "unat rem - unat p" arbitrary: p st rule: less_induct)
  case less
  note ok = less.prems(1) [unfolded pt_inv_def]
  show ?case
  proof (cases "p < rem")
    case False
    have "unmaps_loop pa root off p rem st = Inr st" using False by (simp add: unmaps_loop.simps [of pa root off p])
    then have "?P p st st" using False less.prems(1,2) by simp
    then show ?thesis by blast
  next
    case True
    let ?hi = "canon p + (unat rem - unat p)"
    have lt: "unat p < unat rem" using True by (simp add: word_less_nat_alt)
    then obtain d e where de: "mapping off root (ps_mem st) p = Some (d, e)" "lev d \<noteq> P4" "2 ^ page_bits (lev d) dvd ?hi"
      "canon p \<le> canon p div 2 ^ page_bits (lev d) * 2 ^ page_bits (lev d)"
      using less.prems(6) unfolding tiled_def by (metis le_refl less_add_same_cancel1 zero_less_diff)
    obtain d' st1 where step: "unmaps_loop pa root off p rem st = unmaps_loop pa root off (p + page_size (lev d')) rem st1"
      "d' \<le> d" "d \<le> 3" "2 ^ page_bits (lev d') dvd unat p" "2 ^ page_bits (lev d') dvd mmu_phys d e p" "lev d' \<noteq> P4"
      "unat (p + page_size (lev d')) = unat p + 2 ^ page_bits (lev d')" "unat p + 2 ^ page_bits (lev d') \<le> unat rem" "2 ^ page_bits (lev d') dvd unat rem"
      "pt_inv off owned root st1"
      "if d' = d then \<forall>w. mapping off root (ps_mem st1) w = (if prefix (Suc d) w = prefix (Suc d) p then None else mapping off root (ps_mem st) w) else st1 = st"
      by (rule unmaps_round [OF less.prems(1-4) True de])
    let ?n = "page_bits (lev d')" and ?p = "p + page_size (lev d')"
    let ?mid = "canon p + 2 ^ ?n"
    have n: "12 \<le> ?n" "?n \<le> 48" using step(2,3) by (auto simp: page_bits_lev)
    have le: "page_bits (lev d) \<le> ?n" using step(2,3) by (simp add: page_bits_lev)
    have cp: "2 ^ ?n dvd canon p" using step(4) n(2) by (simp add: canon_dvd)
    have hi: "?hi = ?mid + (unat rem - unat ?p)" using step(7,8) by simp
    have cv: "canon ?p = ?mid \<or> unat ?p = unat rem"
    proof (cases "?mid < 2 ^ 48")
      case True
      then show ?thesis unfolding canon_def step(7) by (metis mod_add_left_eq mod_less)
    next
      case False
      then show ?thesis using less.prems(5) step(7,8) by linarith
    qed
    have st1: "mapping off root (ps_mem st1) w = (if d' = d \<and> canon p \<le> canon w \<and> canon w < ?mid then None else mapping off root (ps_mem st) w)" for w
      using step(11) same_page_iff [OF step(3), of p w] step(4) by (cases "d' = d") auto
    have "tiled off root (ps_mem st) ?mid ?hi" by (rule tiled_rest [OF less.prems(6) de(1) step(3) cp le])
    then have "tiled off root (ps_mem st1) ?mid ?hi" using tiled_cong [of ?mid ?hi off root "ps_mem st1" "ps_mem st"] st1 by simp
    then have t1: "tiled off root (ps_mem st1) (canon ?p) (canon ?p + (unat rem - unat ?p))"
      unfolding hi using cv by (cases "unat ?p = unat rem") auto
    have "canon ?p < 2 ^ 48" unfolding canon_def by simp
    then have room: "canon ?p + (unat rem - unat ?p) \<le> 2 ^ 48" using cv less.prems(5) hi by linarith
    have smaller: "unat rem - unat ?p < unat rem - unat p"
      using step(7,8) by (metis diff_less_mono2 less_add_same_cancel1 less_le_trans zero_less_numeral zero_less_power)
    have "2 ^ 12 dvd (2 :: nat) ^ ?n" using n(1) by (rule le_imp_power_dvd)
    then have "2 ^ 12 dvd unat ?p" unfolding step(7) using less.prems(3) by (rule dvd_add [rotated])
    moreover have "?p \<le> rem" using step(7,8) by (simp add: word_le_nat_alt)
    ultimately obtain st' where IH: "?P ?p st1 st'"
      using less.hyps [OF smaller step(10) _ _ less.prems(4) room t1] by blast
    have fr: "mapping off root (ps_mem st') w = mapping off root (ps_mem st1) w" if "canon w < ?mid \<or> ?hi \<le> canon w" for w
    proof (cases "unat ?p = unat rem")
      case True
      then show ?thesis using IH by (cases "canon w < canon ?p") auto
    next
      case False
      then show ?thesis using IH that hi cv by auto
    qed
    have far: "mapping off root (ps_mem st') w = mapping off root (ps_mem st) w" if "canon w < canon p \<or> ?hi \<le> canon w" for w
      using fr [of w] st1 [of w] that hi by auto
    have any: "mapping off root (ps_mem st') w = None \<or> mapping off root (ps_mem st') w = mapping off root (ps_mem st) w" for w
      using IH st1 [of w] by (auto split: if_splits)
    have all: "mapping off root (ps_mem st') w = None" if tight: "tight off root (ps_mem st) (canon p) ?hi" and w: "canon p \<le> canon w" "canon w < ?hi" for w
    proof (cases "canon w < ?mid")
      case True
      have "canon p < ?hi" using lt by simp
      then have "?n \<le> page_bits (lev d)" using tight de(1) step(5,6) cp unfolding tight_def by blast
      then have "d' = d" using le step(2,3) by (simp add: page_bits_lev)
      then show ?thesis using fr [of w] st1 [of w] True w(1) by simp
    next
      case False
      then have mid: "canon ?p = ?mid" using cv w(2) hi by auto
      have "tight off root (ps_mem st) ?mid ?hi" using tight unfolding tight_def by (meson le_add1 le_trans)
      then have "tight off root (ps_mem st1) ?mid ?hi" using tight_cong [of ?mid ?hi off root "ps_mem st1" "ps_mem st"] st1 by simp
      then show ?thesis using IH False w(2) mid unfolding hi by auto
    qed
    have "unmaps_loop pa root off p rem st = Inr st'" "pt_inv off owned root st'" using IH step(1) by simp_all
    then have "?P p st st'" using far any all by blast
    then show ?thesis by blast
  qed
qed

text \<open>
  The roll-back of \<open>maps\<close> is incomplete when it is aligned to a larger page size than the pages: if a range of 4 KB pages, its
  end and its physical memory are aligned to 2 MB, as for a failed \<open>maps\<close> whose range goes on to an end that is not, nothing is unmapped.
\<close>

lemma unmaps_skips_aligned:
  assumes "pt_inv off owned root st" "p \<le> rem" "2 ^ 21 dvd unat p" "2 ^ 21 dvd unat rem" "canon p + (unat rem - unat p) \<le> 2 ^ 48"
    "\<And>w. canon p \<le> canon w \<Longrightarrow> canon w < canon p + (unat rem - unat p) \<Longrightarrow>
      \<exists>e. mapping off root (ps_mem st) w = Some (3, e) \<and> (2 ^ 21 dvd canon w \<longrightarrow> 2 ^ 21 dvd mmu_phys 3 e w)"
  shows "unmaps_loop pa root off p rem st = Inr st"
  using assms
proof (induction "unat rem - unat p" arbitrary: p rule: less_induct)
  case less
  show ?case
  proof (cases "p < rem")
    case False
    then show ?thesis by (simp add: unmaps_loop.simps [of pa root off p])
  next
    case True
    then have lt: "unat p < unat rem" by (simp add: word_less_nat_alt)
    have dvd: "(2 :: nat) ^ 12 dvd 2 ^ 21" by (rule le_imp_power_dvd) simp
    have al: "2 ^ 12 dvd unat p" "2 ^ 12 dvd unat rem" using less.prems(3,4) by (blast intro: dvd_trans [OF dvd])+
    have cp: "2 ^ 21 dvd canon p" "2 ^ 12 dvd canon p" using less.prems(3) al(1) canon_dvd [of 21 p] canon_dvd [of 12 p] by simp_all
    have "canon p < canon p + (unat rem - unat p)" using lt by linarith
    then obtain e where e: "mapping off root (ps_mem st) p = Some (3, e)" "2 ^ 21 dvd mmu_phys 3 e p"
      using less.prems(6) [of p] cp(1) by blast
    have hi: "2 ^ page_bits (lev 3) dvd canon p + (unat rem - unat p)" using cp(2) al by (simp add: dvd_diff_nat)
    have start: "canon p \<le> canon p div 2 ^ page_bits (lev 3) * 2 ^ page_bits (lev 3)" using cp(2) by simp
    obtain d' st1 where step: "unmaps_loop pa root off p rem st = unmaps_loop pa root off (p + page_size (lev d')) rem st1"
      "d' \<le> 3" "2 ^ page_bits (lev d') dvd unat p" "unat (p + page_size (lev d')) = unat p + 2 ^ page_bits (lev d')"
      "unat p + 2 ^ page_bits (lev d') \<le> unat rem" "if d' = 3 then True else st1 = st" "page_bits Pd \<le> page_bits (lev d')"
      by (rule unmaps_round [OF less.prems(1,2) al True e(1) _ hi start]) (use less.prems(3,4) e(2) in \<open>auto split: if_splits\<close>)
    then have st1: "st1 = st" by (auto split: if_splits)
    let ?p = "p + page_size (lev d')" and ?n = "page_bits (lev d')"
    have "(2 :: nat) ^ 21 dvd 2 ^ ?n" using step(7) by (intro le_imp_power_dvd) simp
    then have p21: "2 ^ 21 dvd unat ?p" unfolding step(4) using less.prems(3) by (rule dvd_add [rotated])
    have cv: "canon ?p = canon p + 2 ^ ?n \<or> unat ?p = unat rem"
    proof (cases "canon p + 2 ^ ?n < 2 ^ 48")
      case True
      then show ?thesis unfolding canon_def step(4) by (metis mod_add_left_eq mod_less)
    next
      case False
      then show ?thesis using less.prems(5) step(4,5) by linarith
    qed
    have "canon ?p < 2 ^ 48" unfolding canon_def by simp
    then have room: "canon ?p + (unat rem - unat ?p) \<le> 2 ^ 48" using cv less.prems(5) step(4,5) by linarith
    have smaller: "unat rem - unat ?p < unat rem - unat p"
      using step(4,5) by (metis diff_less_mono2 less_add_same_cancel1 less_le_trans zero_less_numeral zero_less_power)
    have "?p \<le> rem" using step(4,5) by (simp add: word_le_nat_alt)
    have "unmaps_loop pa root off ?p rem st = Inr st"
    proof (rule less.hyps [OF smaller less.prems(1) \<open>?p \<le> rem\<close> p21 less.prems(4) room])
      fix w assume w: "canon ?p \<le> canon w" "canon w < canon ?p + (unat rem - unat ?p)"
      then have "canon p \<le> canon w" "canon w < canon p + (unat rem - unat p)" using cv step(4,5) by linarith+
      then show "\<exists>e. mapping off root (ps_mem st) w = Some (3, e) \<and> (2 ^ 21 dvd canon w \<longrightarrow> 2 ^ 21 dvd mmu_phys 3 e w)" by (rule less.prems(6))
    qed
    then show ?thesis using step(1) st1 by simp
  qed
qed

end

section \<open>A reference instance of the allocator interface\<close>

text \<open>The lowest of 63 pages that is not handed out; the state is the list of pages handed out.\<close>

definition ref_pa :: "u64 list page_alloc_ops" where
  "ref_pa = \<lparr>pa_allocate = (\<lambda>s. case find (\<lambda>p. p \<notin> set s) (map (\<lambda>k. of_nat k * 4096) [1..<64]) of
                       None \<Rightarrow> (None, s) | Some p \<Rightarrow> (Some p, p # s)),
             pa_deallocate = (\<lambda>p s. filter (\<lambda>q. q \<noteq> p) s)\<rparr>"

lemma ref_page:
  assumes "1 \<le> k" "k < 64"
  shows "(of_nat k * 4096 :: u64) AND addr_mask Pt = of_nat k * 4096 \<and> (of_nat k * 4096 :: u64) \<noteq> 0"
proof -
  have u: "unat (of_nat k * 4096 :: u64) = k * 4096"
    using assms by (simp add: unat_word_ariths unat_of_nat_lt)
  have "entry_new (of_nat k * 4096) (leaf_attr Pt 0) Pt AND addr_mask Pt = of_nat k * 4096"
    by (rule leaf_frame) (use u assms in \<open>auto simp: dvd_def\<close>)
  moreover have "(leaf_attr Pt 0) AND addr_mask Pt = 0" by (simp add: leaf_attr_0 PRESENT_def)
  ultimately have "(of_nat k * 4096 :: u64) AND addr_mask Pt = of_nat k * 4096"
    unfolding entry_new_def bit.conj_disj_distrib2 by (simp only: and.assoc and.idem) simp
  moreover have "(of_nat k * 4096 :: u64) \<noteq> 0" using u assms by (metis mult_eq_0_iff not_one_le_zero numeral_eq_one_iff unat_eq_zero zero_neq_numeral)
  ultimately show ?thesis by blast
qed

interpretation ref_alloc: page_alloc ref_pa set 0
proof
  fix s p s'
  assume "pa_allocate ref_pa s = (Some p, s')"
  then obtain "find (\<lambda>p. p \<notin> set s) (map (\<lambda>k. of_nat k * 4096) [1..<64]) = Some p" and s': "s' = p # s"
    by (auto simp: ref_pa_def split: option.splits)
  then have p: "p \<notin> set s" "p \<in> set (map (\<lambda>k. of_nat k * 4096) [1..<64])"
    by (metis find_Some_iff, metis find_Some_iff nth_mem)
  then obtain k where "1 \<le> k" "k < 64" "p = of_nat k * 4096" by auto
  then show "p \<notin> set s \<and> set s' = insert p (set s) \<and> p AND addr_mask Pt = p \<and> unat p + unat (0 :: u64) < 2 ^ 64 \<and> p + 0 \<noteq> 0"
    using p(1) s' ref_page [of k] unat_lt_pow [of p] by simp
next
  fix s s'
  assume "pa_allocate ref_pa s = (None, s')"
  then show "set s' = set s" by (auto simp: ref_pa_def split: option.splits)
next
  fix p s
  show "set (pa_deallocate ref_pa p s) = set s - {p}" by (auto simp: ref_pa_def)
qed

text \<open>An empty root table on the page 63 of that allocator.\<close>

definition sample_root :: u64 where "sample_root = 0x3F000"

definition sample_pt :: "u64 list pstate" where
  "sample_pt = \<lparr>ps_mem = (\<lambda>_ _. 0), ps_alloc = [0x3F000]\<rparr>"

lemma sample_wt: "wt 0 sample_root (ps_mem sample_pt) v d = (if d = 0 then Some sample_root else None)"
  by (induction d) (simp_all add: sample_pt_def sub_table_def)

lemma sample_pt_inv: "pt_inv 0 set sample_root sample_pt"
proof -
  have [simp]: "ps_mem sample_pt t i = 0" "ps_alloc sample_pt = [sample_root]" for t i
    by (simp_all add: sample_pt_def sample_root_def)
  show ?thesis
    by (auto simp: pt_inv_def tree_ok_def sample_wt prefix_def split: if_splits)
qed

lemma sample_unmapped: "mapping 0 sample_root (ps_mem sample_pt) v = None"
proof -
  have "leaf_at 0 sample_root (ps_mem sample_pt) v d = None" for d
    by (simp add: leaf_at_def sample_wt) (simp add: sample_pt_def)
  then show ?thesis by (simp add: mapping_def)
qed

section \<open>Properties\<close>

text \<open>
  C17. Reading a mapping. On a well-formed tree \<open>get_page\<close> finds the leaf that
  translates the address, and fails exactly when there is none. The physical
  address it returns is the one the processor computes plus the upper 16 bits of
  the linear address, so it is right exactly for addresses below \<open>2 ^ 48\<close>.
\<close>

theorem get_page_correct:
  assumes "tree_ok off root mem pages"
  shows "(mapping off root mem v = None \<longrightarrow> get_page root v off mem = Inr (Inl (EntryExistent False))) \<and>
    (\<forall>d e. mapping off root mem v = Some (d, e) \<longrightarrow>
       (\<exists>p. get_page root v off mem = Inr (Inr (p, e AND ATTR_ALL)) \<and>
          unat p = mmu_phys d e v + unat v div 2 ^ 48 * 2 ^ 48))"
  using get_page_ok [OF assms, of v] high_part by auto

theorem get_page_correct_witness:
  "get_page sample_root 0x1000 0 (ps_mem sample_pt) = Inr (Inl (EntryExistent False))"
  using get_page_correct [OF sample_pt_inv [unfolded pt_inv_def], of "0x1000"] sample_unmapped by simp

text \<open>
  C16. Creating a mapping of one page. For a well-formed tree and a well-behaved
  allocator \<open>new_page\<close> never panics and keeps the tree well-formed. It succeeds
  unless there is a leaf on the path of the address down to the level of the page or one of the
  at most \<open>d\<close> requests for a table fails. On success the addresses of the page are translated by the new entry, also
  those that smaller pages translated before, and every other address keeps its mapping. On an error every
  address keeps its mapping.
\<close>

theorem new_page_correct:
  assumes "page_alloc pa owned off" "pt_inv off owned root st" "d \<le> 3"
  shows "\<exists>r st'. new_page pa root v phys attr (lev d) off st = Inr (r, st') \<and> pt_inv off owned root st' \<and>
    (case r of
       Inr _ \<Rightarrow> (\<forall>w. mapping off root (ps_mem st') w =
          (if prefix (Suc d) w = prefix (Suc d) v then Some (d, entry_new phys (leaf_attr (lev d) attr) (lev d))
           else mapping off root (ps_mem st) w)) \<and> (\<forall>k \<le> d. leaf_at off root (ps_mem st) v k = None)
     | Inl e \<Rightarrow> (\<forall>w. mapping off root (ps_mem st') w = mapping off root (ps_mem st) w) \<and>
       (e = OutOfMemory \<and> (\<exists>n < d. fst (pa_allocate pa (after_allocs pa n (ps_alloc st))) = None) \<or>
        e = EntryExistent True \<and> (\<exists>k \<le> d. leaf_at off root (ps_mem st) v k \<noteq> None)))"
  by (rule page_alloc.new_page_ok [OF assms, of v phys attr]) (simp_all; blast)+

text \<open>On an empty tree the page is mapped; with an allocator that has no page left the call fails.\<close>

lemma ref_pa_ok: "fst (pa_allocate ref_pa s) \<noteq> None" if "length s < 63" for s
proof -
  let ?A = "set (map (\<lambda>k. of_nat k * 4096) [1..<64]) :: u64 set"
  have card: "card ?A = 63"
  proof -
    have "inj_on (\<lambda>k. of_nat k * 4096 :: u64) {1..<64}"
    proof (rule inj_onI)
      fix j k assume "j \<in> {1..<64}" "k \<in> {1..<64}" "(of_nat j * 4096 :: u64) = of_nat k * 4096"
      then have "unat (of_nat j * 4096 :: u64) = unat (of_nat k * 4096 :: u64)" "j < 64" "k < 64" by auto
      then show "j = k" by (simp add: unat_word_ariths unat_of_nat_lt)
    qed
    then show ?thesis by (simp add: card_image)
  qed
  have "\<not> ?A \<subseteq> set s"
  proof
    assume "?A \<subseteq> set s"
    then have "card ?A \<le> card (set s)" by (intro card_mono) simp_all
    then show False using card card_length [of s] that by linarith
  qed
  then show ?thesis by (auto simp: ref_pa_def find_None_iff split: option.splits)
qed

theorem new_page_correct_witness:
  "\<exists>st'. new_page ref_pa sample_root 0x5000 0x9000 WRITABLE Pt 0 sample_pt = Inr (Inr (), st') \<and> pt_inv 0 set sample_root st'
     \<and> mapping 0 sample_root (ps_mem st') 0x5123 = Some (3, 0x9003)"
proof -
  have len: "length (after_allocs ref_pa n s) \<le> length s + n" for n s
    by (induction n) (auto simp: after_allocs_def ref_pa_def split: option.splits)
  have "fst (pa_allocate ref_pa (after_allocs ref_pa n (ps_alloc sample_pt))) \<noteq> None" if "n < 3" for n
    using len [of n "ps_alloc sample_pt"] that by (intro ref_pa_ok) (simp add: sample_pt_def)
  moreover have "leaf_at 0 sample_root (ps_mem sample_pt) 0x5000 k = None" for k
    by (simp add: leaf_at_def sample_wt) (simp add: sample_pt_def)
  moreover have "prefix 4 0x5123 = prefix 4 0x5000" by (simp add: prefix_def)
  moreover have "entry_new 0x9000 (leaf_attr Pt WRITABLE) Pt = 0x9003"
    by (simp add: entry_new_def leaf_attr_def contains_def WRITABLE_def PRESENT_def PAT_def LARGE_PAGE_def)
  ultimately show ?thesis
    using new_page_correct [OF ref_alloc.page_alloc_axioms sample_pt_inv, of 3 "0x5000" "0x9000" WRITABLE]
    by (fastforce split: sum.splits)
qed



text \<open>
  C31. Unmapping can skip mapped pages. The page size of a step is chosen from the
  alignment of the range, with the physical address 0 when its first page is not
  mapped. If a 2 MB range starts with an unmapped page and holds a 4 KB page,
  \<open>unmaps\<close> of the whole range reports success and changes nothing: the 4 KB page
  stays mapped.
\<close>

theorem unmaps_skips_small_pages:
  assumes ok: "tree_ok off root (ps_mem st) pages"
    and vs: "2 ^ 21 dvd unat vs" "unat vs + 2 ^ 21 < 2 ^ 64" "mapping off root (ps_mem st) vs = None"
    and w: "vs \<le> w" "w < vs + 0x200000" "leaf_at off root (ps_mem st) w 3 = Some e"
  shows "unmaps pa root (vs, vs + 0x200000) off st = Inr (Inr (), st) \<and> mapping off root (ps_mem st) w = Some (3, e)"
proof -
  let ?ve = "vs + 0x200000"
  have ve: "unat ?ve = unat vs + 2 ^ 21" using vs(2) by (simp add: unat_word_ariths)
  have lt: "vs < ?ve" using ve by (simp add: word_less_nat_alt)
  have pre: "prefix 3 w = prefix 3 vs"
  proof -
    have p: "prefix 3 u = unat u div 2 ^ 21 mod 2 ^ 27" for u
    proof -
      have "unat u mod (2 ^ 21 * 2 ^ 27) = 2 ^ 21 * (unat u div 2 ^ 21 mod 2 ^ 27) + unat u mod 2 ^ 21" by (rule mod_mult2_eq)
      then show ?thesis by (simp add: prefix_def)
    qed
    have "unat w div 2 ^ 21 = unat vs div 2 ^ 21"
      using w(1,2) ve vs(1) by (subst aligned_div_eq) (auto simp: word_le_nat_alt word_less_nat_alt)
    then show ?thesis by (simp add: p)
  qed
  obtain t3 where "wt off root (ps_mem st) w 3 = Some t3" using w(3) by (auto simp: leaf_at_def bind_eq_Some_conv)
  then have "wt off root (ps_mem st) vs 3 = Some t3" using wt_cong [OF pre [symmetric], of off root "ps_mem st"] by simp
  then obtain t1 t2 where t: "wt off root (ps_mem st) vs (Suc 0) = Some t1" "wt off root (ps_mem st) vs 2 = Some t2"
      "wt off root (ps_mem st) vs 3 = Some t3"
    by (auto simp: numeral_3_eq_3 numeral_2_eq_2 bind_eq_Some_conv)
  note s0 = get_or_split_existing [OF ok, where d = 0 and v = vs and t = root and t' = t1]
    and s1 = get_or_split_existing [OF ok, where d = 1 and v = vs and t = t1 and t' = t2]
    and s2 = get_or_split_existing [OF ok, where d = 2 and v = vs and t = t2 and t' = t3]
  have ix: "addr_idx P4 vs False = idx 0 vs" "addr_idx Pdp vs False = idx 1 vs" "addr_idx Pd vs False = idx 2 vs"
    using addr_idx_eq [of 0 vs] addr_idx_eq [of 1 vs] addr_idx_eq [of 2 vs] by simp_all
  have drop: "drop_page pa root vs Pd off st = Inr (Inl (EntryExistent False), st)"
    using s0 s1 s2 t by (simp add: drop_page_def drop_page_from.simps ix numeral_2_eq_2 numeral_3_eq_3 Let_def)
  have fit: "fit_all (vs, ?ve) 0 = Inr Pd"
  proof -
    have "level_fit vs = Some Pd \<or> level_fit vs = Some Pdp"
      using vs(1) page_aligned_iff [of vs Pd] by (simp add: level_fit_def)
    moreover have "level_fit 0x200000 = Some Pd" "level_fit 0 = Some Pdp" by (simp_all add: level_fit_def page_size_def)
    ultimately show ?thesis using lt by (auto simp: fit_all_def sub_chk_def level_min_def)
  qed
  have "get_page root vs off (ps_mem st) = Inr (Inl (EntryExistent False))" using get_page_ok [OF ok] vs(3) by simp
  then have loop: "unmaps_loop pa root off vs ?ve st = Inr st"
    using lt fit drop by (simp add: unmaps_loop.simps phys_or_zero_def page_size_def)
  have "(2 :: nat) ^ 12 dvd 2 ^ 21" by (rule le_imp_power_dvd) simp
  then have al: "misaligned vs = None" "misaligned ?ve = None"
    using vs(1) dvd_trans unfolding misaligned_iff ve by (blast, blast intro: dvd_add)
  have "unmaps pa root (vs, ?ve) off st = Inr (Inr (), st)"
    using loop al lt by (simp add: unmaps_def page_check_def)
  moreover have "mapping off root (ps_mem st) w = Some (3, e)" by (rule mapping_of_leaf [OF w(3)]) simp
  ultimately show ?thesis by blast
qed


text \<open>A tree with one 4 KB page at \<open>0x201000\<close> and nothing at \<open>0x200000\<close>, and one with a 1 GB page at 0.\<close>

definition sample_small :: "u64 list pstate" where
  "sample_small = \<lparr>ps_mem = (\<lambda>t i. if t = 0x3F000 \<and> i = 0 then 0x1007 else if t = 0x1000 \<and> i = 0 then 0x2007
       else if t = 0x2000 \<and> i = 1 then 0x3007 else if t = 0x3000 \<and> i = 1 then 0x9003 else 0),
     ps_alloc = [0x3F000, 0x1000, 0x2000, 0x3000]\<rparr>"

definition sample_large :: "u64 list pstate" where
  "sample_large = \<lparr>ps_mem = (\<lambda>t i. if t = 0x3F000 \<and> i = 0 then 0x1007 else if t = 0x1000 \<and> i = 0 then 0x83 else 0),
     ps_alloc = [0x3F000, 0x1000]\<rparr>"

lemma sample_small_leaf: "leaf_at 0 sample_root (ps_mem sample_small) 0x201000 3 = Some 0x9003"
  by (simp add: leaf_at_def numeral_3_eq_3 sample_small_def sample_root_def idx_def prefix_def sub_table_def get_table_eq
      add_chk_def is_leaf_iff)


lemma prefix_0: "prefix 0 v = 0"
  by (simp add: prefix_def)

lemma sample_small_wt:
  "wt 0 sample_root (ps_mem sample_small) v 0 = Some 0x3F000"
  "wt 0 sample_root (ps_mem sample_small) v (Suc 0) = (if idx 0 v = 0 then Some 0x1000 else None)"
  "wt 0 sample_root (ps_mem sample_small) v 2 = (if idx 0 v = 0 \<and> idx 1 v = 0 then Some 0x2000 else None)"
  "wt 0 sample_root (ps_mem sample_small) v 3 = (if idx 0 v = 0 \<and> idx 1 v = 0 \<and> idx 2 v = 1 then Some 0x3000 else None)"
proof -
  have row: "ps_mem sample_small 0x3F000 i = (if i = 0 then 0x1007 else 0)" "ps_mem sample_small 0x1000 i = (if i = 0 then 0x2007 else 0)"
    "ps_mem sample_small 0x2000 i = (if i = 1 then 0x3007 else 0)" for i
    by (simp_all add: sample_small_def)
  have sub: "sub_table 0 0x1007 0 = Some 0x1000" "sub_table 0 0x2007 1 = Some 0x2000" "sub_table 0 0x3007 2 = Some 0x3000"
    "sub_table 0 0 d = None" for d
    by (simp_all add: sub_table_def get_table_eq add_chk_def)
  show 0: "wt 0 sample_root (ps_mem sample_small) v 0 = Some 0x3F000" by (simp add: sample_root_def)
  show 1: "wt 0 sample_root (ps_mem sample_small) v (Suc 0) = (if idx 0 v = 0 then Some 0x1000 else None)"
    using wt_Suc_Some [OF 0] by (simp add: row sub)
  have "wt 0 sample_root (ps_mem sample_small) v (Suc (Suc 0)) = (if idx 0 v = 0 \<and> idx 1 v = 0 then Some 0x2000 else None)"
    unfolding wt.simps(2) [of _ _ _ _ "Suc 0"] 1 using sub(2) by (simp add: row sub(4))
  then show 2: "wt 0 sample_root (ps_mem sample_small) v 2 = (if idx 0 v = 0 \<and> idx 1 v = 0 then Some 0x2000 else None)"
    unfolding numeral_2_eq_2 .
  have "wt 0 sample_root (ps_mem sample_small) v (Suc 2) = (if idx 0 v = 0 \<and> idx 1 v = 0 \<and> idx 2 v = 1 then Some 0x3000 else None)"
    unfolding wt.simps(2) [of _ _ _ _ 2] 2 by (simp add: row sub)
  then show "wt 0 sample_root (ps_mem sample_small) v 3 = (if idx 0 v = 0 \<and> idx 1 v = 0 \<and> idx 2 v = 1 then Some 0x3000 else None)"
    by simp
qed

lemma sample_small_ok: "tree_ok 0 sample_root (ps_mem sample_small) (set (ps_alloc sample_small))"
proof -
  have p: "prefix 1 v = prefix 1 w \<longleftrightarrow> idx 0 v = idx 0 w"
    "prefix 2 v = prefix 2 w \<longleftrightarrow> idx 0 v = idx 0 w \<and> idx 1 v = idx 1 w"
    "prefix 3 v = prefix 3 w \<longleftrightarrow> idx 0 v = idx 0 w \<and> idx 1 v = idx 1 w \<and> idx 2 v = idx 2 w" for v w
    using prefix_Suc_eq [of 0 v w] prefix_Suc_eq [of 1 v w] prefix_Suc_eq [of 2 v w]
    by (auto simp: prefix_0 numeral_2_eq_2 numeral_3_eq_3)
  have inv: "d = 0 \<and> t = 0x3F000 \<or> d = 1 \<and> t = 0x1000 \<and> idx 0 v = 0 \<or> d = 2 \<and> t = 0x2000 \<and> idx 0 v = 0 \<and> idx 1 v = 0 \<or>
      d = 3 \<and> t = 0x3000 \<and> idx 0 v = 0 \<and> idx 1 v = 0 \<and> idx 2 v = 1"
    if "d \<le> 3" and w: "wt 0 sample_root (ps_mem sample_small) v d = Some t" for d v t
  proof -
    consider "d = 0" | "d = Suc 0" | "d = 2" | "d = 3" using \<open>d \<le> 3\<close> by fastforce
    then show ?thesis by cases (use w in \<open>simp_all add: sample_small_wt del: wt.simps split: if_splits\<close>)
  qed
  have a: "d = d' \<and> prefix d v = prefix d w"
    if "d \<le> 3" "d' \<le> 3" "wt 0 sample_root (ps_mem sample_small) v d = Some t" "wt 0 sample_root (ps_mem sample_small) w d' = Some t"
    for d d' v w t
    using inv [OF that(1,3)] inv [OF that(2,4)] p [of v w] by (elim disjE conjE) (simp_all add: prefix_0)
  have al: "set (ps_alloc sample_small) = {0x3F000, 0x1000, 0x2000, 0x3000}" by (simp add: sample_small_def)
  have b: "t - 0 \<in> set (ps_alloc sample_small)"
    if "d \<le> 3" "wt 0 sample_root (ps_mem sample_small) v d = Some t" for d v t
    using inv [OF that] unfolding al by (elim disjE conjE) simp_all
  have lt: "unat x < 0x10000000000000000" for x :: u64 using unsigned_less [of x] by simp
  have c: "\<exists>r. get_table 0 (ps_mem sample_small t i) l = Inr r" for t i l
    by (simp add: get_table_eq add_chk_def lt)
  show ?thesis unfolding tree_ok_def using a b c by (intro conjI allI impI) blast+
qed

theorem unmaps_skips_small_pages_witness:
  "unmaps ref_pa sample_root (0x200000, 0x400000) 0 sample_small = Inr (Inr (), sample_small) \<and>
   mapping 0 sample_root (ps_mem sample_small) 0x201000 = Some (3, 0x9003)"
proof -
  have ix: "idx 0 0x200000 = 0" "idx (Suc 0) 0x200000 = 0" "idx 2 0x200000 = 1" "idx 3 0x200000 = 0" by (simp_all add: idx_def prefix_def)
  have no: "\<not> is_leaf 0x1007 P4" "\<not> is_leaf 0x2007 Pdp" "\<not> is_leaf 0x3007 Pd" "\<not> is_leaf 0 Pt" by (simp_all add: is_leaf_iff)
  have row: "ps_mem sample_small 0x3F000 0 = 0x1007" "ps_mem sample_small 0x1000 0 = 0x2007" "ps_mem sample_small 0x2000 (Suc 0) = 0x3007"
    "ps_mem sample_small 0x3000 0 = 0" by (simp_all add: sample_small_def)
  have "leaf_at 0 sample_root (ps_mem sample_small) 0x200000 k = None" if "k \<le> 3" for k
  proof -
    consider "k = 0" | "k = Suc 0" | "k = 2" | "k = 3" using \<open>k \<le> 3\<close> by fastforce
    then show ?thesis
      by cases (simp_all only: leaf_at_def sample_small_wt ix row no lev_simps One_nat_def bind.simps if_True if_False simp_thms)
  qed
  then have "mapping 0 sample_root (ps_mem sample_small) 0x200000 = None" by (simp add: mapping_def)
  then show ?thesis
    using unmaps_skips_small_pages [OF sample_small_ok, of "0x200000" "0x201000" "0x9003" ref_pa] sample_small_leaf
    by (simp add: word_le_nat_alt word_less_nat_alt)
qed

end
