(* ===== verification/Iterators.thy ===== *)
theory Iterators
  imports Prelude
begin

text \<open>
  Iterators as the sources use them: a state and a \<open>next\<close> function that may
  panic. The loops over iterators (\<open>collect\<close>, \<open>Iterator::eq\<close>, \<open>Iterator::cmp\<close> of
  the standard library and \<open>iter_after\<close> of
  \<open>src/lib/h2o_std/core/src/path.rs\<close>) are partial: the value \<open>None\<close> is a loop that
  does not end. The interface \<open>iterator\<close> says that a state stands for a finite
  list; under it the loops end and are the corresponding list functions.
\<close>

datatype ordering = Less | Equal | Greater

definition lbind :: "'a run option \<Rightarrow> ('a \<Rightarrow> 'b run option) \<Rightarrow> 'b run option" where
  "lbind m f = (case m of None \<Rightarrow> None | Some (Inl p) \<Rightarrow> Some (Inl p) | Some (Inr x) \<Rightarrow> f x)"

lemma lbind_simps [simp]: "lbind (Some (Inl p)) f = Some (Inl p)" "lbind (Some (Inr x)) f = f x" "lbind None f = None"
  by (simp_all add: lbind_def)

partial_function (option) collect :: "('i \<Rightarrow> ('a option \<times> 'i) run) \<Rightarrow> 'i \<Rightarrow> 'a list \<Rightarrow> 'a list run option" where
  "collect nx it acc =
     (case nx it of Inl p \<Rightarrow> Some (Inl p)
      | Inr (x, it') \<Rightarrow> (case x of None \<Rightarrow> Some (Inr (rev acc)) | Some a \<Rightarrow> collect nx it' (a # acc)))"

partial_function (option) iter_after :: "('a \<Rightarrow> 'b \<Rightarrow> bool) \<Rightarrow> ('i \<Rightarrow> ('a option \<times> 'i) run) \<Rightarrow> ('j \<Rightarrow> ('b option \<times> 'j) run)
    \<Rightarrow> 'i \<Rightarrow> 'j \<Rightarrow> 'i option run option" where
  "iter_after eqv ni nj it pre =
     (case ni it of Inl p \<Rightarrow> Some (Inl p)
      | Inr (x, it') \<Rightarrow>
          (case nj pre of Inl p \<Rightarrow> Some (Inl p)
           | Inr (y, pre') \<Rightarrow>
               (case x of
                  Some a \<Rightarrow>
                    (case y of Some b \<Rightarrow> if eqv a b then iter_after eqv ni nj it' pre' else Some (Inr None)
                     | None \<Rightarrow> Some (Inr (Some it)))
                | None \<Rightarrow> (case y of None \<Rightarrow> Some (Inr (Some it)) | Some b \<Rightarrow> Some (Inr None)))))"

partial_function (option) iter_eq :: "('a \<Rightarrow> 'b \<Rightarrow> bool) \<Rightarrow> ('i \<Rightarrow> ('a option \<times> 'i) run) \<Rightarrow> ('j \<Rightarrow> ('b option \<times> 'j) run)
    \<Rightarrow> 'i \<Rightarrow> 'j \<Rightarrow> bool run option" where
  "iter_eq eqv ni nj it jt =
     (case ni it of Inl p \<Rightarrow> Some (Inl p)
      | Inr (x, it') \<Rightarrow>
          (case nj jt of Inl p \<Rightarrow> Some (Inl p)
           | Inr (y, jt') \<Rightarrow>
               (case x of
                  Some a \<Rightarrow> (case y of Some b \<Rightarrow> if eqv a b then iter_eq eqv ni nj it' jt' else Some (Inr False)
                             | None \<Rightarrow> Some (Inr False))
                | None \<Rightarrow> Some (Inr (y = None)))))"

partial_function (option) iter_cmp :: "('a \<Rightarrow> 'b \<Rightarrow> ordering) \<Rightarrow> ('i \<Rightarrow> ('a option \<times> 'i) run) \<Rightarrow> ('j \<Rightarrow> ('b option \<times> 'j) run)
    \<Rightarrow> 'i \<Rightarrow> 'j \<Rightarrow> ordering run option" where
  "iter_cmp cmp ni nj it jt =
     (case ni it of Inl p \<Rightarrow> Some (Inl p)
      | Inr (x, it') \<Rightarrow>
          (case x of
             None \<Rightarrow> (case nj jt of Inl p \<Rightarrow> Some (Inl p)
                      | Inr (y, jt') \<Rightarrow> Some (Inr (case y of None \<Rightarrow> Equal | Some b \<Rightarrow> Less)))
           | Some a \<Rightarrow>
               (case nj jt of Inl p \<Rightarrow> Some (Inl p)
                | Inr (y, jt') \<Rightarrow>
                    (case y of None \<Rightarrow> Some (Inr Greater)
                     | Some b \<Rightarrow> (if cmp a b = Equal then iter_cmp cmp ni nj it' jt' else Some (Inr (cmp a b)))))))"

section \<open>The lists iterators stand for\<close>

definition hd_opt :: "'a list \<Rightarrow> 'a option" where
  "hd_opt xs = (case xs of [] \<Rightarrow> None | x # _ \<Rightarrow> Some x)"

lemma hd_opt_simps [simp]: "hd_opt [] = None" "hd_opt (x # xs) = Some x" "hd_opt xs = None \<longleftrightarrow> xs = []"
  by (auto simp: hd_opt_def split: list.splits)

fun lex_cmp :: "('a \<Rightarrow> 'b \<Rightarrow> ordering) \<Rightarrow> 'a list \<Rightarrow> 'b list \<Rightarrow> ordering" where
  "lex_cmp cmp [] [] = Equal"
| "lex_cmp cmp [] (_ # _) = Less"
| "lex_cmp cmp (_ # _) [] = Greater"
| "lex_cmp cmp (x # xs) (y # ys) = (if cmp x y = Equal then lex_cmp cmp xs ys else cmp x y)"

lemma lex_cmp_refl: "(\<And>x. x \<in> set xs \<Longrightarrow> cmp x x = Equal) \<Longrightarrow> lex_cmp cmp xs xs = Equal"
  by (induction xs) auto

lemma lex_cmp_append: "(\<And>x. cmp x x = Equal) \<Longrightarrow> lex_cmp cmp (xs @ ys) (xs @ zs) = lex_cmp cmp ys zs"
  by (induction xs) auto

lemma lex_cmp_Equal: "(\<And>x y. cmp x y = Equal \<longleftrightarrow> x = y) \<Longrightarrow> lex_cmp cmp xs ys = Equal \<longleftrightarrow> xs = ys"
  by (induction cmp xs ys rule: lex_cmp.induct) auto

fun list_prefix :: "('a \<Rightarrow> 'b \<Rightarrow> bool) \<Rightarrow> 'a list \<Rightarrow> 'b list \<Rightarrow> bool" where
  "list_prefix eqv xs [] = True"
| "list_prefix eqv [] (_ # _) = False"
| "list_prefix eqv (x # xs) (y # ys) = (eqv x y \<and> list_prefix eqv xs ys)"

lemma list_prefix_eq: "list_prefix (=) xs ys \<longleftrightarrow> (\<exists>zs. xs = ys @ zs)"
  by (induction "(=) :: 'a \<Rightarrow> 'a \<Rightarrow> bool" xs ys rule: list_prefix.induct) auto

locale iterator =
  fixes nx :: "'i \<Rightarrow> ('a option \<times> 'i) run" and inv :: "'i \<Rightarrow> bool" and rem :: "'i \<Rightarrow> 'a list"
  assumes next_law: "inv it \<Longrightarrow> \<exists>it'. nx it = Inr (hd_opt (rem it), it') \<and> inv it' \<and> rem it' = tl (rem it)"
begin

lemma next_Nil: "inv it \<Longrightarrow> rem it = [] \<Longrightarrow> \<exists>it'. nx it = Inr (None, it') \<and> inv it' \<and> rem it' = []"
  using next_law [of it] by simp

lemma next_Cons: "inv it \<Longrightarrow> rem it = x # xs \<Longrightarrow> \<exists>it'. nx it = Inr (Some x, it') \<and> inv it' \<and> rem it' = xs"
  using next_law [of it] by simp

lemma collect_acc: "inv it \<Longrightarrow> collect nx it acc = Some (Inr (rev acc @ rem it))"
proof (induction "rem it" arbitrary: it acc)
  case Nil
  then show ?case using next_Nil [of it] by (subst collect.simps) auto
next
  case (Cons x xs)
  then obtain it' where "nx it = Inr (Some x, it')" "inv it'" "rem it' = xs" using next_Cons [of it x xs] by auto
  then show ?case using Cons(1) [of it' "x # acc"] Cons(2) by (subst collect.simps) simp
qed

end

locale iterator_pair =
  i: iterator ni invi remi + j: iterator nj invj remj
  for ni :: "'i \<Rightarrow> ('a option \<times> 'i) run" and invi :: "'i \<Rightarrow> bool" and remi :: "'i \<Rightarrow> 'a list"
    and nj :: "'j \<Rightarrow> ('b option \<times> 'j) run" and invj :: "'j \<Rightarrow> bool" and remj :: "'j \<Rightarrow> 'b list"
begin

lemma iter_after_correct:
  "invi it \<Longrightarrow> invj jt \<Longrightarrow>
   \<exists>r. iter_after eqv ni nj it jt = Some (Inr r) \<and> (r \<noteq> None \<longleftrightarrow> list_prefix eqv (remi it) (remj jt)) \<and>
     (\<forall>it'. r = Some it' \<longrightarrow> invi it' \<and> remi it' = drop (length (remj jt)) (remi it))"
proof (induction "remi it" arbitrary: it jt)
  case Nil
  obtain it' where "ni it = Inr (None, it')" using i.next_Nil Nil by metis
  moreover obtain jt' where "nj jt = Inr (hd_opt (remj jt), jt')" using j.next_law Nil by metis
  ultimately show ?case using Nil by (subst iter_after.simps) (cases "remj jt"; simp)
next
  case (Cons x xs)
  obtain it' where it': "ni it = Inr (Some x, it')" "invi it'" "remi it' = xs" using i.next_Cons Cons(2,3) by metis
  obtain jt' where jt': "nj jt = Inr (hd_opt (remj jt), jt')" "invj jt'" "remj jt' = tl (remj jt)"
    using j.next_law Cons(4) by metis
  show ?case
  proof (cases "remj jt")
    case Nil
    then show ?thesis using it' jt' Cons(2,3) by (subst iter_after.simps) simp
  next
    case y: (Cons y ys)
    have "\<exists>r. iter_after eqv ni nj it' jt' = Some (Inr r) \<and> (r \<noteq> None \<longleftrightarrow> list_prefix eqv (remi it') (remj jt')) \<and>
       (\<forall>it''. r = Some it'' \<longrightarrow> invi it'' \<and> remi it'' = drop (length (remj jt')) (remi it'))"
      by (rule Cons(1)) (use it' jt' in auto)
    then show ?thesis
      using it' jt' y Cons(2) by (subst iter_after.simps) (simp flip: Cons(2))
  qed
qed

lemma iter_eq_correct:
  "invi it \<Longrightarrow> invj jt \<Longrightarrow> iter_eq eqv ni nj it jt = Some (Inr (list_all2 eqv (remi it) (remj jt)))"
proof (induction "remi it" arbitrary: it jt)
  case Nil
  obtain it' where "ni it = Inr (None, it')" using i.next_Nil Nil by metis
  moreover obtain jt' where "nj jt = Inr (hd_opt (remj jt), jt')" using j.next_law Nil by metis
  ultimately show ?case using Nil(1) [symmetric] by (subst iter_eq.simps) simp
next
  case (Cons x xs)
  obtain it' where it': "ni it = Inr (Some x, it')" "invi it'" "remi it' = xs" using i.next_Cons Cons(2,3) by metis
  obtain jt' where jt': "nj jt = Inr (hd_opt (remj jt), jt')" "invj jt'" "remj jt' = tl (remj jt)"
    using j.next_law Cons(4) by metis
  have "iter_eq eqv ni nj it' jt' = Some (Inr (list_all2 eqv (remi it') (remj jt')))"
    by (rule Cons(1)) (use it' jt' in auto)
  then show ?case
    using it' jt' by (subst iter_eq.simps) (cases "remj jt"; simp flip: Cons(2))
qed

lemma iter_cmp_correct:
  "invi it \<Longrightarrow> invj jt \<Longrightarrow> iter_cmp cmp ni nj it jt = Some (Inr (lex_cmp cmp (remi it) (remj jt)))"
proof (induction "remi it" arbitrary: it jt)
  case Nil
  obtain it' where "ni it = Inr (None, it')" using i.next_Nil Nil by metis
  moreover obtain jt' where "nj jt = Inr (hd_opt (remj jt), jt')" using j.next_law Nil by metis
  ultimately show ?case using Nil(1) [symmetric] by (subst iter_cmp.simps) (cases "remj jt"; simp)
next
  case (Cons x xs)
  obtain it' where it': "ni it = Inr (Some x, it')" "invi it'" "remi it' = xs" using i.next_Cons Cons(2,3) by metis
  obtain jt' where jt': "nj jt = Inr (hd_opt (remj jt), jt')" "invj jt'" "remj jt' = tl (remj jt)"
    using j.next_law Cons(4) by metis
  have "iter_cmp cmp ni nj it' jt' = Some (Inr (lex_cmp cmp (remi it') (remj jt')))"
    by (rule Cons(1)) (use it' jt' in auto)
  then show ?case
    using it' jt' by (subst iter_cmp.simps) (cases "remj jt"; simp flip: Cons(2))
qed

end

end
