(* ===== verification/Path.thy ===== *)
theory Path
  imports Iterators
begin

text \<open>
  Paths of the standard library, \<open>src/lib/h2o_std/core/src/path.rs\<close> with the
  platform part \<open>path/imp.rs\<close>: the double-ended iterator over the components of a
  path, and the operations of \<open>Path\<close> and \<open>PathBuf\<close> built on it. An \<open>OsStr\<close> is its
  bytes; a slice of a path is the bytes it holds.
\<close>

section \<open>Platform part\<close>

definition is_sep_byte :: "u8 \<Rightarrow> bool" where "is_sep_byte b \<longleftrightarrow> b = 0x2F"
definition is_verbatim_sep :: "u8 \<Rightarrow> bool" where "is_verbatim_sep b \<longleftrightarrow> b = 0x2F"
definition MAIN_SEP_STR :: bytes where "MAIN_SEP_STR = [0x2F]"

abbreviation dot :: u8 where "dot \<equiv> 0x2E"

datatype Prefix =
    Verbatim bytes
  | VerbatimUNC bytes bytes
  | VerbatimDisk u8
  | DeviceNS bytes
  | UNC bytes bytes
  | Disk u8

definition parse_prefix :: "bytes \<Rightarrow> Prefix option" where "parse_prefix s = None"

fun prefix_length :: "Prefix \<Rightarrow> nat" where
  "prefix_length (Verbatim x) = 4 + length x"
| "prefix_length (VerbatimUNC x y) = 8 + length x + (if length y > 0 then 1 + length y else 0)"
| "prefix_length (VerbatimDisk _) = 6"
| "prefix_length (UNC x y) = 2 + length x + (if length y > 0 then 1 + length y else 0)"
| "prefix_length (DeviceNS x) = 4 + length x"
| "prefix_length (Disk _) = 2"

fun is_verbatim :: "Prefix \<Rightarrow> bool" where
  "is_verbatim (Verbatim _) = True"
| "is_verbatim (VerbatimDisk _) = True"
| "is_verbatim (VerbatimUNC _ _) = True"
| "is_verbatim _ = False"

fun is_drive :: "Prefix \<Rightarrow> bool" where
  "is_drive (Disk _) = True"
| "is_drive _ = False"

definition has_implicit_root :: "Prefix \<Rightarrow> bool" where
  "has_implicit_root p \<longleftrightarrow> \<not> is_drive p"

section \<open>Positions in a slice\<close>

fun position :: "('a \<Rightarrow> bool) \<Rightarrow> 'a list \<Rightarrow> nat option" where
  "position P [] = None"
| "position P (x # xs) = (if P x then Some 0 else map_option Suc (position P xs))"

definition rposition :: "('a \<Rightarrow> bool) \<Rightarrow> 'a list \<Rightarrow> nat option" where
  "rposition P xs = map_option (\<lambda>i. length xs - 1 - i) (position P (rev xs))"

section \<open>Components\<close>

datatype State = SPrefix | StartDir | Body | Done

fun state_num :: "State \<Rightarrow> nat" where
  "state_num SPrefix = 0"
| "state_num StartDir = 1"
| "state_num Body = 2"
| "state_num Done = 3"

datatype Component =
    CPrefix bytes Prefix
  | RootDir
  | CurDir
  | ParentDir
  | Normal bytes

fun component_as_os_str :: "Component \<Rightarrow> bytes" where
  "component_as_os_str (CPrefix raw _) = raw"
| "component_as_os_str RootDir = MAIN_SEP_STR"
| "component_as_os_str CurDir = [dot]"
| "component_as_os_str ParentDir = [dot, dot]"
| "component_as_os_str (Normal path) = path"

text \<open>Two prefix components are equal when their parsed prefixes are.\<close>

fun component_eq :: "Component \<Rightarrow> Component \<Rightarrow> bool" where
  "component_eq (CPrefix _ p) (CPrefix _ q) \<longleftrightarrow> p = q"
| "component_eq c d \<longleftrightarrow> c = d"

record Components =
  c_path :: bytes
  c_prefix :: "Prefix option"
  c_has_physical_root :: bool
  c_front :: State
  c_back :: State

definition has_physical_root :: "bytes \<Rightarrow> Prefix option \<Rightarrow> bool run" where
  "has_physical_root s prefix =
     rbind (case prefix of Some p \<Rightarrow> slice_from s (prefix_length p) | None \<Rightarrow> Inr s) (\<lambda>path.
       Inr (path \<noteq> [] \<and> is_sep_byte (hd path)))"

definition components :: "bytes \<Rightarrow> Components run" where
  "components s =
     (let prefix = parse_prefix s in
      rbind (has_physical_root s prefix) (\<lambda>root.
        Inr \<lparr>c_path = s, c_prefix = prefix, c_has_physical_root = root, c_front = SPrefix, c_back = Body\<rparr>))"

definition prefix_len :: "Components \<Rightarrow> nat" where
  "prefix_len c = (case c_prefix c of Some p \<Rightarrow> prefix_length p | None \<Rightarrow> 0)"

definition prefix_verbatim :: "Components \<Rightarrow> bool" where
  "prefix_verbatim c = (case c_prefix c of Some p \<Rightarrow> is_verbatim p | None \<Rightarrow> False)"

definition prefix_remaining :: "Components \<Rightarrow> nat" where
  "prefix_remaining c = (if c_front c = SPrefix then prefix_len c else 0)"

definition finished :: "Components \<Rightarrow> bool" where
  "finished c \<longleftrightarrow> c_front c = Done \<or> c_back c = Done \<or> state_num (c_front c) > state_num (c_back c)"

definition c_is_sep_byte :: "Components \<Rightarrow> u8 \<Rightarrow> bool" where
  "c_is_sep_byte c b = (if prefix_verbatim c then is_verbatim_sep b else is_sep_byte b)"

definition has_root :: "Components \<Rightarrow> bool" where
  "has_root c \<longleftrightarrow> c_has_physical_root c \<or> (case c_prefix c of Some p \<Rightarrow> has_implicit_root p | None \<Rightarrow> False)"

definition include_cur_dir :: "Components \<Rightarrow> bool run" where
  "include_cur_dir c =
     (if has_root c then Inr False
      else rbind (slice_from (c_path c) (prefix_remaining c)) (\<lambda>s.
        Inr (case s of [x] \<Rightarrow> x = dot | x # y # _ \<Rightarrow> x = dot \<and> c_is_sep_byte c y | [] \<Rightarrow> False)))"

definition len_before_body :: "Components \<Rightarrow> nat run" where
  "len_before_body c =
     (let start = state_num (c_front c) \<le> state_num StartDir;
          root = (if start \<and> c_has_physical_root c then 1 else 0)
      in rbind (if start then include_cur_dir c else Inr False) (\<lambda>cur.
           Inr (prefix_remaining c + root + (if cur then 1 else 0))))"

definition parse_single_component :: "Components \<Rightarrow> bytes \<Rightarrow> Component option" where
  "parse_single_component c seg =
     (if seg = [dot] then (if prefix_verbatim c then Some CurDir else None)
      else if seg = [dot, dot] then Some ParentDir
      else if seg = [] then None
      else Some (Normal seg))"

definition parse_next_component :: "Components \<Rightarrow> (nat \<times> Component option) run" where
  "parse_next_component c =
     rbind (assert_run (c_front c = Body)) (\<lambda>_.
       let (extra, seg) = (case position (c_is_sep_byte c) (c_path c) of
               None \<Rightarrow> (0, c_path c) | Some i \<Rightarrow> (1, take i (c_path c)))
       in Inr (length seg + extra, parse_single_component c seg))"

definition parse_next_component_back :: "Components \<Rightarrow> (nat \<times> Component option) run" where
  "parse_next_component_back c =
     rbind (assert_run (c_back c = Body)) (\<lambda>_.
     rbind (len_before_body c) (\<lambda>start.
     rbind (slice_from (c_path c) start) (\<lambda>tail.
       let (extra, seg) = (case rposition (c_is_sep_byte c) tail of
               None \<Rightarrow> (0, tail) | Some i \<Rightarrow> (1, drop (start + i + 1) (c_path c)))
       in Inr (length seg + extra, parse_single_component c seg))))"

subsection \<open>The iterator from the front\<close>

text \<open>One turn of the loop of \<open>next\<close>: \<open>Some r\<close> is \<open>return r\<close>, \<open>None\<close> goes on.\<close>

definition next_turn :: "Components \<Rightarrow> (Component option option \<times> Components) run" where
  "next_turn c =
     (case c_front c of
        SPrefix \<Rightarrow>
          if prefix_len c > 0 then
            (let c1 = c\<lparr>c_front := StartDir\<rparr> in
             rbind (assert_run (prefix_len c1 \<le> length (c_path c1))) (\<lambda>_.
             rbind (slice_to (c_path c1) (prefix_len c1)) (\<lambda>raw.
             rbind (slice_from (c_path c1) (prefix_len c1)) (\<lambda>rest.
             rbind (unwrap (c_prefix c1)) (\<lambda>parsed.
               Inr (Some (Some (CPrefix raw parsed)), c1\<lparr>c_path := rest\<rparr>))))))
          else Inr (None, c\<lparr>c_front := StartDir\<rparr>)
      | StartDir \<Rightarrow>
          (let c1 = c\<lparr>c_front := Body\<rparr> in
           if c_has_physical_root c1 then
             rbind (assert_run (c_path c1 \<noteq> [])) (\<lambda>_.
             rbind (slice_from (c_path c1) 1) (\<lambda>rest. Inr (Some (Some RootDir), c1\<lparr>c_path := rest\<rparr>)))
           else (case c_prefix c1 of
               Some p \<Rightarrow> if has_implicit_root p \<and> \<not> is_verbatim p then Inr (Some (Some RootDir), c1) else Inr (None, c1)
             | None \<Rightarrow>
                 rbind (include_cur_dir c1) (\<lambda>cur.
                   if cur then
                     rbind (assert_run (c_path c1 \<noteq> [])) (\<lambda>_.
                     rbind (slice_from (c_path c1) 1) (\<lambda>rest. Inr (Some (Some CurDir), c1\<lparr>c_path := rest\<rparr>)))
                   else Inr (None, c1))))
      | Body \<Rightarrow>
          if c_path c \<noteq> [] then
            rbind (parse_next_component c) (\<lambda>(sz, seg).
            rbind (slice_from (c_path c) sz) (\<lambda>rest.
              Inr (if seg = None then None else Some seg, c\<lparr>c_path := rest\<rparr>)))
          else Inr (None, c\<lparr>c_front := Done\<rparr>)
      | Done \<Rightarrow> Inl AssertFailed)"

lemma next_turn_decreases:
  assumes "next_turn c = Inr (None, c')"
  shows "length (c_path c') + (3 - state_num (c_front c')) < length (c_path c) + (3 - state_num (c_front c))"
proof -
  have "0 < sz" if "c_path c \<noteq> []" "parse_next_component c = Inr (sz, seg)" for sz seg
    using that by (auto simp: parse_next_component_def rbind_Inr_conv split: option.splits)
  then show ?thesis
    using assms by (auto simp: next_turn_def Let_def rbind_Inr_conv slice_from_def split: State.splits if_splits option.splits)
qed

function components_next :: "Components \<Rightarrow> (Component option \<times> Components) run" where
  "components_next c =
     (if finished c then Inr (None, c)
      else rbind (next_turn c) (\<lambda>(r, c'). case r of Some x \<Rightarrow> Inr (x, c') | None \<Rightarrow> components_next c'))"
  by pat_completeness auto
termination
  by (relation "measure (\<lambda>c. length (c_path c) + (3 - state_num (c_front c)))") (auto simp: next_turn_decreases)

subsection \<open>The iterator from the back\<close>

definition next_back_turn :: "Components \<Rightarrow> (Component option option \<times> Components) run" where
  "next_back_turn c =
     (case c_back c of
        Body \<Rightarrow>
          rbind (len_before_body c) (\<lambda>start.
            if length (c_path c) > start then
              rbind (parse_next_component_back c) (\<lambda>(sz, seg).
              rbind (nat_sub_chk (length (c_path c)) sz) (\<lambda>n.
              rbind (slice_to (c_path c) n) (\<lambda>rest.
                Inr (if seg = None then None else Some seg, c\<lparr>c_path := rest\<rparr>))))
            else Inr (None, c\<lparr>c_back := StartDir\<rparr>))
      | StartDir \<Rightarrow>
          (let c1 = c\<lparr>c_back := SPrefix\<rparr>;
               cut = rbind (nat_sub_chk (length (c_path c1)) 1) (slice_to (c_path c1)) in
           if c_has_physical_root c1 then rbind cut (\<lambda>rest. Inr (Some (Some RootDir), c1\<lparr>c_path := rest\<rparr>))
           else (case c_prefix c1 of
               Some p \<Rightarrow> if has_implicit_root p \<and> \<not> is_verbatim p then Inr (Some (Some RootDir), c1) else Inr (None, c1)
             | None \<Rightarrow>
                 rbind (include_cur_dir c1) (\<lambda>cur.
                   if cur then rbind cut (\<lambda>rest. Inr (Some (Some CurDir), c1\<lparr>c_path := rest\<rparr>))
                   else Inr (None, c1))))
      | SPrefix \<Rightarrow>
          (let c1 = c\<lparr>c_back := Done\<rparr> in
           if prefix_len c > 0 then
             rbind (unwrap (c_prefix c1)) (\<lambda>parsed. Inr (Some (Some (CPrefix (c_path c1) parsed)), c1))
           else Inr (Some None, c1))
      | Done \<Rightarrow> Inl AssertFailed)"

lemma rposition_lt: "rposition P xs = Some i \<Longrightarrow> i < length xs"
  by (cases "length xs") (auto simp: rposition_def)

lemma parse_next_component_back_size:
  "parse_next_component_back c = Inr (sz, seg) \<Longrightarrow> len_before_body c = Inr start \<Longrightarrow> start < length (c_path c) \<Longrightarrow>
   0 < sz \<and> sz \<le> length (c_path c)"
  by (auto simp: parse_next_component_back_def rbind_Inr_conv slice_from_def split: option.splits if_splits dest: rposition_lt)

lemma next_back_turn_decreases:
  assumes "next_back_turn c = Inr (None, c')"
  shows "length (c_path c') + state_num (c_back c') < length (c_path c) + state_num (c_back c)"
  using assms parse_next_component_back_size [of c]
  by (fastforce simp: next_back_turn_def rbind_Inr_conv slice_to_def nat_sub_chk_def Let_def split: State.splits if_splits option.splits)

function components_next_back :: "Components \<Rightarrow> (Component option \<times> Components) run" where
  "components_next_back c =
     (if finished c then Inr (None, c)
      else rbind (next_back_turn c) (\<lambda>(r, c'). case r of Some x \<Rightarrow> Inr (x, c') | None \<Rightarrow> components_next_back c'))"
  by pat_completeness auto
termination
  by (relation "measure (\<lambda>c. length (c_path c) + state_num (c_back c))") (auto simp: next_back_turn_decreases)

declare components_next.simps [simp del] components_next_back.simps [simp del]

subsection \<open>The rest of the path\<close>

lemma parse_next_component_size: "parse_next_component c = Inr (sz, seg) \<Longrightarrow> c_path c \<noteq> [] \<Longrightarrow> 0 < sz"
  by (auto simp: parse_next_component_def rbind_Inr_conv split: option.splits)

function trim_left :: "Components \<Rightarrow> Components run" where
  "trim_left c =
     (if c_path c = [] then Inr c
      else rbind (parse_next_component c) (\<lambda>(sz, seg).
        if seg \<noteq> None then Inr c
        else rbind (slice_from (c_path c) sz) (\<lambda>rest. trim_left (c\<lparr>c_path := rest\<rparr>))))"
  by pat_completeness auto
termination
  by (relation "measure (\<lambda>c. length (c_path c))") (auto simp: slice_from_def dest: parse_next_component_size split: if_splits)

function trim_right :: "Components \<Rightarrow> Components run" where
  "trim_right c =
     rbind (len_before_body c) (\<lambda>start.
       if length (c_path c) > start then
         rbind (parse_next_component_back c) (\<lambda>(sz, seg).
           if seg \<noteq> None then Inr c
           else rbind (nat_sub_chk (length (c_path c)) sz) (\<lambda>n.
                rbind (slice_to (c_path c) n) (\<lambda>rest. trim_right (c\<lparr>c_path := rest\<rparr>))))
       else Inr c)"
  by pat_completeness auto
termination
  by (relation "measure (\<lambda>c. length (c_path c))")
    (auto simp: slice_to_def nat_sub_chk_def dest: parse_next_component_back_size split: if_splits)

declare trim_left.simps [simp del] trim_right.simps [simp del]

definition as_path :: "Components \<Rightarrow> bytes run" where
  "as_path c =
     rbind (if c_front c = Body then trim_left c else Inr c) (\<lambda>c1.
     rbind (if c_back c1 = Body then trim_right c1 else Inr c1) (\<lambda>c2. Inr (c_path c2)))"

section \<open>Paths\<close>

definition path_prefix :: "bytes \<Rightarrow> Prefix option run" where
  "path_prefix s = rbind (components s) (\<lambda>c. Inr (c_prefix c))"

definition path_has_root :: "bytes \<Rightarrow> bool run" where
  "path_has_root s = rbind (components s) (\<lambda>c. Inr (has_root c))"

definition is_absolute :: "bytes \<Rightarrow> bool run" where
  "is_absolute s =
     rbind (path_has_root s) (\<lambda>r. if r then rbind (path_prefix s) (\<lambda>p. Inr (p \<noteq> None)) else Inr False)"

definition parent :: "bytes \<Rightarrow> bytes option run" where
  "parent s =
     rbind (components s) (\<lambda>comps.
     rbind (components_next_back comps) (\<lambda>(r, comps').
       case r of
         Some (Normal _) \<Rightarrow> rbind (as_path comps') (\<lambda>p. Inr (Some p))
       | Some CurDir \<Rightarrow> rbind (as_path comps') (\<lambda>p. Inr (Some p))
       | Some ParentDir \<Rightarrow> rbind (as_path comps') (\<lambda>p. Inr (Some p))
       | _ \<Rightarrow> Inr None))"

definition ancestors_next :: "bytes option \<Rightarrow> (bytes option \<times> bytes option) run" where
  "ancestors_next nxt =
     rbind (case nxt of None \<Rightarrow> Inr None | Some p \<Rightarrow> parent p) (\<lambda>nxt'. Inr (nxt, nxt'))"

definition file_name :: "bytes \<Rightarrow> bytes option run" where
  "file_name s =
     rbind (components s) (\<lambda>comps.
     rbind (components_next_back comps) (\<lambda>(r, _).
       Inr (case r of Some (Normal p) \<Rightarrow> Some p | _ \<Rightarrow> None)))"

definition strip_prefix :: "bytes \<Rightarrow> bytes \<Rightarrow> (unit + bytes) run option" where
  "strip_prefix s base =
     lbind (Some (components s)) (\<lambda>cs.
     lbind (Some (components base)) (\<lambda>cb.
     lbind (iter_after component_eq components_next components_next cs cb) (\<lambda>o'.
       case o' of None \<Rightarrow> Some (Inr (Inl ()))
       | Some c \<Rightarrow> lbind (Some (as_path c)) (\<lambda>p. Some (Inr (Inr p))))))"

definition starts_with :: "bytes \<Rightarrow> bytes \<Rightarrow> bool run option" where
  "starts_with s base =
     lbind (Some (components s)) (\<lambda>cs.
     lbind (Some (components base)) (\<lambda>cb.
     lbind (iter_after component_eq components_next components_next cs cb) (\<lambda>o'. Some (Inr (o' \<noteq> None)))))"

definition ends_with :: "bytes \<Rightarrow> bytes \<Rightarrow> bool run option" where
  "ends_with s child =
     lbind (Some (components s)) (\<lambda>cs.
     lbind (Some (components child)) (\<lambda>cc.
     lbind (iter_after component_eq components_next_back components_next_back cs cc) (\<lambda>o'. Some (Inr (o' \<noteq> None)))))"

definition rsplit_file_at_dot :: "bytes \<Rightarrow> bytes option \<times> bytes option" where
  "rsplit_file_at_dot file =
     (if file = [dot, dot] then (Some file, None)
      else let (before, after) = (case rposition (\<lambda>b. b = dot) file of
                 None \<Rightarrow> (None, Some file)
               | Some i \<Rightarrow> (Some (take i file), Some (drop (i + 1) file)))
           in if before = Some [] then (Some file, None) else (before, after))"

definition split_file_at_dot :: "bytes \<Rightarrow> (bytes \<times> bytes option) run" where
  "split_file_at_dot file =
     (if file = [dot, dot] then Inr (file, None)
      else rbind (slice_from file 1) (\<lambda>s.
        Inr (case position (\<lambda>b. b = dot) s of
               Some i \<Rightarrow> (take (i + 1) file, Some (drop (i + 2) file))
             | None \<Rightarrow> (file, None))))"

definition file_stem :: "bytes \<Rightarrow> bytes option run" where
  "file_stem s =
     rbind (file_name s) (\<lambda>n. Inr (case n of None \<Rightarrow> None
       | Some f \<Rightarrow> (let (before, after) = rsplit_file_at_dot f in case before of Some b \<Rightarrow> Some b | None \<Rightarrow> after)))"

definition path_file_prefix :: "bytes \<Rightarrow> bytes option run" where
  "path_file_prefix s =
     rbind (file_name s) (\<lambda>n. case n of None \<Rightarrow> Inr None
       | Some f \<Rightarrow> rbind (split_file_at_dot f) (\<lambda>(before, _). Inr (Some before)))"

definition extension :: "bytes \<Rightarrow> bytes option run" where
  "extension s =
     rbind (file_name s) (\<lambda>n. Inr (case n of None \<Rightarrow> None
       | Some f \<Rightarrow> (let (before, after) = rsplit_file_at_dot f in case before of Some b \<Rightarrow> after | None \<Rightarrow> None)))"

section \<open>Path buffers\<close>

text \<open>The branch of \<open>_push\<close> for a verbatim prefix: normalise the components, then print them.\<close>

definition push_component :: "Component list \<Rightarrow> Component \<Rightarrow> Component list" where
  "push_component buf c =
     (case c of
        RootDir \<Rightarrow> take 1 buf @ [c]
      | CurDir \<Rightarrow> buf
      | ParentDir \<Rightarrow> (if buf = [] then buf else (case last buf of Normal _ \<Rightarrow> butlast buf | _ \<Rightarrow> buf))
      | _ \<Rightarrow> buf @ [c])"

definition print_component :: "bytes \<times> bool \<Rightarrow> Component \<Rightarrow> bytes \<times> bool" where
  "print_component = (\<lambda>(res, need_sep) c.
     (res @ (if need_sep \<and> c \<noteq> RootDir then MAIN_SEP_STR else []) @ component_as_os_str c,
      case c of RootDir \<Rightarrow> False
      | CPrefix _ parsed \<Rightarrow> \<not> is_drive parsed \<and> prefix_length parsed > 0
      | _ \<Rightarrow> True))"

definition path_push :: "bytes \<Rightarrow> bytes \<Rightarrow> bytes run option" where
  "path_push self path =
     lbind (Some (components self)) (\<lambda>comps.
     let need_sep0 = (self \<noteq> [] \<and> \<not> is_sep_byte (last self));
         need_sep = (if prefix_len comps > 0 \<and> prefix_len comps = length (c_path comps) \<and>
                        (case c_prefix comps of Some p \<Rightarrow> is_drive p | None \<Rightarrow> False) then False else need_sep0)
     in
     lbind (Some (is_absolute path)) (\<lambda>abs.
     lbind (Some (path_prefix path)) (\<lambda>pre.
       if abs \<or> pre \<noteq> None then Some (Inr path)
       else if prefix_verbatim comps \<and> path \<noteq> [] then
         lbind (collect components_next comps []) (\<lambda>buf.
         lbind (Some (components path)) (\<lambda>cp.
         lbind (collect components_next cp []) (\<lambda>cs.
           Some (Inr (fst (foldl print_component ([], False) (foldl push_component buf cs)))))))
       else
         lbind (Some (path_has_root path)) (\<lambda>root.
           if root then Some (Inr (take (prefix_remaining comps) self @ path))
           else if need_sep then Some (Inr (self @ MAIN_SEP_STR @ path))
           else Some (Inr (self @ path))))))"

definition path_pop :: "bytes \<Rightarrow> (bool \<times> bytes) run" where
  "path_pop self =
     rbind (parent self) (\<lambda>p. Inr (case p of Some q \<Rightarrow> (True, take (length q) self) | None \<Rightarrow> (False, self)))"

definition set_file_name :: "bytes \<Rightarrow> bytes \<Rightarrow> bytes run option" where
  "set_file_name self name =
     lbind (Some (rbind (file_name self) (\<lambda>n. if n \<noteq> None then
         rbind (path_pop self) (\<lambda>(popped, self'). rbind (assert_run popped) (\<lambda>_. Inr self')) else Inr self)))
       (\<lambda>self'. path_push self' name)"

text \<open>
  Where the file name starts in the buffer: after \<open>next_back\<close> the remaining path
  ends before the name, or before the separator in front of it.
\<close>

definition file_name_offset :: "bytes \<Rightarrow> nat option run" where
  "file_name_offset s =
     rbind (components s) (\<lambda>comps.
     rbind (components_next_back comps) (\<lambda>(r, comps').
       let n = length (c_path comps') in
       Inr (case r of Some (Normal _) \<Rightarrow> Some (if n < length s \<and> is_sep_byte (s ! n) then n + 1 else n) | _ \<Rightarrow> None)))"

definition set_extension :: "bytes \<Rightarrow> bytes \<Rightarrow> (bool \<times> bytes) run" where
  "set_extension self ext =
     rbind (file_stem self) (\<lambda>st. case st of None \<Rightarrow> Inr (False, self)
       | Some stem \<Rightarrow>
           rbind (file_name_offset self) (\<lambda>o'.
           rbind (unwrap o') (\<lambda>off.
             let v = take (off + length stem) self
             in Inr (True, if ext \<noteq> [] then v @ [dot] @ ext else v))))"

definition path_join :: "bytes \<Rightarrow> bytes \<Rightarrow> bytes run option" where
  "path_join self path = path_push self path"

definition with_file_name :: "bytes \<Rightarrow> bytes \<Rightarrow> bytes run option" where
  "with_file_name self name = set_file_name self name"

definition with_extension :: "bytes \<Rightarrow> bytes \<Rightarrow> bytes run" where
  "with_extension self ext = rbind (set_extension self ext) (\<lambda>(_, buf). Inr buf)"

section \<open>Comparison and hashing\<close>

definition components_eq :: "Components \<Rightarrow> Components \<Rightarrow> bool run option" where
  "components_eq c d =
     (if length (c_path c) = length (c_path d) \<and> c_front c = c_front d \<and> c_back c = Body \<and> c_back d = Body \<and>
         prefix_verbatim c = prefix_verbatim d \<and> c_path c = c_path d then Some (Inr True)
      else iter_eq component_eq components_next_back components_next_back c d)"

definition path_eq :: "bytes \<Rightarrow> bytes \<Rightarrow> bool run option" where
  "path_eq s t = lbind (Some (components s)) (\<lambda>c. lbind (Some (components t)) (\<lambda>d. components_eq c d))"

definition byte_cmp :: "u8 \<Rightarrow> u8 \<Rightarrow> ordering" where
  "byte_cmp a b = (if a < b then Less else if a = b then Equal else Greater)"

definition nat_cmp :: "nat \<Rightarrow> nat \<Rightarrow> ordering" where
  "nat_cmp a b = (if a < b then Less else if a = b then Equal else Greater)"

definition then_cmp :: "ordering \<Rightarrow> ordering \<Rightarrow> ordering" where
  "then_cmp a b = (if a = Equal then b else a)"

abbreviation bytes_cmp :: "bytes \<Rightarrow> bytes \<Rightarrow> ordering" where "bytes_cmp \<equiv> lex_cmp byte_cmp"

fun prefix_num :: "Prefix \<Rightarrow> nat" where
  "prefix_num (Verbatim _) = 0"
| "prefix_num (VerbatimUNC _ _) = 1"
| "prefix_num (VerbatimDisk _) = 2"
| "prefix_num (DeviceNS _) = 3"
| "prefix_num (UNC _ _) = 4"
| "prefix_num (Disk _) = 5"

fun prefix_cmp :: "Prefix \<Rightarrow> Prefix \<Rightarrow> ordering" where
  "prefix_cmp (Verbatim x) (Verbatim y) = bytes_cmp x y"
| "prefix_cmp (VerbatimUNC x x') (VerbatimUNC y y') = then_cmp (bytes_cmp x y) (bytes_cmp x' y')"
| "prefix_cmp (VerbatimDisk x) (VerbatimDisk y) = byte_cmp x y"
| "prefix_cmp (DeviceNS x) (DeviceNS y) = bytes_cmp x y"
| "prefix_cmp (UNC x x') (UNC y y') = then_cmp (bytes_cmp x y) (bytes_cmp x' y')"
| "prefix_cmp (Disk x) (Disk y) = byte_cmp x y"
| "prefix_cmp p q = nat_cmp (prefix_num p) (prefix_num q)"

fun component_num :: "Component \<Rightarrow> nat" where
  "component_num (CPrefix _ _) = 0"
| "component_num RootDir = 1"
| "component_num CurDir = 2"
| "component_num ParentDir = 3"
| "component_num (Normal _) = 4"

fun component_cmp :: "Component \<Rightarrow> Component \<Rightarrow> ordering" where
  "component_cmp (CPrefix _ p) (CPrefix _ q) = prefix_cmp p q"
| "component_cmp (Normal x) (Normal y) = bytes_cmp x y"
| "component_cmp c d = nat_cmp (component_num c) (component_num d)"

text \<open>How far both sides are skipped: behind the last separator before the first difference.\<close>

definition skip_common :: "Components \<Rightarrow> Components \<Rightarrow> nat option" where
  "skip_common l r =
     (let first_difference = (case position (\<lambda>(a, b). a \<noteq> b) (zip (c_path l) (c_path r)) of
            None \<Rightarrow> min (length (c_path l)) (length (c_path r)) | Some d \<Rightarrow> d)
      in map_option Suc (rposition (c_is_sep_byte l) (take first_difference (c_path l))))"

definition compare_components :: "Components \<Rightarrow> Components \<Rightarrow> ordering run option" where
  "compare_components l r =
     (if c_prefix l = None \<and> c_prefix r = None \<and> c_front l = c_front r then
        (if position (\<lambda>(a, b). a \<noteq> b) (zip (c_path l) (c_path r)) = None \<and> length (c_path l) = length (c_path r)
         then Some (Inr Equal)
         else (case skip_common l r of
             None \<Rightarrow> iter_cmp component_cmp components_next components_next l r
           | Some n \<Rightarrow>
               lbind (Some (slice_from (c_path l) n)) (\<lambda>lp.
               lbind (Some (slice_from (c_path r) n)) (\<lambda>rp.
                 iter_cmp component_cmp components_next components_next
                   (l\<lparr>c_path := lp, c_front := Body\<rparr>) (r\<lparr>c_path := rp, c_front := Body\<rparr>)))))
      else iter_cmp component_cmp components_next components_next l r)"

definition path_cmp :: "bytes \<Rightarrow> bytes \<Rightarrow> ordering run option" where
  "path_cmp s t = lbind (Some (components s)) (\<lambda>c. lbind (Some (components t)) (\<lambda>d. compare_components c d))"

text \<open>The calls a path makes on a \<open>Hasher\<close>.\<close>

datatype hash_write = WritePrefix Prefix | Write bytes | WriteUsize nat

definition hash_turn :: "bool \<Rightarrow> bytes \<Rightarrow> nat \<times> nat \<times> hash_write list \<Rightarrow> nat \<Rightarrow> nat \<times> nat \<times> hash_write list" where
  "hash_turn verbatim bs = (\<lambda>(component_start, bytes_hashed, out) i.
     if (if verbatim then is_verbatim_sep (bs ! i) else is_sep_byte (bs ! i)) then
       (let (bytes_hashed, out) =
              (if i > component_start
               then (bytes_hashed + (i - component_start), out @ [Write (take (i - component_start) (drop component_start bs))])
               else (bytes_hashed, out));
            component_start = i + 1;
            tail = drop component_start bs
        in (if \<not> verbatim
            then component_start + (case tail of [x] \<Rightarrow> if x = dot then 1 else 0
              | x # y # _ \<Rightarrow> if x = dot \<and> is_sep_byte y then 1 else 0 | [] \<Rightarrow> 0)
            else component_start, bytes_hashed, out))
     else (component_start, bytes_hashed, out))"

definition path_hash :: "bytes \<Rightarrow> hash_write list run" where
  "path_hash s =
     (let (prefix_len, verbatim, out0) =
            (case parse_prefix s of Some p \<Rightarrow> (prefix_length p, is_verbatim p, [WritePrefix p]) | None \<Rightarrow> (0, False, []))
      in rbind (slice_from s prefix_len) (\<lambda>bs.
           let (component_start, bytes_hashed, out) = foldl (hash_turn verbatim bs) (0, 0, out0) [0..<length bs];
               (bytes_hashed, out) =
                 (if component_start < length bs
                  then (bytes_hashed + (length bs - component_start), out @ [Write (drop component_start bs)])
                  else (bytes_hashed, out))
           in Inr (out @ [WriteUsize bytes_hashed])))"

end
