(* ===== verification/Path_Components.thy ===== *)
theory Path_Components
  imports Path
begin

text \<open>
  The double-ended component iterator against a reference parser that splits a
  path at its separators: every state of the iterator stands for a list of
  components, \<open>next\<close> takes its first and \<open>next_back\<close> its last element, and
  \<open>as_path\<close> gives a path with exactly these components.
\<close>

section \<open>The reference parser\<close>

fun segs :: "bytes \<Rightarrow> bytes list" where
  "segs [] = [[]]"
| "segs (x # xs) = (if is_sep_byte x then [] # segs xs else (x # hd (segs xs)) # tl (segs xs))"

definition parse_seg :: "bytes \<Rightarrow> Component option" where
  "parse_seg s = (if s = [dot] \<or> s = [] then None else if s = [dot, dot] then Some ParentDir else Some (Normal s))"

definition body :: "bytes \<Rightarrow> Component list" where
  "body s = List.map_filter parse_seg (segs s)"

definition cur_start :: "bytes \<Rightarrow> bool" where
  "cur_start s = (case s of [x] \<Rightarrow> x = dot | x # y # _ \<Rightarrow> x = dot \<and> is_sep_byte y | [] \<Rightarrow> False)"

definition rooted :: "bytes \<Rightarrow> bool" where
  "rooted s \<longleftrightarrow> s \<noteq> [] \<and> is_sep_byte (hd s)"

definition ref_components :: "bytes \<Rightarrow> Component list" where
  "ref_components s =
     (if rooted s then RootDir # body (tl s) else if cur_start s then CurDir # body (tl s) else body s)"

lemma segs_ne [simp]: "segs s \<noteq> []"
  by (cases s) auto

lemma segs_no_sep: "\<forall>x \<in> set s. \<not> is_sep_byte x \<Longrightarrow> segs s = [s]"
  by (induction s) auto

lemma segs_sep: "is_sep_byte x \<Longrightarrow> segs (a @ x # b) = segs a @ segs b"
  by (induction a) auto

lemma map_filter_append: "List.map_filter f (xs @ ys) = List.map_filter f xs @ List.map_filter f ys"
  by (simp add: map_filter_def)

lemma body_sep: "is_sep_byte x \<Longrightarrow> body (a @ x # b) = body a @ body b"
  by (simp add: body_def segs_sep map_filter_append)

lemma body_no_sep: "\<forall>x \<in> set s. \<not> is_sep_byte x \<Longrightarrow> body s = (case parse_seg s of None \<Rightarrow> [] | Some c \<Rightarrow> [c])"
  by (simp add: body_def segs_no_sep map_filter_def split: option.splits)

lemma body_Nil [simp]: "body [] = []"
  by (simp add: body_def parse_seg_def map_filter_def)

lemma body_sep_Cons: "is_sep_byte x \<Longrightarrow> body (x # s) = body s"
  using body_sep [of x "[]" s] by simp

section \<open>Positions\<close>

lemma position_None: "position P xs = None \<longleftrightarrow> (\<forall>x \<in> set xs. \<not> P x)"
  by (induction xs) auto

lemma position_Some:
  "position P xs = Some i \<Longrightarrow> i < length xs \<and> P (xs ! i) \<and> (\<forall>x \<in> set (take i xs). \<not> P x)"
  by (induction xs arbitrary: i) (auto split: if_splits)

lemma rposition_None: "rposition P xs = None \<longleftrightarrow> (\<forall>x \<in> set xs. \<not> P x)"
  by (simp add: rposition_def position_None)

lemma rposition_Some:
  assumes "rposition P xs = Some i"
  shows "i < length xs \<and> P (xs ! i) \<and> (\<forall>x \<in> set (drop (Suc i) xs). \<not> P x)"
proof -
  obtain j where j: "position P (rev xs) = Some j" "i = length xs - 1 - j" using assms by (auto simp: rposition_def)
  note p = position_Some [OF j(1)]
  have "rev (take j (rev xs)) = drop (Suc i) xs" using p j(2) by (simp add: rev_take Suc_diff_Suc)
  then have "set (drop (Suc i) xs) = set (take j (rev xs))" by (metis set_rev)
  then show ?thesis using p j(2) by (auto simp: rev_nth)
qed

lemma split_at: "i < length xs \<Longrightarrow> xs = take i xs @ xs ! i # drop (Suc i) xs"
  by (rule id_take_nth_drop)

section \<open>Iterator states as lists of components\<close>

definition lbb :: "Components \<Rightarrow> nat" where
  "lbb c = (if state_num (c_front c) \<le> 1 \<and> (c_has_physical_root c \<or> cur_start (c_path c)) then 1 else 0)"

definition start_comps :: "Components \<Rightarrow> Component list" where
  "start_comps c =
     (if state_num (c_front c) \<le> 1 \<and> 1 \<le> state_num (c_back c)
      then (if c_has_physical_root c then [RootDir] else if cur_start (c_path c) then [CurDir] else []) else [])"

definition remaining :: "Components \<Rightarrow> Component list" where
  "remaining c = (if finished c then [] else start_comps c @ body (drop (lbb c) (c_path c)))"

definition c_inv :: "Components \<Rightarrow> bool" where
  "c_inv c \<longleftrightarrow> c_prefix c = None \<and>
     (state_num (c_front c) \<le> 1 \<longrightarrow> c_back c = StartDir \<or> c_back c = Body \<longrightarrow> c_has_physical_root c = rooted (c_path c)) \<and>
     (c_back c \<noteq> Body \<longrightarrow> length (c_path c) \<le> lbb c) \<and>
     (c_back c = SPrefix \<or> c_back c = Done \<or> c_front c = Done \<longrightarrow> c_path c = [])"

lemma no_prefix:
  assumes "c_prefix c = None"
  shows "prefix_len c = 0" "prefix_verbatim c = False" "prefix_remaining c = 0" "has_root c = c_has_physical_root c"
    "c_is_sep_byte c = is_sep_byte" "parse_single_component c = parse_seg"
    "include_cur_dir c = Inr (\<not> c_has_physical_root c \<and> cur_start (c_path c))"
    "len_before_body c = Inr (lbb c)"
  using assms
  by (auto simp: prefix_len_def prefix_verbatim_def prefix_remaining_def has_root_def c_is_sep_byte_def
      parse_single_component_def parse_seg_def include_cur_dir_def cur_start_def slice_from_def len_before_body_def lbb_def
      fun_eq_iff split: list.splits)

lemma lbb_path: "c_inv c \<Longrightarrow> c_back c = StartDir \<or> c_back c = Body \<Longrightarrow> lbb c \<le> length (c_path c)"
  by (cases "c_path c") (auto simp: c_inv_def lbb_def rooted_def cur_start_def)

lemma parse_next_component_eq:
  assumes "c_prefix c = None" "c_front c = Body"
  shows "parse_next_component c =
    Inr (case position is_sep_byte (c_path c) of None \<Rightarrow> (length (c_path c), parse_seg (c_path c))
         | Some i \<Rightarrow> (Suc i, parse_seg (take i (c_path c))))"
  using assms by (auto simp: parse_next_component_def no_prefix split: option.splits dest: position_Some)

lemma body_front:
  "case position is_sep_byte s of
     None \<Rightarrow> body s = (case parse_seg s of None \<Rightarrow> [] | Some c \<Rightarrow> [c])
   | Some i \<Rightarrow> body s = (case parse_seg (take i s) of None \<Rightarrow> [] | Some c \<Rightarrow> [c]) @ body (drop (Suc i) s) \<and> i < length s"
proof (cases "position is_sep_byte s")
  case None
  then have "body s = (case parse_seg s of None \<Rightarrow> [] | Some c \<Rightarrow> [c])" by (simp add: position_None body_no_sep)
  then show ?thesis using None by simp
next
  case (Some i)
  note p = position_Some [OF Some]
  then have "body s = body (take i s) @ body (drop (Suc i) s)" using body_sep split_at by metis
  then show ?thesis using p Some by (simp add: body_no_sep)
qed

lemma body_back:
  "case rposition is_sep_byte s of
     None \<Rightarrow> body s = (case parse_seg s of None \<Rightarrow> [] | Some c \<Rightarrow> [c])
   | Some i \<Rightarrow> body s = body (take i s) @ (case parse_seg (drop (Suc i) s) of None \<Rightarrow> [] | Some c \<Rightarrow> [c]) \<and>
       i < length s \<and> is_sep_byte (s ! i)"
proof (cases "rposition is_sep_byte s")
  case None
  then have "body s = (case parse_seg s of None \<Rightarrow> [] | Some c \<Rightarrow> [c])" by (simp add: rposition_None body_no_sep)
  then show ?thesis using None by simp
next
  case (Some i)
  note p = rposition_Some [OF Some]
  then have "body s = body (take i s) @ body (drop (Suc i) s)" using body_sep split_at by metis
  then show ?thesis using p Some by (simp add: body_no_sep)
qed

section \<open>Turns of the loops\<close>

lemma next_turn_ok:
  assumes inv: "c_inv c" and nf: "\<not> finished c"
  shows "\<exists>r c'. next_turn c = Inr (r, c') \<and> c_inv c' \<and>
    (case r of None \<Rightarrow> remaining c' = remaining c
     | Some x \<Rightarrow> x = hd_opt (remaining c) \<and> remaining c \<noteq> [] \<and> remaining c' = tl (remaining c))"
proof -
  have pre: "c_prefix c = None" using inv by (simp add: c_inv_def)
  show ?thesis
  proof (cases "c_front c")
    case SPrefix
    then show ?thesis
      using inv nf pre
      by (auto simp: next_turn_def no_prefix c_inv_def remaining_def start_comps_def lbb_def finished_def)
  next
    case StartDir
    then have b: "c_back c = StartDir \<or> c_back c = Body" using nf by (cases "c_back c") (auto simp: finished_def)
    then have root: "c_has_physical_root c = rooted (c_path c)" using inv StartDir by (simp add: c_inv_def)
    show ?thesis
      using inv nf pre StartDir b root
      by (cases "c_path c")
        (auto simp: next_turn_def no_prefix c_inv_def remaining_def start_comps_def lbb_def finished_def Let_def rooted_def
          slice_from_def cur_start_def split: list.splits)
  next
    case Body
    then have b: "c_back c = Body" using nf by (cases "c_back c") (auto simp: finished_def)
    show ?thesis
    proof (cases "c_path c = []")
      case True
      then show ?thesis
        using inv pre Body b by (auto simp: next_turn_def c_inv_def remaining_def start_comps_def lbb_def finished_def)
    next
      case False
      have upd: "c_inv (c\<lparr>c_path := s\<rparr>) \<and> remaining (c\<lparr>c_path := s\<rparr>) = body s" for s
        using pre Body b by (simp add: c_inv_def remaining_def start_comps_def lbb_def finished_def)
      have rem: "remaining c = body (c_path c)" using upd [of "c_path c"] by simp
      show ?thesis
      proof (cases "position is_sep_byte (c_path c)")
        case None
        then have "next_turn c = Inr (if parse_seg (c_path c) = None then None else Some (parse_seg (c_path c)), c\<lparr>c_path := []\<rparr>)"
          using False Body pre by (simp add: next_turn_def parse_next_component_eq slice_from_def)
        moreover have "body (c_path c) = (case parse_seg (c_path c) of None \<Rightarrow> [] | Some x \<Rightarrow> [x])"
          using body_front [of "c_path c"] None by simp
        ultimately show ?thesis using upd [of "[]"] rem by (cases "parse_seg (c_path c)") simp_all
      next
        case (Some i)
        let ?s = "take i (c_path c)" and ?rest = "drop (Suc i) (c_path c)"
        have bf: "body (c_path c) = (case parse_seg ?s of None \<Rightarrow> [] | Some x \<Rightarrow> [x]) @ body ?rest" "i < length (c_path c)"
          using body_front [of "c_path c"] Some by simp_all
        then have "next_turn c = Inr (if parse_seg ?s = None then None else Some (parse_seg ?s), c\<lparr>c_path := ?rest\<rparr>)"
          using False Body pre Some by (simp add: next_turn_def parse_next_component_eq slice_from_def)
        then show ?thesis using upd [of ?rest] rem bf(1) by (cases "parse_seg ?s") simp_all
      qed
    qed
  next
    case Done
    then show ?thesis using nf by (simp add: finished_def)
  qed
qed

lemma next_ok:
  "c_inv c \<Longrightarrow> \<exists>c'. components_next c = Inr (hd_opt (remaining c), c') \<and> c_inv c' \<and> remaining c' = tl (remaining c)"
proof (induction c rule: components_next.induct)
  case (1 c)
  show ?case
  proof (cases "finished c")
    case True
    then show ?thesis using 1(2) by (subst components_next.simps) (simp add: remaining_def)
  next
    case False
    obtain r c' where t: "next_turn c = Inr (r, c')" "c_inv c'"
        "case r of None \<Rightarrow> remaining c' = remaining c
         | Some x \<Rightarrow> x = hd_opt (remaining c) \<and> remaining c \<noteq> [] \<and> remaining c' = tl (remaining c)"
      using next_turn_ok [OF 1(2) False] by auto
    show ?thesis
    proof (cases r)
      case None
      then show ?thesis using t False 1(1) [OF False t(1) refl] by (subst components_next.simps) simp
    next
      case (Some x)
      then show ?thesis using t False by (subst components_next.simps) simp
    qed
  qed
qed

lemma parse_next_component_back_eq:
  assumes "c_prefix c = None" "c_back c = Body" "lbb c \<le> length (c_path c)"
  shows "parse_next_component_back c =
    Inr (let tail = drop (lbb c) (c_path c) in
         case rposition is_sep_byte tail of None \<Rightarrow> (length tail, parse_seg tail)
         | Some i \<Rightarrow> (length tail - i, parse_seg (drop (Suc i) tail)))"
  using assms
  by (auto simp: parse_next_component_back_def no_prefix slice_from_def Let_def add.commute split: option.splits dest: rposition_lt)

lemma cur_start_take:
  assumes "n \<le> length s" "n = 0 \<or> (n < length s \<and> is_sep_byte (s ! n))" "\<not> cur_start s"
  shows "\<not> cur_start (take n s)"
proof (cases s)
  case (Cons x s')
  show ?thesis
  proof (cases s')
    case Nil
    then show ?thesis using assms Cons by (cases n) (auto simp: cur_start_def)
  next
    case C': (Cons y s'')
    then show ?thesis
      using assms Cons
      by (cases n; cases "n - 1") (auto simp: cur_start_def split: list.splits)
  qed
qed (use assms in simp)

lemma cur_start_take_pos: "cur_start s \<Longrightarrow> 0 < n \<Longrightarrow> cur_start (take n s)"
  by (cases n; cases "n - 1") (auto simp: cur_start_def split: list.splits)

lemma cut_ok:
  assumes inv: "c_inv c" and b: "c_back c = Body"
    and n: "n = lbb c \<or> (lbb c \<le> n \<and> n < length (c_path c) \<and> is_sep_byte (c_path c ! n))"
  shows "c_inv (c\<lparr>c_path := take n (c_path c)\<rparr>)" "lbb (c\<lparr>c_path := take n (c_path c)\<rparr>) = lbb c"
    "start_comps (c\<lparr>c_path := take n (c_path c)\<rparr>) = start_comps c"
proof -
  have le: "lbb c \<le> length (c_path c)" using lbb_path inv b by blast
  have cs: "cur_start (take n (c_path c)) = cur_start (c_path c)"
    if "state_num (c_front c) \<le> 1" "\<not> c_has_physical_root c"
  proof (cases "cur_start (c_path c)")
    case True
    then have "0 < n" using n that by (auto simp: lbb_def)
    then show ?thesis using True cur_start_take_pos by blast
  next
    case False
    then show ?thesis using n le that cur_start_take [of n "c_path c"] by (auto simp: lbb_def)
  qed
  show "lbb (c\<lparr>c_path := take n (c_path c)\<rparr>) = lbb c" using cs by (auto simp: lbb_def)
  show "start_comps (c\<lparr>c_path := take n (c_path c)\<rparr>) = start_comps c" using cs by (auto simp: start_comps_def)
  have r: "c_has_physical_root c = rooted (take n (c_path c))" if "state_num (c_front c) \<le> 1"
  proof -
    have "c_has_physical_root c = rooted (c_path c)" using inv b that by (simp add: c_inv_def)
    moreover have "c_has_physical_root c \<longrightarrow> 0 < n" using n that by (auto simp: lbb_def)
    ultimately show ?thesis by (cases "c_path c"; cases n) (auto simp: rooted_def)
  qed
  show "c_inv (c\<lparr>c_path := take n (c_path c)\<rparr>)" using inv b r by (simp add: c_inv_def)
qed

definition last_opt :: "'a list \<Rightarrow> 'a option" where
  "last_opt xs = (if xs = [] then None else Some (last xs))"

lemma last_opt_simps [simp]: "last_opt [] = None" "last_opt (xs @ [x]) = Some x" "last_opt [x] = Some x" "hd_opt (rev xs) = last_opt xs"
  by (cases xs rule: rev_cases; simp add: last_opt_def)+

text \<open>A segment is cut off at the back: at the start of the body or at a separator.\<close>

definition cut_at :: "Components \<Rightarrow> nat \<Rightarrow> bool" where
  "cut_at c n \<longleftrightarrow> n = lbb c \<or> (lbb c \<le> n \<and> n < length (c_path c) \<and> is_sep_byte (c_path c ! n))"

lemma parse_back_ok:
  assumes inv: "c_inv c" and b: "c_back c = Body" and len: "lbb c < length (c_path c)"
  obtains n x where "parse_next_component_back c = Inr (length (c_path c) - n, x)" "n < length (c_path c)" "cut_at c n"
    "c_inv (c\<lparr>c_path := take n (c_path c)\<rparr>)"
    "\<not> finished c \<Longrightarrow> remaining c = remaining (c\<lparr>c_path := take n (c_path c)\<rparr>) @ (case x of None \<Rightarrow> [] | Some y \<Rightarrow> [y])"
    "\<exists>sp seg. c_path c = take n (c_path c) @ sp @ seg \<and> parse_seg seg = x \<and> (\<forall>y \<in> set seg. \<not> is_sep_byte y) \<and>
       (sp = [] \<and> n = lbb c \<or> (\<exists>y. sp = [y] \<and> is_sep_byte y))"
proof -
  have pre: "c_prefix c = None" using inv by (simp add: c_inv_def)
  let ?tail = "drop (lbb c) (c_path c)"
  note eq = parse_next_component_back_eq [OF pre b less_imp_le [OF len], unfolded Let_def]
  have rem: "remaining (c\<lparr>c_path := take n (c_path c)\<rparr>) = start_comps c @ body (take (n - lbb c) ?tail)"
    if "cut_at c n" "\<not> finished c" for n
    using cut_ok [OF inv b that(1) [unfolded cut_at_def]] that(2) by (simp add: remaining_def finished_def drop_take)
  have rc: "remaining c = start_comps c @ body ?tail" if "\<not> finished c" using that by (simp add: remaining_def)
  show ?thesis
  proof (cases "rposition is_sep_byte ?tail")
    case None
    have c: "cut_at c (lbb c)" by (simp add: cut_at_def)
    have bt: "body ?tail = (case parse_seg ?tail of None \<Rightarrow> [] | Some y \<Rightarrow> [y])" using body_back [of ?tail] None by simp
    have loc: "\<exists>sp seg. c_path c = take (lbb c) (c_path c) @ sp @ seg \<and> parse_seg seg = parse_seg ?tail \<and>
        (\<forall>y \<in> set seg. \<not> is_sep_byte y) \<and> (sp = [] \<and> lbb c = lbb c \<or> (\<exists>y. sp = [y] \<and> is_sep_byte y))"
      by (rule exI [of _ "[]"], rule exI [of _ ?tail]) (use None in \<open>simp add: rposition_None\<close>)
    show ?thesis
      by (rule that [of "lbb c" "parse_seg ?tail", OF _ _ _ _ _ loc]) (use eq None len c cut_ok(1) [OF inv b] rem rc bt in \<open>auto simp: cut_at_def\<close>)
  next
    case (Some i)
    have bb: "body ?tail = body (take i ?tail) @ (case parse_seg (drop (Suc i) ?tail) of None \<Rightarrow> [] | Some c \<Rightarrow> [c])"
      "i < length ?tail" "is_sep_byte (?tail ! i)" using body_back [of ?tail] Some by simp_all
    have n: "cut_at c (lbb c + i)" "lbb c + i < length (c_path c)" using bb(2,3) len by (auto simp: cut_at_def)
    have "parse_next_component_back c = Inr (length (c_path c) - (lbb c + i), parse_seg (drop (Suc i) ?tail))"
      unfolding eq Some using bb(2) by simp
    moreover have "remaining c = remaining (c\<lparr>c_path := take (lbb c + i) (c_path c)\<rparr>) @
        (case parse_seg (drop (Suc i) ?tail) of None \<Rightarrow> [] | Some y \<Rightarrow> [y])" if "\<not> finished c"
      using rem [OF n(1) that] rc [OF that] bb(1) by simp
    moreover have "c_path c = take (lbb c + i) (c_path c) @ [?tail ! i] @ drop (Suc i) ?tail"
      using split_at [OF n(2)] bb(2) by (simp add: add.commute [of i])
    then have "\<exists>sp seg. c_path c = take (lbb c + i) (c_path c) @ sp @ seg \<and> parse_seg seg = parse_seg (drop (Suc i) ?tail) \<and>
        (\<forall>y \<in> set seg. \<not> is_sep_byte y) \<and> (sp = [] \<and> lbb c + i = lbb c \<or> (\<exists>y. sp = [y] \<and> is_sep_byte y))"
      using rposition_Some [OF Some] bb(3) by blast
    ultimately show ?thesis using that [of "lbb c + i"] n cut_ok(1) [OF inv b n(1) [unfolded cut_at_def]] by blast
  qed
qed

lemma next_back_body:
  assumes inv: "c_inv c" and b: "c_back c = Body" and nf: "\<not> finished c" and len: "lbb c < length (c_path c)"
  shows "\<exists>x n. next_back_turn c = Inr (if x = None then None else Some x, c\<lparr>c_path := take n (c_path c)\<rparr>) \<and>
    c_inv (c\<lparr>c_path := take n (c_path c)\<rparr>) \<and> cut_at c n \<and>
    remaining c = remaining (c\<lparr>c_path := take n (c_path c)\<rparr>) @ (case x of None \<Rightarrow> [] | Some y \<Rightarrow> [y])"
proof -
  have pre: "c_prefix c = None" using inv by (simp add: c_inv_def)
  obtain n x where p: "parse_next_component_back c = Inr (length (c_path c) - n, x)" "n < length (c_path c)" "cut_at c n"
    "c_inv (c\<lparr>c_path := take n (c_path c)\<rparr>)"
    "remaining c = remaining (c\<lparr>c_path := take n (c_path c)\<rparr>) @ (case x of None \<Rightarrow> [] | Some y \<Rightarrow> [y])"
    by (rule parse_back_ok [OF inv b len]) (use nf in blast)
  have "next_back_turn c = Inr (if x = None then None else Some x, c\<lparr>c_path := take n (c_path c)\<rparr>)"
    using pre b len p(1,2) by (simp add: next_back_turn_def no_prefix nat_sub_chk_def slice_to_def)
  then show ?thesis using p by blast
qed

lemma next_back_turn_ok:
  assumes inv: "c_inv c" and nf: "\<not> finished c"
  shows "\<exists>r c'. next_back_turn c = Inr (r, c') \<and> c_inv c' \<and>
    (case r of None \<Rightarrow> remaining c' = remaining c
     | Some x \<Rightarrow> x = last_opt (remaining c) \<and> remaining c' = butlast (remaining c))"
proof -
  have pre: "c_prefix c = None" using inv by (simp add: c_inv_def)
  show ?thesis
  proof (cases "c_back c")
    case SPrefix
    then show ?thesis
      using inv nf pre
      by (auto simp: next_back_turn_def no_prefix c_inv_def remaining_def start_comps_def finished_def Let_def)
  next
    case StartDir
    then have f: "state_num (c_front c) \<le> 1" using nf by (simp add: finished_def)
    then have root: "c_has_physical_root c = rooted (c_path c)" using inv StartDir by (simp add: c_inv_def)
    have len: "length (c_path c) \<le> lbb c" "lbb c \<le> length (c_path c)" using inv StartDir lbb_path by (auto simp: c_inv_def)
    show ?thesis
      using inv nf pre StartDir f root len
      by (auto simp: next_back_turn_def no_prefix c_inv_def remaining_def start_comps_def lbb_def finished_def Let_def
          slice_to_def nat_sub_chk_def split: if_splits)
  next
    case Body
    show ?thesis
    proof (cases "lbb c < length (c_path c)")
      case True
      obtain x n where "next_back_turn c = Inr (if x = None then None else Some x, c\<lparr>c_path := take n (c_path c)\<rparr>)"
        "c_inv (c\<lparr>c_path := take n (c_path c)\<rparr>)"
        "remaining c = remaining (c\<lparr>c_path := take n (c_path c)\<rparr>) @ (case x of None \<Rightarrow> [] | Some y \<Rightarrow> [y])"
        using next_back_body [OF inv Body nf True] by blast
      then show ?thesis by (cases x) simp_all
    next
      case False
      then have "next_back_turn c = Inr (None, c\<lparr>c_back := StartDir\<rparr>)" using Body pre by (simp add: next_back_turn_def no_prefix)
      moreover have "c_inv (c\<lparr>c_back := StartDir\<rparr>) \<and> remaining (c\<lparr>c_back := StartDir\<rparr>) = remaining c"
        using False inv Body nf by (auto simp: c_inv_def remaining_def start_comps_def lbb_def finished_def)
      ultimately show ?thesis by simp
    qed
  next
    case Done
    then show ?thesis using nf by (simp add: finished_def)
  qed
qed

lemma next_back_ok:
  "c_inv c \<Longrightarrow> \<exists>c'. components_next_back c = Inr (last_opt (remaining c), c') \<and> c_inv c' \<and> remaining c' = butlast (remaining c)"
proof (induction c rule: components_next_back.induct)
  case (1 c)
  show ?case
  proof (cases "finished c")
    case True
    then show ?thesis using 1(2) by (subst components_next_back.simps) (simp add: remaining_def)
  next
    case False
    obtain r c' where t: "next_back_turn c = Inr (r, c')" "c_inv c'"
        "case r of None \<Rightarrow> remaining c' = remaining c
         | Some x \<Rightarrow> x = last_opt (remaining c) \<and> remaining c' = butlast (remaining c)"
      using next_back_turn_ok [OF 1(2) False] by auto
    show ?thesis
    proof (cases r)
      case None
      then show ?thesis using t False 1(1) [OF False t(1) refl] by (subst components_next_back.simps) simp
    next
      case (Some x)
      then show ?thesis using t False by (subst components_next_back.simps) simp
    qed
  qed
qed

interpretation fwd: iterator components_next c_inv remaining
  by unfold_locales (rule next_ok)

interpretation bwd: iterator components_next_back c_inv "\<lambda>c. rev (remaining c)"
proof
  fix c assume "c_inv c"
  from next_back_ok [OF this] show "\<exists>c'. components_next_back c = Inr (hd_opt (rev (remaining c)), c') \<and> c_inv c' \<and>
      rev (remaining c') = tl (rev (remaining c))"
    by (metis last_opt_simps(4) butlast_rev rev_rev_ident)
qed

interpretation fwd2: iterator_pair components_next c_inv remaining components_next c_inv remaining
  by unfold_locales

interpretation bwd2: iterator_pair components_next_back c_inv "\<lambda>c. rev (remaining c)" components_next_back c_inv "\<lambda>c. rev (remaining c)"
  by unfold_locales

lemma components_ok:
  "\<exists>c. components s = Inr c \<and> c_inv c \<and> remaining c = ref_components s \<and>
     c_path c = s \<and> c_front c = SPrefix \<and> c_back c = Body \<and> c_has_physical_root c = rooted s"
  by (auto simp: components_def parse_prefix_def has_physical_root_def c_inv_def remaining_def finished_def start_comps_def
      lbb_def ref_components_def rooted_def drop_Suc)

section \<open>The remaining path\<close>

lemma ref_components_state:
  assumes "c_inv c" "state_num (c_front c) \<le> 1" "c_back c = StartDir \<or> c_back c = Body"
  shows "remaining c = ref_components (c_path c)"
proof -
  have "\<not> finished c" using assms(2,3) by (cases "c_front c") (auto simp: finished_def)
  then show ?thesis
    using assms by (auto simp: remaining_def ref_components_def start_comps_def lbb_def c_inv_def drop_Suc)
qed

lemma parsed_first:
  assumes "case position is_sep_byte s of None \<Rightarrow> parse_seg s \<noteq> None | Some i \<Rightarrow> parse_seg (take i s) \<noteq> None"
  shows "\<not> rooted s" "\<not> cur_start s"
proof -
  have "parse_seg [] = None" "parse_seg [dot] = None" by (simp_all add: parse_seg_def)
  then show "\<not> rooted s" "\<not> cur_start s"
    using assms by (cases s; auto simp: rooted_def cur_start_def split: list.splits if_splits option.splits)+
qed

lemma trim_left_ok:
  "c_inv c \<Longrightarrow> c_front c = Body \<Longrightarrow> c_back c = Body \<Longrightarrow>
   \<exists>s. trim_left c = Inr (c\<lparr>c_path := s\<rparr>) \<and> body s = body (c_path c) \<and> \<not> rooted s \<and> \<not> cur_start s"
proof (induction c rule: trim_left.induct)
  case (1 c)
  have pre: "c_prefix c = None" using 1 by (simp add: c_inv_def)
  note eq = parse_next_component_eq [OF pre 1(3)] and bf = body_front [of "c_path c"]
  have inv: "c_inv (c\<lparr>c_path := s\<rparr>)" for s using 1 by (simp add: c_inv_def)
  show ?case
  proof (cases "c_path c = []")
    case True
    have "c = c\<lparr>c_path := []\<rparr>" using True by (cases c) simp
    moreover have "trim_left c = Inr c" using True by (subst trim_left.simps) simp
    ultimately show ?thesis using True by (intro exI [of _ "[]"]) (simp add: rooted_def cur_start_def)
  next
    case ne: False
    obtain sz x where px: "parse_next_component c = Inr (sz, x)" "sz \<le> length (c_path c)"
        "body (c_path c) = (case x of None \<Rightarrow> [] | Some y \<Rightarrow> [y]) @ body (drop sz (c_path c))"
        "x \<noteq> None \<longrightarrow> \<not> rooted (c_path c) \<and> \<not> cur_start (c_path c)"
      using eq bf parsed_first [of "c_path c"] by (cases "position is_sep_byte (c_path c)") auto
    show ?thesis
    proof (cases x)
      case None
      have "\<exists>s. trim_left (c\<lparr>c_path := drop sz (c_path c)\<rparr>) = Inr (c\<lparr>c_path := drop sz (c_path c), c_path := s\<rparr>) \<and>
          body s = body (c_path (c\<lparr>c_path := drop sz (c_path c)\<rparr>)) \<and> \<not> rooted s \<and> \<not> cur_start s"
        by (rule 1(1) [OF ne px(1) refl]) (use None px inv 1 in \<open>auto simp: slice_from_def\<close>)
      then show ?thesis using ne px None by (subst trim_left.simps) (simp add: slice_from_def)
    next
      case (Some y)
      then have "trim_left c = Inr (c\<lparr>c_path := c_path c\<rparr>)" using ne px by (subst trim_left.simps) simp
      then show ?thesis using px(4) Some by blast
    qed
  qed
qed

lemma trim_right_ok:
  "c_inv c \<Longrightarrow> c_back c = Body \<Longrightarrow>
   \<exists>n. trim_right c = Inr (c\<lparr>c_path := take n (c_path c)\<rparr>) \<and> c_inv (c\<lparr>c_path := take n (c_path c)\<rparr>) \<and>
     (\<not> finished c \<longrightarrow> remaining (c\<lparr>c_path := take n (c_path c)\<rparr>) = remaining c) \<and>
     (c_front c = Body \<longrightarrow> \<not> rooted (c_path c) \<and> \<not> cur_start (c_path c) \<longrightarrow>
        \<not> rooted (take n (c_path c)) \<and> \<not> cur_start (take n (c_path c)))"
proof (induction c rule: trim_right.induct)
  case (1 c)
  have pre: "c_prefix c = None" using 1 by (simp add: c_inv_def)
  have stay: ?case if "trim_right c = Inr c"
    using that 1 by (intro exI [of _ "length (c_path c)"]) simp
  show ?case
  proof (cases "lbb c < length (c_path c)")
    case True
    obtain n x where p: "parse_next_component_back c = Inr (length (c_path c) - n, x)" "n < length (c_path c)" "cut_at c n"
      "c_inv (c\<lparr>c_path := take n (c_path c)\<rparr>)"
      "\<not> finished c \<longrightarrow> remaining c = remaining (c\<lparr>c_path := take n (c_path c)\<rparr>) @ (case x of None \<Rightarrow> [] | Some y \<Rightarrow> [y])"
      by (rule parse_back_ok [OF 1(2,3) True]) blast
    show ?thesis
    proof (cases x)
      case None
      let ?c = "c\<lparr>c_path := take n (c_path c)\<rparr>"
      have sl: "nat_sub_chk (length (c_path c)) (length (c_path c) - n) = Inr n" "slice_to (c_path c) n = Inr (take n (c_path c))"
        using p(2) by (simp_all add: nat_sub_chk_def slice_to_def)
      have t: "trim_right c = trim_right ?c"
        using pre True p None sl by (subst trim_right.simps) (simp add: no_prefix)
      obtain k where k: "trim_right ?c = Inr (?c\<lparr>c_path := take k (c_path ?c)\<rparr>)" "c_inv (?c\<lparr>c_path := take k (c_path ?c)\<rparr>)"
        "\<not> finished ?c \<longrightarrow> remaining (?c\<lparr>c_path := take k (c_path ?c)\<rparr>) = remaining ?c"
        "c_front ?c = Body \<longrightarrow> \<not> rooted (c_path ?c) \<and> \<not> cur_start (c_path ?c) \<longrightarrow>
          \<not> rooted (take k (c_path ?c)) \<and> \<not> cur_start (take k (c_path ?c))"
        using 1(1) [OF no_prefix(8) [OF pre] True p(1) refl _ sl] None p(4) 1(3) by auto
      have "\<not> cur_start (take n (c_path c))" if "c_front c = Body" "\<not> cur_start (c_path c)"
        using cur_start_take [of n "c_path c"] p(2,3) that by (simp add: cut_at_def lbb_def)
      moreover have "\<not> rooted (take n (c_path c))" if "\<not> rooted (c_path c)"
        using that by (cases "c_path c"; cases n) (auto simp: rooted_def)
      moreover have "finished ?c = finished c" by (simp add: finished_def)
      ultimately show ?thesis using t k p(5) None by (intro exI [of _ "min k n"]) (simp add: min.commute)
    next
      case (Some y)
      show ?thesis by (rule stay, subst trim_right.simps) (use pre True p Some in \<open>simp add: no_prefix\<close>)
    qed
  next
    case False
    show ?thesis by (rule stay, subst trim_right.simps) (use pre False in \<open>simp add: no_prefix\<close>)
  qed
qed

lemma as_path_ok:
  assumes inv: "c_inv c"
  shows "\<exists>p. as_path c = Inr p \<and> ref_components p = remaining c \<and>
    (c_front c = SPrefix \<longrightarrow> (\<exists>n. p = take n (c_path c)))"
proof -
  have empty: ?thesis if "c_path c = []"
  proof -
    have e: "c\<lparr>c_path := []\<rparr> = c" using that by (cases c) simp
    have "trim_left c = Inr c" using that by (subst trim_left.simps) simp
    moreover have "trim_right c = Inr c" if "c_back c = Body" using trim_right_ok [OF inv that] \<open>c_path c = []\<close> e by auto
    ultimately have "as_path c = Inr []" using that by (auto simp: as_path_def)
    moreover have "remaining c = []"
      using inv that by (cases "c_back c") (auto simp: remaining_def finished_def start_comps_def c_inv_def rooted_def cur_start_def)
    ultimately show ?thesis by (simp add: ref_components_def rooted_def cur_start_def)
  qed
  show ?thesis
  proof (cases "c_path c = []")
    case False
    then have f: "c_front c \<noteq> Done" and b: "c_back c = StartDir \<or> c_back c = Body"
      using inv by (cases "c_back c"; auto simp: c_inv_def)+
    show ?thesis
    proof (cases "c_front c = Body")
      case True
      then have bb: "c_back c = Body" using inv b False by (auto simp: c_inv_def lbb_def)
      obtain s where s: "trim_left c = Inr (c\<lparr>c_path := s\<rparr>)" "body s = body (c_path c)" "\<not> rooted s" "\<not> cur_start s"
        using trim_left_ok [OF inv True bb] by auto
      have i: "c_inv (c\<lparr>c_path := s\<rparr>)" using inv True bb by (simp add: c_inv_def)
      obtain n where n: "trim_right (c\<lparr>c_path := s\<rparr>) = Inr (c\<lparr>c_path := take n s\<rparr>)" "\<not> rooted (take n s)" "\<not> cur_start (take n s)"
          "remaining (c\<lparr>c_path := take n s\<rparr>) = remaining (c\<lparr>c_path := s\<rparr>)"
        using trim_right_ok [OF i] bb True s(3,4) by (auto simp: finished_def)
      have "remaining (c\<lparr>c_path := t\<rparr>) = body t" for t
        using True bb by (simp add: remaining_def finished_def start_comps_def lbb_def)
      from this [of s] this [of "take n s"] this [of "c_path c"] have "body (take n s) = remaining c" using n(4) s(2) by simp
      then show ?thesis using s(1) n True bb by (simp add: as_path_def ref_components_def)
    next
      case nb: False
      then have f1: "state_num (c_front c) \<le> 1" using f by (cases "c_front c") auto
      show ?thesis
      proof (cases "c_back c = Body")
        case True
        obtain n where n: "trim_right c = Inr (c\<lparr>c_path := take n (c_path c)\<rparr>)" "c_inv (c\<lparr>c_path := take n (c_path c)\<rparr>)"
            "remaining (c\<lparr>c_path := take n (c_path c)\<rparr>) = remaining c"
          using trim_right_ok [OF inv True] f f1 True by (auto simp: finished_def)
        then show ?thesis using ref_components_state [OF n(2)] f1 True nb by (auto simp: as_path_def)
      next
        case F: False
        then show ?thesis
          using ref_components_state [OF inv f1 b] nb by (auto simp: as_path_def intro: exI [of _ "length (c_path c)"])
      qed
    qed
  qed (rule empty)
qed

end
