(* ===== verification/Path_Ops.thy ===== *)
theory Path_Ops
  imports Path_Components
begin

text \<open>
  The operations of \<open>Path\<close> and \<open>PathBuf\<close> in terms of the components of paths, and
  the calling sequences on the component iterator.
\<close>

section \<open>Sequences of calls\<close>

text \<open>A sequence of \<open>next\<close> (\<open>True\<close>) and \<open>next_back\<close> (\<open>False\<close>) calls, on the iterator and on a list.\<close>

fun iter_calls :: "bool list \<Rightarrow> Components \<Rightarrow> (Component option list \<times> Components) run" where
  "iter_calls [] c = Inr ([], c)"
| "iter_calls (front # cs) c =
     rbind (if front then components_next c else components_next_back c) (\<lambda>(x, c').
     rbind (iter_calls cs c') (\<lambda>(xs, c''). Inr (x # xs, c'')))"

fun deque_calls :: "bool list \<Rightarrow> 'a list \<Rightarrow> 'a option list \<times> 'a list" where
  "deque_calls [] xs = ([], xs)"
| "deque_calls (front # cs) xs =
     (let (ys, rest) = deque_calls cs (if front then tl xs else butlast xs)
      in ((if front then hd_opt xs else last_opt xs) # ys, rest))"

lemma iter_calls_ok:
  "c_inv c \<Longrightarrow> deque_calls cs (remaining c) = (ys, rest) \<Longrightarrow> \<exists>c'. iter_calls cs c = Inr (ys, c') \<and> c_inv c' \<and> remaining c' = rest"
proof (induction cs arbitrary: c ys rest)
  case (Cons front cs)
  obtain c' where c': "(if front then components_next c else components_next_back c)
        = Inr (if front then hd_opt (remaining c) else last_opt (remaining c), c')"
      "c_inv c'" "remaining c' = (if front then tl (remaining c) else butlast (remaining c))"
    using next_ok [OF Cons(2)] next_back_ok [OF Cons(2)] by (cases front) auto
  then show ?case using Cons(3) Cons(1) [OF c'(2)] by (auto simp: Let_def split: prod.splits)
qed simp

text \<open>
  C7. The component iterator is a double-ended queue over the components that a
  reference parser finds: after any sequence of calls of \<open>next\<close> and \<open>next_back\<close>, in
  any order, no call has panicked, the results are those of taking elements from
  the front and the back of the reference list, and \<open>as_path\<close> returns a path whose
  components are exactly those that are left.
\<close>

theorem components_double_ended:
  "\<exists>c c' p. components s = Inr c \<and> iter_calls cs c = Inr (fst (deque_calls cs (ref_components s)), c') \<and>
     as_path c' = Inr p \<and> ref_components p = snd (deque_calls cs (ref_components s))"
proof -
  obtain c where c: "components s = Inr c" "c_inv c" "remaining c = ref_components s" using components_ok by blast
  obtain c' where c': "iter_calls cs c = Inr (fst (deque_calls cs (ref_components s)), c')" "c_inv c'"
      "remaining c' = snd (deque_calls cs (ref_components s))"
    using iter_calls_ok [OF c(2)] c(3) prod.collapse by metis
  obtain p where "as_path c' = Inr p" "ref_components p = remaining c'" using as_path_ok [OF c'(2)] by blast
  then show ?thesis using c c' by auto
qed

section \<open>Parts of a path\<close>

lemma body_parse: "x \<in> set (body s) \<Longrightarrow> \<exists>seg. parse_seg seg = Some x"
  by (auto simp: body_def map_filter_def)

lemma body_kinds: "x \<in> set (body s) \<Longrightarrow> x = ParentDir \<or> (\<exists>n. x = Normal n)"
  using body_parse [of x s] by (auto simp: parse_seg_def split: if_splits)

lemma ref_components_kinds:
  "ref_components s = x # xs \<Longrightarrow> y \<in> set xs \<Longrightarrow> y = ParentDir \<or> (\<exists>n. y = Normal n)"
  by (auto simp: ref_components_def split: if_splits dest!: body_kinds)
     (metis body_kinds list.set_intros(2))

lemma ref_components_mem: "x \<in> set (ref_components s) \<Longrightarrow> x = RootDir \<or> x = CurDir \<or> x = ParentDir \<or> (\<exists>n. x = Normal n)"
  by (auto simp: ref_components_def split: if_splits dest!: body_kinds)

lemma ref_components_rooted: "RootDir \<in> set (ref_components s) \<longleftrightarrow> rooted s"
  using body_kinds [of RootDir s] body_kinds [of RootDir "tl s"] by (auto simp: ref_components_def)

lemma last_RootDir:
  assumes "ref_components s \<noteq> []" "last (ref_components s) = RootDir"
  shows "ref_components s = [RootDir]"
proof (cases "ref_components s")
  case (Cons x xs)
  have "xs = []"
  proof (rule ccontr)
    assume "xs \<noteq> []"
    then have "last xs = RootDir" using assms(2) Cons by simp
    then show False using ref_components_kinds [OF Cons last_in_set [OF \<open>xs \<noteq> []\<close>]] by simp
  qed
  then show ?thesis using assms(2) Cons by simp
qed (use assms in simp)

lemma next_back_turn_frame:
  "next_back_turn c = Inr (r, c') \<Longrightarrow> c_front c' = c_front c \<and> (\<exists>n. c_path c' = take n (c_path c))"
proof -
  have id: "\<exists>n. c_path c = take n (c_path c)" by (rule exI [of _ "length (c_path c)"]) simp
  show "next_back_turn c = Inr (r, c') \<Longrightarrow> c_front c' = c_front c \<and> (\<exists>n. c_path c' = take n (c_path c))"
    by (auto simp: next_back_turn_def rbind_Inr_conv slice_to_def Let_def id split: State.splits if_splits option.splits)
qed

lemma next_back_frame:
  "components_next_back c = Inr (r, c') \<Longrightarrow> c_front c' = c_front c \<and> (\<exists>n. c_path c' = take n (c_path c))"
proof (induction c rule: components_next_back.induct)
  case (1 c)
  show ?case
  proof (cases "finished c")
    case True
    then show ?thesis using 1(2) by (subst (asm) components_next_back.simps) (auto intro: exI [of _ "length (c_path c)"])
  next
    case False
    obtain o' c1 where t: "next_back_turn c = Inr (o', c1)" using 1(2) False
      by (subst (asm) components_next_back.simps) (auto simp: rbind_Inr_conv)
    note f = next_back_turn_frame [OF t]
    show ?thesis
    proof (cases o')
      case None
      then have "components_next_back c1 = Inr (r, c')" using 1(2) False t by (subst (asm) components_next_back.simps) simp
      then show ?thesis using 1(1) [OF False t refl None] f by (auto simp: min_def)
    next
      case (Some x)
      then have "c1 = c'" using 1(2) False t by (subst (asm) components_next_back.simps) simp
      then show ?thesis using f by simp
    qed
  qed
qed

lemma next_back_components:
  "\<exists>c c' n. components s = Inr c \<and> components_next_back c = Inr (last_opt (ref_components s), c') \<and> c_inv c' \<and>
     remaining c' = butlast (ref_components s) \<and> c_front c' = SPrefix \<and> c_path c' = take n s"
proof -
  obtain c where c: "components s = Inr c" "c_inv c" "remaining c = ref_components s" "c_path c = s" "c_front c = SPrefix"
    using components_ok by blast
  obtain c' where c': "components_next_back c = Inr (last_opt (ref_components s), c')" "c_inv c'" "remaining c' = butlast (ref_components s)"
    using next_back_ok [OF c(2)] c(3) by auto
  then show ?thesis using next_back_frame [OF c'(1)] c by auto
qed

lemma parent_ok:
  "\<exists>p. parent s = Inr p \<and> (p = None \<longleftrightarrow> ref_components s = [] \<or> ref_components s = [RootDir]) \<and>
     (\<forall>q. p = Some q \<longrightarrow> ref_components q = butlast (ref_components s) \<and> take (length q) s = q)"
proof -
  obtain c c' n where c: "components s = Inr c" "components_next_back c = Inr (last_opt (ref_components s), c')" "c_inv c'"
      "remaining c' = butlast (ref_components s)" "c_front c' = SPrefix" "c_path c' = take n s"
    using next_back_components by blast
  obtain p k where p: "as_path c' = Inr p" "ref_components p = butlast (ref_components s)" "p = take k (take n s)"
    using as_path_ok [OF c(3)] c(4-6) by auto
  then have t: "take (length p) s = p" by (simp add: min_def)
  show ?thesis
  proof (cases "ref_components s = []")
    case True
    then show ?thesis using c by (simp add: parent_def)
  next
    case False
    note l = ref_components_mem [OF last_in_set [OF False]] and r = last_RootDir [OF False]
    have "ref_components s = [RootDir] \<longleftrightarrow> last (ref_components s) = RootDir" using r by auto
    then show ?thesis using c p t l False by (auto simp: parent_def last_opt_def)
  qed
qed

lemma file_name_ok:
  "file_name s = Inr (case last_opt (ref_components s) of Some (Normal n) \<Rightarrow> Some n | _ \<Rightarrow> None)"
  using next_back_components [of s] by (auto simp: file_name_def)

text \<open>
  Parts of a path. \<open>parent\<close> is \<open>None\<close> exactly for a path without components and
  for the root; otherwise it is a leading part of the bytes whose components are
  all but the last, and \<open>pop\<close> leaves exactly that. \<open>file_name\<close> is the last component
  if it is a normal one. \<open>has_root\<close> holds exactly for paths that start with a
  separator.
\<close>

theorem path_parts:
  "(\<exists>p. parent s = Inr p \<and> (p = None \<longleftrightarrow> ref_components s = [] \<or> ref_components s = [RootDir]) \<and>
      (case p of None \<Rightarrow> path_pop s = Inr (False, s)
       | Some q \<Rightarrow> ref_components q = butlast (ref_components s) \<and> path_pop s = Inr (True, q))) \<and>
   file_name s = Inr (case last_opt (ref_components s) of Some (Normal n) \<Rightarrow> Some n | _ \<Rightarrow> None) \<and>
   path_has_root s = Inr (rooted s)"
proof -
  have "path_has_root s = Inr (rooted s)"
    using components_ok [of s] by (auto simp: path_has_root_def has_root_def c_inv_def)
  then show ?thesis
    using parent_ok [of s] file_name_ok [of s] by (auto simp: path_pop_def split: option.splits)
qed

text \<open>
  \<open>is_absolute\<close> also asks for a prefix, which this platform never parses: it holds
  for no path, although its documentation equates it with \<open>has_root\<close>.
\<close>

lemma is_absolute_never: "is_absolute s = Inr False"
  using components_ok [of s] by (auto simp: is_absolute_def path_has_root_def path_prefix_def has_root_def c_inv_def)

section \<open>Prefixes, suffixes and joining\<close>

lemma component_eq_ref: "x \<in> set (ref_components s) \<Longrightarrow> component_eq x y \<longleftrightarrow> x = y"
  using ref_components_mem [of x s] by (cases y) auto

lemma list_prefix_cong: "\<forall>x \<in> set xs. \<forall>y. f x y = g x y \<Longrightarrow> list_prefix f xs ys = list_prefix g xs ys"
proof (induction xs arbitrary: ys)
  case Nil
  then show ?case by (cases ys) simp_all
next
  case (Cons x xs)
  then show ?case by (cases ys) simp_all
qed

lemma list_prefix_component: "set xs \<subseteq> set (ref_components s) \<Longrightarrow> list_prefix component_eq xs ys \<longleftrightarrow> (\<exists>zs. xs = ys @ zs)"
proof -
  assume "set xs \<subseteq> set (ref_components s)"
  then have "\<forall>x \<in> set xs. \<forall>y. component_eq x y = (x = y)" using component_eq_ref by blast
  from list_prefix_cong [OF this, of ys] show ?thesis by (simp add: list_prefix_eq)
qed

lemma iter_after_components:
  "\<exists>cs cb r. components s = Inr cs \<and> components b = Inr cb \<and>
     iter_after component_eq components_next components_next cs cb = Some (Inr r) \<and>
     (r \<noteq> None \<longleftrightarrow> (\<exists>zs. ref_components s = ref_components b @ zs)) \<and>
     (\<forall>c. r = Some c \<longrightarrow> c_inv c \<and> remaining c = drop (length (ref_components b)) (ref_components s))"
proof -
  obtain cs cb where c: "components s = Inr cs" "c_inv cs" "remaining cs = ref_components s"
      "components b = Inr cb" "c_inv cb" "remaining cb = ref_components b" using components_ok by metis
  show ?thesis
    using fwd2.iter_after_correct [OF c(2,5), of component_eq] c(1,4)
    unfolding c(3,6) list_prefix_component [OF subset_refl] by blast
qed

lemma strip_prefix_ok:
  "\<exists>r. strip_prefix s b = Some (Inr r) \<and>
     (case r of Inl _ \<Rightarrow> \<not> (\<exists>zs. ref_components s = ref_components b @ zs)
      | Inr q \<Rightarrow> ref_components s = ref_components b @ ref_components q)"
proof -
  obtain cs cb r where r: "components s = Inr cs" "components b = Inr cb"
      "iter_after component_eq components_next components_next cs cb = Some (Inr r)"
      "r \<noteq> None \<longleftrightarrow> (\<exists>zs. ref_components s = ref_components b @ zs)"
      "\<forall>c. r = Some c \<longrightarrow> c_inv c \<and> remaining c = drop (length (ref_components b)) (ref_components s)"
    using iter_after_components [of s b] by (elim exE conjE)
  show ?thesis
  proof (cases r)
    case None
    then show ?thesis using r by (simp add: strip_prefix_def)
  next
    case (Some c)
    then obtain p where "as_path c = Inr p" "ref_components p = drop (length (ref_components b)) (ref_components s)"
      using as_path_ok [of c] r(5) by auto
    then show ?thesis using r Some by (auto simp: strip_prefix_def)
  qed
qed

lemma starts_with_ok: "starts_with s b = Some (Inr (\<exists>zs. ref_components s = ref_components b @ zs))"
  using iter_after_components [of s b] by (auto simp: starts_with_def)

lemma ends_with_ok: "ends_with s b = Some (Inr (\<exists>zs. ref_components s = zs @ ref_components b))"
proof -
  obtain cs cb where c: "components s = Inr cs" "c_inv cs" "remaining cs = ref_components s"
      "components b = Inr cb" "c_inv cb" "remaining cb = ref_components b" using components_ok by metis
  obtain r where r: "iter_after component_eq components_next_back components_next_back cs cb = Some (Inr r)"
      "r \<noteq> None \<longleftrightarrow> list_prefix component_eq (rev (ref_components s)) (rev (ref_components b))"
    using bwd2.iter_after_correct [OF c(2,5), of component_eq] unfolding c(3,6) by blast
  have "list_prefix component_eq (rev (ref_components s)) (rev (ref_components b)) \<longleftrightarrow>
      (\<exists>zs. rev (ref_components s) = rev (ref_components b) @ zs)"
    by (rule list_prefix_component [of _ s]) simp
  also have "\<dots> \<longleftrightarrow> (\<exists>zs. ref_components s = zs @ ref_components b)"
    by (metis rev_append rev_rev_ident)
  finally show ?thesis using c r by (simp add: ends_with_def)
qed

definition drop_cur :: "Component list \<Rightarrow> Component list" where
  "drop_cur xs = (case xs of CurDir # ys \<Rightarrow> ys | _ \<Rightarrow> xs)"

lemma drop_cur_body: "drop_cur (body s) = body s"
  using body_kinds [of CurDir s] by (auto simp: drop_cur_def split: list.splits Component.splits)

lemma body_dot: "body [dot] = []"
  by (simp add: body_no_sep parse_seg_def is_sep_byte_def)

lemma body_ref: "\<not> rooted t \<Longrightarrow> body t = drop_cur (ref_components t)"
proof (cases "cur_start t")
  case True
  then have "t = [dot] \<or> (\<exists>y t'. t = dot # y # t' \<and> is_sep_byte y)"
    by (auto simp: cur_start_def split: list.splits)
  then have "body t = body (tl t)" using body_sep [of _ "[dot]"] by (auto simp: body_dot body_sep_Cons)
  then show "\<not> rooted t \<Longrightarrow> body t = drop_cur (ref_components t)" using True by (simp add: ref_components_def drop_cur_def)
qed (simp add: ref_components_def drop_cur_body)

lemma ref_append: "is_sep_byte x \<Longrightarrow> ref_components (a @ x # t) = ref_components (a @ [x]) @ body t"
proof (cases a)
  case (Cons y a')
  assume x: "is_sep_byte x"
  have "body (a' @ x # t) = body (a' @ [x]) @ body t" "body (y # a' @ x # t) = body (y # a' @ [x]) @ body t"
    using body_sep [OF x, of a' t] body_sep [OF x, of a' "[]"] body_sep [OF x, of "y # a'" t] body_sep [OF x, of "y # a'" "[]"] by simp_all
  moreover have "cur_start (y # a' @ x # t) = cur_start (y # a' @ [x])" by (cases a') (simp_all add: cur_start_def)
  ultimately show ?thesis using Cons by (simp add: ref_components_def rooted_def)
qed (simp add: ref_components_def rooted_def)

lemma ref_snoc_sep: "is_sep_byte x \<Longrightarrow> s \<noteq> [] \<Longrightarrow> ref_components (s @ [x]) = ref_components s"
proof (cases s)
  case (Cons y s')
  assume x: "is_sep_byte x"
  have "body (s' @ [x]) = body s'" "body (y # s' @ [x]) = body (y # s')"
    using body_sep [OF x, of s' "[]"] body_sep [OF x, of "y # s'" "[]"] by simp_all
  moreover have "cur_start (y # s' @ [x]) = cur_start (y # s')" using x by (cases s') (simp_all add: cur_start_def)
  ultimately show ?thesis using Cons by (simp add: ref_components_def rooted_def)
qed simp

lemma push_ok:
  "\<exists>r. path_push s t = Some (Inr r) \<and>
     ref_components r = (if rooted t \<or> s = [] then ref_components t else ref_components s @ drop_cur (ref_components t))"
proof -
  obtain c where c: "components s = Inr c" "c_prefix c = None" "c_front c = SPrefix"
    using components_ok [of s] by (auto simp: c_inv_def)
  have q: "path_has_root t = Inr (rooted t)" "path_prefix t = Inr None" "is_absolute t = Inr False"
    using components_ok [of t] by (auto simp: path_has_root_def path_prefix_def is_absolute_def has_root_def c_inv_def)
  have sep: "is_sep_byte 0x2F" by (simp add: is_sep_byte_def)
  have eq: "path_push s t = Some (Inr (if rooted t then t else if s \<noteq> [] \<and> \<not> is_sep_byte (last s) then s @ [0x2F] @ t else s @ t))"
    using c q by (simp add: path_push_def no_prefix Let_def MAIN_SEP_STR_def)
  show ?thesis
  proof (cases "rooted t \<or> s = []")
    case False
    show ?thesis
    proof (cases "is_sep_byte (last s)")
      case True
      have "s @ t = butlast s @ last s # t" "s = butlast s @ [last s]" using False by simp_all
      then have "ref_components (s @ t) = ref_components s @ body t" using ref_append [OF True] by metis
      then show ?thesis using eq False True body_ref by simp
    next
      case ns: False
      then show ?thesis using eq False ref_append [OF sep, of s t] ref_snoc_sep [OF sep] body_ref by simp
    qed
  qed (use eq in auto)
qed

text \<open>
  C23. Prefixes and joining. \<open>strip_prefix\<close> succeeds exactly when the components of
  the base are an initial part of those of the path, and what it returns has the
  remaining components; \<open>starts_with\<close> and \<open>ends_with\<close> decide the two relations. \<open>join\<close>
  with a rooted path replaces the path; otherwise it appends the components
  (without a leading current-directory component), and stripping the path from
  the result gives the appended components back.
\<close>

theorem path_join_strip:
  "starts_with s b = Some (Inr (\<exists>zs. ref_components s = ref_components b @ zs)) \<and>
   ends_with s b = Some (Inr (\<exists>zs. ref_components s = zs @ ref_components b)) \<and>
   (\<exists>r. strip_prefix s b = Some (Inr r) \<and>
      (case r of Inl _ \<Rightarrow> starts_with s b = Some (Inr False) | Inr q \<Rightarrow> ref_components s = ref_components b @ ref_components q)) \<and>
   (\<exists>j. path_join b s = Some (Inr j) \<and>
      (if rooted s \<or> b = [] then ref_components j = ref_components s
       else ref_components j = ref_components b @ drop_cur (ref_components s) \<and>
         (\<exists>q. strip_prefix j b = Some (Inr (Inr q)) \<and> ref_components q = drop_cur (ref_components s))))"
proof -
  obtain j where j: "path_join b s = Some (Inr j)"
      "ref_components j = (if rooted s \<or> b = [] then ref_components s else ref_components b @ drop_cur (ref_components s))"
    using push_ok [of b s] unfolding path_join_def by blast
  have restored: "\<exists>q. strip_prefix j b = Some (Inr (Inr q)) \<and> ref_components q = drop_cur (ref_components s)" if "\<not> (rooted s \<or> b = [])"
  proof -
    obtain r where r: "strip_prefix j b = Some (Inr r)"
      "case r of Inl _ \<Rightarrow> \<not> (\<exists>zs. ref_components j = ref_components b @ zs) | Inr q \<Rightarrow> ref_components j = ref_components b @ ref_components q"
      using strip_prefix_ok [of j b] by (elim exE conjE)
    then show ?thesis using j(2) that by (cases r) auto
  qed
  have join: "\<exists>j. path_join b s = Some (Inr j) \<and>
      (if rooted s \<or> b = [] then ref_components j = ref_components s
       else ref_components j = ref_components b @ drop_cur (ref_components s) \<and>
         (\<exists>q. strip_prefix j b = Some (Inr (Inr q)) \<and> ref_components q = drop_cur (ref_components s)))"
    using j restored by (intro exI [of _ j]) simp
  obtain r where r: "strip_prefix s b = Some (Inr r)"
     "case r of Inl _ \<Rightarrow> \<not> (\<exists>zs. ref_components s = ref_components b @ zs) | Inr q \<Rightarrow> ref_components s = ref_components b @ ref_components q"
    using strip_prefix_ok [of s b] by (elim exE conjE)
  have strip: "\<exists>r. strip_prefix s b = Some (Inr r) \<and>
      (case r of Inl _ \<Rightarrow> starts_with s b = Some (Inr False) | Inr q \<Rightarrow> ref_components s = ref_components b @ ref_components q)"
    using r starts_with_ok [of s b] by (intro exI [of _ r]) (cases r; simp)
  show ?thesis by (intro conjI starts_with_ok ends_with_ok strip join)
qed

end
