(* ===== verification/Path_Names.thy ===== *)
theory Path_Names
  imports Path_Ops
begin

text \<open>
  File names: where the last component lies in the bytes of a path, and what
  \<open>set_extension\<close> does to it.
\<close>

section \<open>The place of the file name\<close>

definition name_at :: "bytes \<Rightarrow> Components \<Rightarrow> Components \<Rightarrow> bytes \<Rightarrow> bool" where
  "name_at s c c' nm \<longleftrightarrow> (\<exists>sp post. s = c_path c' @ sp @ nm @ post \<and> (\<forall>y \<in> set nm. \<not> is_sep_byte y) \<and>
     parse_seg nm = Some (Normal nm) \<and> (sp = [] \<and> length (c_path c') = lbb c \<or> (\<exists>y. sp = [y] \<and> is_sep_byte y)) \<and>
     c_front c' = SPrefix \<and> c_back c' = Body)"

lemma next_back_name:
  "c_inv c \<Longrightarrow> c_front c = SPrefix \<Longrightarrow> c_back c = Body \<Longrightarrow> components_next_back c = Inr (Some (Normal nm), c') \<Longrightarrow>
   name_at (c_path c) c c' nm"
proof (induction c rule: components_next_back.induct)
  case (1 c)
  have nf: "\<not> finished c" using 1(3,4) by (simp add: finished_def)
  have pre: "c_prefix c = None" using 1(2) by (simp add: c_inv_def)
  show ?case
  proof (cases "lbb c < length (c_path c)")
    case True
    obtain n x sp seg where p: "parse_next_component_back c = Inr (length (c_path c) - n, x)" "n < length (c_path c)" "cut_at c n"
      "c_inv (c\<lparr>c_path := take n (c_path c)\<rparr>)"
      "c_path c = take n (c_path c) @ sp @ seg" "parse_seg seg = x" "\<forall>y \<in> set seg. \<not> is_sep_byte y"
      "sp = [] \<and> n = lbb c \<or> (\<exists>y. sp = [y] \<and> is_sep_byte y)"
      by (rule parse_back_ok [OF 1(2,4) True]) blast
    let ?c = "c\<lparr>c_path := take n (c_path c)\<rparr>"
    have turn: "next_back_turn c = Inr (if x = None then None else Some x, ?c)"
      using pre 1(4) True p(1,2) by (simp add: next_back_turn_def no_prefix nat_sub_chk_def slice_to_def)
    have lb: "lbb ?c = lbb c" using cut_ok(2) [OF 1(2,4)] p(3) by (simp add: cut_at_def)
    show ?thesis
    proof (cases x)
      case None
      then have "components_next_back ?c = Inr (Some (Normal nm), c')"
        using 1(5) nf turn by (subst (asm) components_next_back.simps) simp
      then have "name_at (c_path ?c) ?c c' nm"
        using 1(1) [OF nf turn refl] None p(4) 1(3,4) by simp
      then obtain sp' post where i: "take n (c_path c) = c_path c' @ sp' @ nm @ post"
        "(\<forall>y \<in> set nm. \<not> is_sep_byte y) \<and> parse_seg nm = Some (Normal nm)"
        "(sp' = [] \<and> length (c_path c') = lbb c \<or> (\<exists>y. sp' = [y] \<and> is_sep_byte y)) \<and> c_front c' = SPrefix \<and> c_back c' = Body"
        unfolding name_at_def lb by auto
      have "c_path c = c_path c' @ sp' @ nm @ (post @ sp @ seg)" using p(5) unfolding i(1) by simp
      then show ?thesis unfolding name_at_def using i(2,3) by blast
    next
      case (Some y)
      then have "c' = ?c" "y = Normal nm" using 1(5) nf turn by (subst (asm) components_next_back.simps, simp)+
      moreover have "seg = nm" using p(6) Some \<open>y = Normal nm\<close> by (auto simp: parse_seg_def split: if_splits)
      ultimately show ?thesis
        unfolding name_at_def using p Some 1(3,4) by (intro exI [of _ sp] exI [of _ "[]"]) auto
    qed
  next
    case False
    have "remaining c = start_comps c" using False nf by (simp add: remaining_def)
    then have "remaining c \<noteq> xs @ [Normal nm]" for xs by (auto simp: start_comps_def Cons_eq_append_conv)
    moreover have "last_opt (remaining c) = Some (Normal nm)" using next_back_ok [OF 1(2)] 1(5) by auto
    then have "remaining c = butlast (remaining c) @ [Normal nm]"
      by (metis append_butlast_last_id last_opt_def option.distinct(1) option.inject)
    ultimately show ?thesis by blast
  qed
qed

lemma ref_body_seg:
  assumes "\<forall>y \<in> set x. \<not> is_sep_byte y" "parse_seg x = Some d"
  shows "body x = [d]" "ref_components x = [d]"
proof -
  show b: "body x = [d]" using body_no_sep [OF assms(1)] assms(2) by simp
  have "\<not> rooted x" "\<not> cur_start x"
    using assms by (cases x; auto simp: rooted_def cur_start_def parse_seg_def split: list.splits)+
  then show "ref_components x = [d]" using b by (simp add: ref_components_def)
qed

lemma file_name_place:
  assumes "file_name s = Inr (Some nm)"
  obtains pre post where "s = pre @ nm @ post" "file_name_offset s = Inr (Some (length pre))" "parse_seg nm = Some (Normal nm)"
    "\<forall>y \<in> set nm. \<not> is_sep_byte y"
    "\<And>x d. \<forall>y \<in> set x. \<not> is_sep_byte y \<Longrightarrow> parse_seg x = Some d \<Longrightarrow> ref_components (pre @ x) = butlast (ref_components s) @ [d]"
proof -
  have l: "last_opt (ref_components s) = Some (Normal nm)"
    using assms by (auto simp: file_name_ok split: option.splits Component.splits)
  obtain c where c: "components s = Inr c" "c_inv c" "remaining c = ref_components s" "c_path c = s" "c_front c = SPrefix" "c_back c = Body"
    using components_ok by metis
  obtain c' where c': "components_next_back c = Inr (Some (Normal nm), c')" "c_inv c'" "remaining c' = butlast (ref_components s)"
    using next_back_ok [OF c(2)] c(3) l by auto
  obtain sp post where p: "s = c_path c' @ sp @ nm @ post" "\<forall>y \<in> set nm. \<not> is_sep_byte y" "parse_seg nm = Some (Normal nm)"
      "sp = [] \<and> length (c_path c') = lbb c \<or> (\<exists>y. sp = [y] \<and> is_sep_byte y)" "c_front c' = SPrefix" "c_back c' = Body"
    using next_back_name [OF c(2,5,6) c'(1)] unfolding name_at_def c(4) by blast
  have r: "ref_components (c_path c') = butlast (ref_components s)"
    using ref_components_state [OF c'(2)] p(5,6) c'(3) by simp
  have ne: "nm \<noteq> []" using p(3) by (auto simp: parse_seg_def)
  have root: "c_has_physical_root c = rooted s" using c by (simp add: c_inv_def)
  show ?thesis
  proof (rule that [of "c_path c' @ sp" post])
    show "s = (c_path c' @ sp) @ nm @ post" using p(1) by simp
    have "s ! length (c_path c') = hd (sp @ nm)" using p(1) ne by (metis append.assoc append_is_Nil_conv hd_append2 hd_conv_nth nth_append_length_plus add_0_right length_0_conv)
    moreover have "length (c_path c') < length s" using arg_cong [OF p(1), of length] ne by (cases nm) auto
    moreover have "is_sep_byte (hd (sp @ nm)) \<longleftrightarrow> sp \<noteq> []" using p(2,4) ne by auto
    ultimately show "file_name_offset s = Inr (Some (length (c_path c' @ sp)))"
      using c(1) c'(1) p(4) by (auto simp: file_name_offset_def)
    show "parse_seg nm = Some (Normal nm)" "\<forall>y \<in> set nm. \<not> is_sep_byte y" using p by simp_all
    fix x d assume x: "\<forall>y \<in> set x. \<not> is_sep_byte y" "parse_seg x = Some d"
    note b = ref_body_seg [OF x]
    show "ref_components ((c_path c' @ sp) @ x) = butlast (ref_components s) @ [d]"
    proof (cases "sp = []")
      case True
      consider "c_path c' = []" | "rooted s" "c_path c' = [hd s]" | "cur_start s" "c_path c' = [hd s]"
        using p(1,4) True root by (cases "c_path c'") (auto simp: lbb_def c(4) split: if_splits)
      then show ?thesis
      proof cases
        case 1
        then show ?thesis using b r True by (simp add: ref_components_def rooted_def cur_start_def)
      next
        case 2
        have "rooted [hd s]" "rooted (hd s # x)" using 2(1) by (simp_all add: rooted_def)
        then show ?thesis using 2(2) b r True by (simp add: ref_components_def)
      next
        case 3
        then have "s = [hd s] \<or> is_sep_byte (hd (tl s))" by (auto simp: cur_start_def split: list.splits)
        moreover have "s = hd s # nm @ post" using p(1) 3(2) True by simp
        ultimately show ?thesis using ne p(2) by (metis append_is_Nil_conv hd_append2 hd_in_set list.sel(3) list.inject)
      qed
    next
      case False
      then obtain y where y: "sp = [y]" "is_sep_byte y" using p(4) by blast
      have "c_path c' \<noteq> []"
      proof
        assume e: "c_path c' = []"
        then have "rooted s" using p(1) y by (simp add: rooted_def)
        then have "RootDir \<in> set (butlast (ref_components s))"
          using ref_components_rooted [of s] l by (cases "ref_components s" rule: rev_cases) auto
        then show False using r e by (simp add: ref_components_def rooted_def cur_start_def)
      qed
      then show ?thesis
        using ref_append [OF y(2), of "c_path c'" x] ref_snoc_sep [OF y(2)] b r y(1) by simp
    qed
  qed
qed

section \<open>Extensions\<close>

lemma rsplit_stem:
  assumes "parse_seg nm = Some (Normal nm)"
  obtains stem where "(case rsplit_file_at_dot nm of (before, after) \<Rightarrow> case before of Some b \<Rightarrow> Some b | None \<Rightarrow> after) = Some stem"
    "stem \<noteq> []" "take (length stem) nm = stem" "length stem \<le> length nm"
proof -
  have ne: "nm \<noteq> []" "nm \<noteq> [dot, dot]" using assms by (auto simp: parse_seg_def)
  show ?thesis
  proof (cases "rposition (\<lambda>b. b = dot) nm")
    case None
    then show ?thesis using that [of nm] ne by (simp add: rsplit_file_at_dot_def)
  next
    case (Some i)
    have "i < length nm" using rposition_Some [OF Some] by simp
    then have "rsplit_file_at_dot nm = (if i = 0 then (Some nm, None) else (Some (take i nm), Some (drop (i + 1) nm)))"
      using Some ne by (simp add: rsplit_file_at_dot_def)
    then show ?thesis using that [of nm] that [of "take i nm"] ne \<open>i < length nm\<close> by (cases "i = 0") simp_all
  qed
qed

lemma rsplit_new:
  assumes "stem \<noteq> []" "e \<noteq> []" "dot \<notin> set e"
  shows "rsplit_file_at_dot (stem @ [dot] @ e) = (Some stem, Some e)"
proof -
  have "position (\<lambda>b. b = dot) (rev e @ [dot] @ rev stem) = Some (length e)"
  proof -
    have "position P (xs @ [y] @ ys) = Some (length xs)" if "\<forall>x \<in> set xs. \<not> P x" "P y" for P :: "u8 \<Rightarrow> bool" and xs ys y
      using that by (induction xs) auto
    from this [of "rev e" "\<lambda>b. b = dot" dot "rev stem"] show ?thesis using assms(3) by auto
  qed
  then have "rposition (\<lambda>b. b = dot) (stem @ [dot] @ e) = Some (length stem)" by (simp add: rposition_def)
  moreover have "stem @ [dot] @ e \<noteq> [dot, dot]" using assms by (cases stem; cases "tl stem") auto
  ultimately show ?thesis using assms(1) by (simp add: rsplit_file_at_dot_def)
qed

text \<open>
  C24. Setting an extension. For an extension that is not empty and contains
  neither a dot nor a separator: a path without a file name is left alone;
  otherwise the file name keeps its stem, has exactly the new extension, and the
  components before it do not change.
\<close>

theorem set_extension_roundtrip:
  assumes e: "e \<noteq> []" "dot \<notin> set e" "\<forall>b \<in> set e. \<not> is_sep_byte b"
  shows "file_name s = Inr None \<and> set_extension s e = Inr (False, s) \<or>
    (\<exists>nm stem r. file_name s = Inr (Some nm) \<and> file_stem s = Inr (Some stem) \<and> set_extension s e = Inr (True, r) \<and>
       file_stem r = Inr (Some stem) \<and> extension r = Inr (Some e) \<and>
       ref_components r = butlast (ref_components s) @ [Normal (stem @ [dot] @ e)])"
proof (cases "last_opt (ref_components s) = None \<or> (\<forall>nm. last_opt (ref_components s) \<noteq> Some (Normal nm))")
  case True
  then have "file_name s = Inr None" by (auto simp: file_name_ok split: option.splits Component.splits)
  then show ?thesis by (simp add: set_extension_def file_stem_def)
next
  case False
  then obtain nm where f: "file_name s = Inr (Some nm)" by (auto simp: file_name_ok)
  obtain pre post where p: "s = pre @ nm @ post" "file_name_offset s = Inr (Some (length pre))" "parse_seg nm = Some (Normal nm)"
    "\<forall>y \<in> set nm. \<not> is_sep_byte y"
    "\<And>x d. \<forall>y \<in> set x. \<not> is_sep_byte y \<Longrightarrow> parse_seg x = Some d \<Longrightarrow> ref_components (pre @ x) = butlast (ref_components s) @ [d]"
    using file_name_place [OF f] by metis
  obtain stem where st: "(case rsplit_file_at_dot nm of (before, after) \<Rightarrow> case before of Some b \<Rightarrow> Some b | None \<Rightarrow> after) = Some stem"
    "stem \<noteq> []" "take (length stem) nm = stem" "length stem \<le> length nm"
    by (rule rsplit_stem [OF p(3)])
  let ?nm = "stem @ [dot] @ e"
  have "set stem \<subseteq> set nm" using st(3) set_take_subset by metis
  then have sep: "\<forall>y \<in> set ?nm. \<not> is_sep_byte y" using p(4) e(3) by (auto simp: is_sep_byte_def)
  have seg: "parse_seg ?nm = Some (Normal ?nm)" using st(2) e(1) by (cases stem; cases "tl stem") (auto simp: parse_seg_def)
  have r: "ref_components (pre @ ?nm) = butlast (ref_components s) @ [Normal ?nm]" by (rule p(5) [OF sep seg])
  have fs: "file_stem s = Inr (Some stem)" using st(1) f by (simp add: file_stem_def)
  have "take (length pre + length stem) s = pre @ stem" unfolding p(1) using st(3,4) by simp
  then have "set_extension s e = Inr (True, pre @ ?nm)" using fs p(2) e(1) by (simp add: set_extension_def Let_def)
  moreover have "file_name (pre @ ?nm) = Inr (Some ?nm)" using r by (simp add: file_name_ok)
  then have "file_stem (pre @ ?nm) = Inr (Some stem)" "extension (pre @ ?nm) = Inr (Some e)"
    using rsplit_new [OF st(2) e(1,2)] by (simp_all add: file_stem_def extension_def)
  ultimately show ?thesis using f fs r by blast
qed

theorem set_extension_roundtrip_witness:
  "\<exists>r. set_extension [0x61, 0x2F, 0x62, 0x2E, 0x63] [0x64] = Inr (True, r) \<and> extension r = Inr (Some [0x64])"
proof -
  have "last_opt (ref_components [0x61, 0x2F, 0x62, 0x2E, 0x63]) = Some (Normal [0x62, 0x2E, 0x63])"
    by (simp add: ref_components_def rooted_def cur_start_def body_def is_sep_byte_def parse_seg_def map_filter_def last_opt_def)
  then have "file_name [0x61, 0x2F, 0x62, 0x2E, 0x63] \<noteq> Inr None" by (simp add: file_name_ok)
  then show ?thesis
    using set_extension_roundtrip [of "[0x64]" "[0x61, 0x2F, 0x62, 0x2E, 0x63]"] by (auto simp: is_sep_byte_def)
qed

end
