(* ===== verification/Path_Order.thy ===== *)
theory Path_Order
  imports Path_Ops
begin

text \<open>
  Equality, ordering and hashing of paths. All three are optimised routines that
  avoid parsing components where they can; they agree with the component lists.
\<close>

section \<open>Comparison of components\<close>

lemma cmp_refl [simp]: "byte_cmp b b = Equal" "nat_cmp n n = Equal" "bytes_cmp s s = Equal" "then_cmp Equal o' = o'"
  by (simp_all add: byte_cmp_def nat_cmp_def then_cmp_def lex_cmp_refl)

lemma component_cmp_refl [simp]: "component_cmp x x = Equal"
proof -
  have "prefix_cmp p p = Equal" for p by (cases p) simp_all
  then show ?thesis by (cases x) simp_all
qed

lemma component_cmp_Equal:
  "x \<in> set (ref_components s) \<Longrightarrow> y \<in> set (ref_components t) \<Longrightarrow> component_cmp x y = Equal \<longleftrightarrow> x = y"
proof -
  have "byte_cmp a b = Equal \<longleftrightarrow> a = b" for a b by (simp add: byte_cmp_def)
  then have "bytes_cmp a b = Equal \<longleftrightarrow> a = b" for a b by (rule lex_cmp_Equal)
  then show "x \<in> set (ref_components s) \<Longrightarrow> y \<in> set (ref_components t) \<Longrightarrow> component_cmp x y = Equal \<longleftrightarrow> x = y"
    using ref_components_mem [of x s] ref_components_mem [of y t] by (auto simp: nat_cmp_def)
qed

lemma lex_cmp_Equal_on:
  "(\<And>x y. x \<in> set xs \<Longrightarrow> y \<in> set ys \<Longrightarrow> cmp x y = Equal \<longleftrightarrow> x = y) \<Longrightarrow> lex_cmp cmp xs ys = Equal \<longleftrightarrow> xs = ys"
  by (induction cmp xs ys rule: lex_cmp.induct) auto

lemma list_all2_component: "list_all2 component_eq (ref_components s) ys \<longleftrightarrow> ref_components s = ys"
proof -
  have "list_all2 component_eq xs zs \<longleftrightarrow> xs = zs" if "set xs \<subseteq> set (ref_components s)" for xs zs
    using that by (induction xs arbitrary: zs) (auto simp: list_all2_Cons1 component_eq_ref)
  from this [of "ref_components s" ys] show ?thesis by simp
qed

lemma path_eq_ok: "path_eq s t = Some (Inr (ref_components s = ref_components t))"
proof -
  obtain c where c: "components s = Inr c" "c_inv c" "remaining c = ref_components s" "c_path c = s"
    using components_ok by metis
  obtain d where d: "components t = Inr d" "c_inv d" "remaining d = ref_components t" "c_path d = t"
    using components_ok by metis
  have "iter_eq component_eq components_next_back components_next_back c d = Some (Inr (ref_components s = ref_components t))"
    using bwd2.iter_eq_correct [OF c(2) d(2), of component_eq] c(3) d(3) by (simp add: list_all2_component)
  then show ?thesis using c d by (auto simp: path_eq_def components_eq_def)
qed

section \<open>Ordering\<close>

lemma position_zip_None:
  "position (\<lambda>(a, b). a \<noteq> b) (zip s t) = None \<Longrightarrow> length s = length t \<Longrightarrow> s = t"
proof (induction s arbitrary: t)
  case (Cons x s)
  then show ?case by (cases t) (auto split: if_splits)
qed simp

lemma common_take:
  "d = (case position (\<lambda>(a, b). a \<noteq> b) (zip s t) of None \<Rightarrow> min (length s) (length t) | Some d \<Rightarrow> d) \<Longrightarrow>
   take d s = take d t \<and> d \<le> length s \<and> d \<le> length t"
proof (induction s arbitrary: t d)
  case (Cons x s)
  show ?case
  proof (cases t)
    case C: (Cons y t')
    show ?thesis
    proof (cases "x = y")
      case True
      let ?p = "position (\<lambda>(a, b). a \<noteq> b) (zip s t')"
      have "d = Suc (case ?p of None \<Rightarrow> min (length s) (length t') | Some d \<Rightarrow> d)"
        using Cons(2) C True by (auto split: option.splits)
      then show ?thesis using Cons(1) [of _ t', OF refl] C True by simp
    qed (use Cons(2) C in simp)
  qed (use Cons(2) in simp)
qed simp

lemma skip_common_Some:
  assumes "skip_common l r = Some n" "c_prefix l = None"
  obtains x a s' t' where "is_sep_byte x" "c_path l = a @ x # s'" "c_path r = a @ x # t'" "n = Suc (length a)"
proof -
  define d where d_def: "d = (case position (\<lambda>(a, b). a \<noteq> b) (zip (c_path l) (c_path r)) of
      None \<Rightarrow> min (length (c_path l)) (length (c_path r)) | Some d \<Rightarrow> d)"
  have d: "take d (c_path l) = take d (c_path r)" "d \<le> length (c_path l)" "d \<le> length (c_path r)"
    using common_take [OF d_def] by auto
  obtain i where i: "rposition is_sep_byte (take d (c_path l)) = Some i" "n = Suc i"
    using assms by (auto simp: skip_common_def d_def no_prefix)
  have p: "i < d" "is_sep_byte (c_path l ! i)" using rposition_Some [OF i(1)] d(2) by auto
  have eq: "c_path l ! i = c_path r ! i" "take i (c_path l) = take i (c_path r)"
    using arg_cong [OF d(1), of "\<lambda>u. u ! i"] arg_cong [OF d(1), of "take i"] p(1) by (simp_all add: min_def)
  show ?thesis
  proof (rule that [OF p(2)])
    show "c_path l = take i (c_path l) @ c_path l ! i # drop (Suc i) (c_path l)" using split_at [of i "c_path l"] p(1) d(2) by simp
    show "c_path r = take i (c_path l) @ c_path l ! i # drop (Suc i) (c_path r)"
      unfolding eq using split_at [of i "c_path r"] p(1) d(3) by simp
    show "n = Suc (length (take i (c_path l)))" using i(2) p(1) d(2) by simp
  qed
qed

lemma path_cmp_ok: "path_cmp s t = Some (Inr (lex_cmp component_cmp (ref_components s) (ref_components t)))"
proof -
  obtain l where l: "components s = Inr l" "c_inv l" "remaining l = ref_components s" "c_path l = s" "c_front l = SPrefix" "c_back l = Body"
    using components_ok by metis
  obtain r where r: "components t = Inr r" "c_inv r" "remaining r = ref_components t" "c_path r = t" "c_front r = SPrefix" "c_back r = Body"
    using components_ok by metis
  have pre: "c_prefix l = None" "c_prefix r = None" using l(2) r(2) by (simp_all add: c_inv_def)
  have base: "iter_cmp component_cmp components_next components_next l r
      = Some (Inr (lex_cmp component_cmp (ref_components s) (ref_components t)))"
    using fwd2.iter_cmp_correct [OF l(2) r(2)] l(3) r(3) by simp
  have cmp: "path_cmp s t = compare_components l r" using l r by (simp add: path_cmp_def)
  consider "position (\<lambda>(a, b). a \<noteq> b) (zip s t) = None" "length s = length t"
    | "\<not> (position (\<lambda>(a, b). a \<noteq> b) (zip s t) = None \<and> length s = length t)" "skip_common l r = None"
    | n where "\<not> (position (\<lambda>(a, b). a \<noteq> b) (zip s t) = None \<and> length s = length t)" "skip_common l r = Some n"
    by (cases "skip_common l r") auto
  then show ?thesis
  proof cases
    case 1
    then have "s = t" by (rule position_zip_None)
    then show ?thesis using cmp 1 pre l r by (simp add: compare_components_def lex_cmp_refl)
  next
    case 2
    then show ?thesis using cmp pre l r base by (auto simp: compare_components_def)
  next
    case (3 n)
    obtain x a s' t' where a: "is_sep_byte x" "s = a @ x # s'" "t = a @ x # t'" "n = Suc (length a)"
      using skip_common_Some [OF 3(2) pre(1)] l(4) r(4) by metis
    let ?l = "l\<lparr>c_path := s', c_front := Body\<rparr>" and ?r = "r\<lparr>c_path := t', c_front := Body\<rparr>"
    have i: "c_inv ?l" "remaining ?l = body s'" "c_inv ?r" "remaining ?r = body t'"
      using pre l(6) r(6) by (simp_all add: c_inv_def remaining_def finished_def start_comps_def lbb_def)
    have "path_cmp s t = iter_cmp component_cmp components_next components_next ?l ?r"
      using cmp 3 pre l r a by (auto simp: compare_components_def slice_from_def)
    also have "\<dots> = Some (Inr (lex_cmp component_cmp (body s') (body t')))"
      using fwd2.iter_cmp_correct [OF i(1,3)] i(2,4) by simp
    also have "lex_cmp component_cmp (body s') (body t') = lex_cmp component_cmp (ref_components s) (ref_components t)"
      using ref_append [OF a(1), of a s'] ref_append [OF a(1), of a t'] a(2,3)
        lex_cmp_append [of component_cmp "ref_components (a @ [x])", OF component_cmp_refl] by simp
    finally show ?thesis .
  qed
qed

section \<open>Hashing\<close>

text \<open>What is written for a list of components: the bytes of each except the root.\<close>

definition chunks :: "Component list \<Rightarrow> bytes list" where
  "chunks cs = map component_as_os_str (filter (\<lambda>c. c \<noteq> RootDir) cs)"

lemma chunks_simps [simp]:
  "chunks [] = []" "chunks (RootDir # cs) = chunks cs" "chunks (CurDir # cs) = [dot] # chunks cs"
  "chunks (a @ b) = chunks a @ chunks b"
  by (simp_all add: chunks_def)

lemma chunks_seg: "seg \<noteq> [] \<Longrightarrow> seg \<noteq> [dot] \<Longrightarrow> chunks (case parse_seg seg of None \<Rightarrow> [] | Some c \<Rightarrow> [c]) = [seg]"
  by (auto simp: parse_seg_def chunks_def)

text \<open>The chunks from a component start on; at the start of the path a dot segment counts.\<close>

definition chunks_from :: "bytes \<Rightarrow> nat \<Rightarrow> bytes list" where
  "chunks_from bs n = (if n = 0 then chunks (ref_components bs) else chunks (body (drop n bs)))"

lemma cur_start_iff: "cur_start s \<longleftrightarrow> s = [dot] \<or> (\<exists>y s'. s = dot # y # s' \<and> is_sep_byte y)"
  by (auto simp: cur_start_def split: list.splits)

lemma body_cur_start: "cur_start s \<Longrightarrow> body s = body (tl s)"
  using body_sep [of _ "[dot]"] by (auto simp: cur_start_iff body_dot body_sep_Cons)

lemma chunks_from_sep:
  assumes k: "k < length bs" "n \<le> k" "is_sep_byte (bs ! k)" and no: "\<forall>x \<in> set (take (k - n) (drop n bs)). \<not> is_sep_byte x"
    and dots: "n = 0 \<or> \<not> cur_start (drop n bs)"
  shows "chunks_from bs n = (if n < k then [take (k - n) (drop n bs)] else []) @ chunks (body (drop (Suc k) bs))"
proof -
  let ?seg = "take (k - n) (drop n bs)" and ?rest = "drop (Suc k) bs"
  have d: "drop n bs = ?seg @ bs ! k # ?rest"
    using split_at [of "k - n" "drop n bs"] k by (simp add: drop_Suc)
  then have b: "body (drop n bs) = (case parse_seg ?seg of None \<Rightarrow> [] | Some c \<Rightarrow> [c]) @ body ?rest"
    using body_sep [OF k(3), of ?seg ?rest] body_no_sep [OF no] by simp
  have ne: "?seg \<noteq> [] \<longleftrightarrow> n < k" using k by auto
  show ?thesis
  proof (cases "?seg = [dot]")
    case True
    then have "cur_start (drop n bs)" using d k(3) by (cases ?rest) (auto simp: cur_start_iff)
    then have n: "n = 0" and cs: "cur_start bs" using dots by auto
    then have "\<not> rooted bs" by (auto simp: rooted_def cur_start_iff is_sep_byte_def)
    then have "chunks_from bs n = [dot] # chunks (body bs)" using n cs body_cur_start [OF cs] by (simp add: chunks_from_def ref_components_def)
    then show ?thesis using b True n ne by (simp add: parse_seg_def)
  next
    case False
    have "chunks_from bs n = chunks (body (drop n bs))"
    proof (cases "n = 0")
      case True
      have "\<not> cur_start bs"
        using d False True k(3) no by (cases ?seg; cases "tl ?seg") (auto simp: cur_start_iff is_sep_byte_def split: list.splits)
      then show ?thesis using True body_sep_Cons [of "hd bs" "tl bs"] by (auto simp: chunks_from_def ref_components_def rooted_def)
    qed (simp add: chunks_from_def)
    then show ?thesis using b False ne chunks_seg [of ?seg] by (auto simp: parse_seg_def)
  qed
qed

definition hash_inv :: "bytes \<Rightarrow> nat \<Rightarrow> nat \<times> nat \<times> hash_write list \<Rightarrow> bool" where
  "hash_inv bs k = (\<lambda>(n, hashed, out). \<exists>d. out = map Write d \<and> hashed = sum_list (map length d) \<and>
     chunks (ref_components bs) = d @ chunks_from bs n \<and>
     (n \<le> k \<and> (\<forall>x \<in> set (take (k - n) (drop n bs)). \<not> is_sep_byte x) \<and> (n = 0 \<or> \<not> cur_start (drop n bs)) \<or>
      n = Suc k \<and> k < length bs \<and> bs ! k = dot \<and> (drop n bs = [] \<or> is_sep_byte (hd (drop n bs)))))"

lemma take_Suc_drop: "n \<le> k \<Longrightarrow> k < length bs \<Longrightarrow> take (Suc k - n) (drop n bs) = take (k - n) (drop n bs) @ [bs ! k]"
  by (simp add: Suc_diff_le take_Suc_conv_app_nth)

lemma hash_turn_ok:
  assumes k: "k < length bs" and inv: "hash_inv bs k st"
  shows "hash_inv bs (Suc k) (hash_turn False bs st k)"
proof -
  obtain n hashed out where st: "st = (n, hashed, out)" by (cases st)
  obtain d where d: "out = map Write d" "hashed = sum_list (map length d)" "chunks (ref_components bs) = d @ chunks_from bs n"
    and pos: "n \<le> k \<and> (\<forall>x \<in> set (take (k - n) (drop n bs)). \<not> is_sep_byte x) \<and> (n = 0 \<or> \<not> cur_start (drop n bs)) \<or>
      n = Suc k \<and> bs ! k = dot \<and> (drop n bs = [] \<or> is_sep_byte (hd (drop n bs)))"
    using inv unfolding st hash_inv_def by auto
  show ?thesis
  proof (cases "is_sep_byte (bs ! k)")
    case False
    have "n \<le> Suc k \<and> (\<forall>x \<in> set (take (Suc k - n) (drop n bs)). \<not> is_sep_byte x) \<and> (n = 0 \<or> \<not> cur_start (drop n bs))"
    proof (cases "n \<le> k")
      case True
      then show ?thesis using pos False take_Suc_drop [OF True k] by auto
    next
      case nk: False
      then have "n = Suc k" "\<not> cur_start (drop n bs)" using pos by (auto simp: cur_start_iff is_sep_byte_def)
      then show ?thesis by simp
    qed
    then show ?thesis using False d by (auto simp: st hash_turn_def hash_inv_def)
  next
    case sep: True
    then have p: "n \<le> k" "\<forall>x \<in> set (take (k - n) (drop n bs)). \<not> is_sep_byte x" "n = 0 \<or> \<not> cur_start (drop n bs)"
      using pos by (auto simp: is_sep_byte_def)
    let ?tail = "drop (Suc k) bs"
    define d' where "d' = d @ (if n < k then [take (k - n) (drop n bs)] else [])"
    have c: "chunks (ref_components bs) = d' @ chunks (body ?tail)"
      unfolding d(3) chunks_from_sep [OF k p(1) sep p(2,3)] by (simp add: d'_def)
    have len: "length (take (k - n) (drop n bs)) = k - n" using k by simp
    have turn: "hash_turn False bs st k =
        (Suc k + (if cur_start ?tail then 1 else 0), sum_list (map length d'), map Write d')"
      using sep d(1,2) len p(1) by (simp add: st hash_turn_def d'_def cur_start_def split: list.splits)
    show ?thesis
    proof (cases "cur_start ?tail")
      case True
      have ne: "?tail \<noteq> []" using True by (auto simp: cur_start_iff)
      have dd: "drop (Suc (Suc k)) bs = tl ?tail" by (simp add: drop_Suc tl_drop)
      have "Suc k < length bs" "bs ! Suc k = hd ?tail" using ne by (auto simp: hd_drop_conv_nth)
      then have t: "bs ! Suc k = dot" "Suc k < length bs" "drop (Suc (Suc k)) bs = [] \<or> is_sep_byte (hd (drop (Suc (Suc k)) bs))"
          "body ?tail = body (drop (Suc (Suc k)) bs)"
        using True body_cur_start [OF True] unfolding dd by (auto simp: cur_start_iff)
      then show ?thesis unfolding turn using True c by (auto simp: hash_inv_def chunks_from_def)
    next
      case False
      then show ?thesis unfolding turn using c by (auto simp: hash_inv_def chunks_from_def)
    qed
  qed
qed

lemma path_hash_ok:
  "path_hash s = Inr (map Write (chunks (ref_components s)) @ [WriteUsize (sum_list (map length (chunks (ref_components s))))])"
proof -
  have start: "hash_inv s 0 (0, 0, [])" by (simp add: hash_inv_def chunks_from_def)
  have loop: "k \<le> length s \<Longrightarrow> hash_inv s k (foldl (hash_turn False s) (0, 0, []) [0..<k])" for k
    by (induction k) (simp_all add: start hash_turn_ok)
  obtain n hashed out where st: "foldl (hash_turn False s) (0, 0, []) [0..<length s] = (n, hashed, out)" by (cases "foldl (hash_turn False s) (0, 0, []) [0..<length s]")
  obtain d where d: "out = map Write d" "hashed = sum_list (map length d)" "chunks (ref_components s) = d @ chunks_from s n"
    and p: "n \<le> length s" "\<forall>x \<in> set (drop n s). \<not> is_sep_byte x" "n = 0 \<or> \<not> cur_start (drop n s)"
    using loop [of "length s"] unfolding st hash_inv_def by auto
  have "chunks_from s n = (if n < length s then [drop n s] else [])"
  proof (cases "n = 0")
    case True
    then have no: "\<forall>x \<in> set s. \<not> is_sep_byte x" using p(2) by simp
    then have nr: "\<not> rooted s" by (cases s) (auto simp: rooted_def)
    show ?thesis
    proof (cases "s = [dot]")
      case False
      have "\<not> cur_start s" using no False by (auto simp: cur_start_iff)
      then show ?thesis using True nr no False body_no_sep [OF no] chunks_seg [of s]
        by (cases "s = []") (auto simp: chunks_from_def ref_components_def)
    qed (use True nr in \<open>simp add: chunks_from_def ref_components_def cur_start_def\<close>)
  next
    case False
    then have "drop n s \<noteq> [dot]" using p(3) by (auto simp: cur_start_iff)
    then show ?thesis using False body_no_sep [OF p(2)] chunks_seg [of "drop n s"] by (cases "drop n s = []") (auto simp: chunks_from_def)
  qed
  then have "chunks (ref_components s) = d @ (if n < length s then [drop n s] else [])" using d(3) by simp
  then show ?thesis using st d(1,2) by (auto simp: path_hash_def parse_prefix_def slice_from_def)
qed

text \<open>
  C14. Equality, ordering and hashing. Although all three work on the bytes where
  they can, \<open>==\<close> holds exactly when the component lists are equal, \<open>cmp\<close> is the
  lexicographic comparison of the component lists and \<open>Equal\<close> exactly for equal
  paths, none of them panics or fails to end, and what is written to the hasher is
  determined by the components (the bytes of each one but the root, then their
  total length), so that equal paths have equal hashes.
\<close>

theorem path_order_consistent:
  "path_eq s t = Some (Inr (ref_components s = ref_components t)) \<and>
   path_cmp s t = Some (Inr (lex_cmp component_cmp (ref_components s) (ref_components t))) \<and>
   (path_cmp s t = Some (Inr Equal) \<longleftrightarrow> path_eq s t = Some (Inr True)) \<and>
   path_hash s = Inr (map Write (chunks (ref_components s)) @ [WriteUsize (sum_list (map length (chunks (ref_components s))))])"
proof -
  have "lex_cmp component_cmp (ref_components s) (ref_components t) = Equal \<longleftrightarrow> ref_components s = ref_components t"
    by (rule lex_cmp_Equal_on) (rule component_cmp_Equal)
  then show ?thesis by (simp add: path_eq_ok path_cmp_ok path_hash_ok)
qed

end
