(* ===== verification/Packet.thy ===== *)
theory Packet
  imports Syscall BTree_Map
begin

unbundle bit_operations_syntax

text \<open>
  Serialisation of RPC messages, \<open>src/lib/h2o_rpc/core/src/packet.rs\<close>: values are
  appended to the byte buffer and the handle list of a packet and read back from
  their fronts. The trait \<open>SerdePacket\<close> is the interface \<open>serde_packet\<close>; its
  implementations for basic types are interpretations of it, and the generic ones
  (tuples, vectors, options, results, maps) are shown to preserve it.

  Integers are words of their width, signed ones by their two's complement bits;
  the native byte order is little-endian. An error of type \<open>TypeMismatch\<close> carries
  a formatted text that is left out.
\<close>

section \<open>Packets\<close>

record packet =
  pk_id :: "usize option"
  pk_buffer :: bytes
  pk_handles :: "Handle list"

definition packet_clear :: "packet \<Rightarrow> packet" where
  "packet_clear p = p\<lparr>pk_id := None, pk_buffer := [], pk_handles := []\<rparr>"

datatype rpc_error =
    BufferTooShort nat nat      \<comment> \<open>found, expected at least\<close>
  | TypeMismatch
  | InvalidMagic usize
  | InvalidMethod usize usize   \<comment> \<open>expected, found\<close>

text \<open>A computation fails with an error value or panics.\<close>

datatype failure = Err rpc_error | Panic panic

definition lift_run :: "'a run \<Rightarrow> failure + 'a" where
  "lift_run r = (case r of Inl p \<Rightarrow> Inl (Panic p) | Inr x \<Rightarrow> Inr x)"

definition extend_from_slice :: "bytes \<Rightarrow> packet \<Rightarrow> packet" where
  "extend_from_slice bs p = p\<lparr>pk_buffer := pk_buffer p @ bs\<rparr>"

definition extend_handle :: "Handle \<Rightarrow> packet \<Rightarrow> packet" where
  "extend_handle h p = p\<lparr>pk_handles := pk_handles p @ [h]\<rparr>"

type_synonym deserializer = "bytes \<times> Handle list"

definition deserializer_new :: "packet \<Rightarrow> deserializer" where
  "deserializer_new p = (pk_buffer p, pk_handles p)"

definition check_buffer :: "nat \<Rightarrow> deserializer \<Rightarrow> failure + unit" where
  "check_buffer n d = (if n \<le> length (fst d) then Inr () else Inl (Err (BufferTooShort (length (fst d)) n)))"

definition check_handles :: "nat \<Rightarrow> deserializer \<Rightarrow> failure + unit" where
  "check_handles n d = (if n \<le> length (snd d) then Inr () else Inl (Err (BufferTooShort (length (snd d)) n)))"

definition next_buffer :: "nat \<Rightarrow> deserializer \<Rightarrow> failure + (bytes \<times> deserializer)" where
  "next_buffer n d = rbind (check_buffer n d) (\<lambda>_. Inr (take n (fst d), (drop n (fst d), snd d)))"

definition next_handle :: "deserializer \<Rightarrow> failure + (Handle \<times> deserializer)" where
  "next_handle d = rbind (check_handles 1 d) (\<lambda>_. Inr (snd d ! 0, (fst d, drop 1 (snd d))))"

section \<open>Serialisation\<close>

type_synonym 'a ser = "'a \<Rightarrow> packet \<Rightarrow> failure + packet"
type_synonym 'a de = "deserializer \<Rightarrow> failure + ('a \<times> deserializer)"

definition deserialize_unchecked :: "'a de \<Rightarrow> 'a de" where
  "deserialize_unchecked de d =
     (case de d of Inl (Err (BufferTooShort _ _)) \<Rightarrow> Inl (Panic AssertFailed) | r \<Rightarrow> r)"

definition ser_unit :: "unit ser" where "ser_unit x p = Inr p"
definition de_unit :: "unit de" where "de_unit d = Inr ((), d)"

definition ser_bool :: "bool ser" where
  "ser_bool b p = Inr (extend_from_slice [if b then 1 else 0] p)"

definition de_bool :: "bool de" where
  "de_bool d = rbind (next_buffer 1 d) (\<lambda>(bs, d').
     if bs ! 0 = 0 then Inr (False, d') else if bs ! 0 = 1 then Inr (True, d') else Inl (Err TypeMismatch))"

text \<open>\<open>to_ne_bytes\<close> and \<open>from_ne_bytes\<close>.\<close>

definition to_ne_bytes :: "'a::len word \<Rightarrow> bytes" where
  "to_ne_bytes w = map (\<lambda>i. ucast (drop_bit (8 * i) w)) [0..<LENGTH('a) div 8]"

fun from_ne_bytes :: "bytes \<Rightarrow> 'a::len word" where
  "from_ne_bytes [] = 0"
| "from_ne_bytes (b # bs) = ucast b OR push_bit 8 (from_ne_bytes bs)"

definition ser_basic :: "'a::len word ser" where
  "ser_basic w p = Inr (extend_from_slice (to_ne_bytes w) p)"

definition de_basic :: "'a::len word de" where
  "de_basic d = rbind (next_buffer (LENGTH('a) div 8) d) (\<lambda>(bs, d'). Inr (from_ne_bytes bs, d'))"

fun ser_seq :: "'a ser \<Rightarrow> 'a list ser" where
  "ser_seq ser [] p = Inr p"
| "ser_seq ser (x # xs) p = rbind (ser x p) (ser_seq ser xs)"

fun de_seq :: "'a de \<Rightarrow> nat \<Rightarrow> 'a list de" where
  "de_seq de 0 d = Inr ([], d)"
| "de_seq de (Suc n) d = rbind (de d) (\<lambda>(x, d'). rbind (de_seq de n d') (\<lambda>(xs, d''). Inr (x # xs, d'')))"

text \<open>Arrays of a fixed length; tuples, of which longer ones are nested pairs.\<close>

definition ser_array :: "'a ser \<Rightarrow> 'a list ser" where "ser_array ser xs p = ser_seq ser xs p"
definition de_array :: "nat \<Rightarrow> 'a de \<Rightarrow> 'a list de" where "de_array n de d = de_seq de n d"

definition ser_pair :: "'a ser \<Rightarrow> 'b ser \<Rightarrow> ('a \<times> 'b) ser" where
  "ser_pair sa sb = (\<lambda>(a, b) p. rbind (sa a p) (sb b))"

definition de_pair :: "'a de \<Rightarrow> 'b de \<Rightarrow> ('a \<times> 'b) de" where
  "de_pair da db d = rbind (da d) (\<lambda>(a, d'). rbind (db d') (\<lambda>(b, d''). Inr ((a, b), d'')))"

text \<open>\<open>Ok\<close> is the right and \<open>Err\<close> the left injection.\<close>

definition ser_result :: "'a ser \<Rightarrow> 'e ser \<Rightarrow> ('e + 'a) ser" where
  "ser_result st se r p =
     (case r of Inr t \<Rightarrow> rbind (ser_basic (0 :: u8) p) (st t)
      | Inl e \<Rightarrow> rbind (ser_basic (1 :: u8) p) (se e))"

definition de_result :: "'a de \<Rightarrow> 'e de \<Rightarrow> ('e + 'a) de" where
  "de_result dt ds d = rbind (de_basic d) (\<lambda>(index :: u8, d').
     if index = 0 then rbind (dt d') (\<lambda>(t, d''). Inr (Inr t, d''))
     else if index = 1 then rbind (ds d') (\<lambda>(e, d''). Inr (Inl e, d''))
     else Inl (Err TypeMismatch))"

text \<open>A \<open>NonNull\<close> pointer is its address.\<close>

definition ser_non_null :: "usize ser" where "ser_non_null v p = ser_basic v p"

definition de_non_null :: "usize de" where
  "de_non_null d = rbind (de_basic d) (\<lambda>(v, d'). if v = 0 then Inl (Err TypeMismatch) else Inr (v, d'))"

definition ser_box :: "'a ser \<Rightarrow> 'a ser" where "ser_box ser x p = ser x p"
definition de_box :: "'a de \<Rightarrow> 'a de" where "de_box de d = rbind (de d) (\<lambda>(x, d'). Inr (x, d'))"

definition ser_vec :: "'a ser \<Rightarrow> 'a list ser" where
  "ser_vec ser xs p = rbind (ser_basic (of_nat (length xs) :: usize) p) (ser_seq ser xs)"

definition de_vec :: "'a de \<Rightarrow> 'a list de" where
  "de_vec de d = rbind (de_basic d) (\<lambda>(len :: usize, d'). de_seq de (unat len) d')"

definition ser_opt_vec :: "'a ser \<Rightarrow> 'a list option ser" where
  "ser_opt_vec ser o' p = ser_vec ser (case o' of Some xs \<Rightarrow> xs | None \<Rightarrow> []) p"

definition de_opt_vec :: "'a de \<Rightarrow> 'a list option de" where
  "de_opt_vec de d = rbind (de_vec de d) (\<lambda>(xs, d'). Inr (if xs \<noteq> [] then Some xs else None, d'))"

text \<open>A \<open>String\<close> is its bytes, which are well-formed UTF-8.\<close>

definition between :: "u8 \<Rightarrow> u8 \<Rightarrow> u8 \<Rightarrow> bool" where "between lo hi b \<longleftrightarrow> lo \<le> b \<and> b \<le> hi"

fun valid_utf8 :: "bytes \<Rightarrow> bool" where
  "valid_utf8 [] = True"
| "valid_utf8 (a # bs) =
     (if a < 0x80 then valid_utf8 bs
      else if between 0xC2 0xDF a then (case bs of b # cs \<Rightarrow> between 0x80 0xBF b \<and> valid_utf8 cs | [] \<Rightarrow> False)
      else if between 0xE0 0xEF a then
        (case bs of b # c # ds \<Rightarrow> between (if a = 0xE0 then 0xA0 else 0x80) (if a = 0xED then 0x9F else 0xBF) b \<and>
             between 0x80 0xBF c \<and> valid_utf8 ds
         | _ \<Rightarrow> False)
      else if between 0xF0 0xF4 a then
        (case bs of b # c # d # es \<Rightarrow> between (if a = 0xF0 then 0x90 else 0x80) (if a = 0xF4 then 0x8F else 0xBF) b \<and>
             between 0x80 0xBF c \<and> between 0x80 0xBF d \<and> valid_utf8 es
         | _ \<Rightarrow> False)
      else False)"

definition ser_string :: "bytes ser" where "ser_string s p = ser_vec ser_basic s p"

definition de_string :: "bytes de" where
  "de_string d = rbind (de_vec de_basic d) (\<lambda>(bs, d'). if valid_utf8 bs then Inr (bs, d') else Inl (Err TypeMismatch))"

definition ser_opt_string :: "bytes option ser" where
  "ser_opt_string o' p = ser_string (case o' of Some s \<Rightarrow> s | None \<Rightarrow> []) p"

definition de_opt_string :: "bytes option de" where
  "de_opt_string d = rbind (de_string d) (\<lambda>(s, d'). Inr (if s \<noteq> [] then Some s else None, d'))"

text \<open>A \<open>CString\<close> is its bytes with the terminating zero.\<close>

definition is_cstring :: "bytes \<Rightarrow> bool" where
  "is_cstring bs \<longleftrightarrow> bs \<noteq> [] \<and> last bs = 0 \<and> 0 \<notin> set (butlast bs)"

definition ser_cstring :: "bytes ser" where "ser_cstring s p = ser_vec ser_basic s p"

definition de_cstring :: "bytes de" where
  "de_cstring d = rbind (de_vec de_basic d) (\<lambda>(bs, d'). if is_cstring bs then Inr (bs, d') else Inl (Err TypeMismatch))"

definition ser_opt_cstring :: "bytes option ser" where
  "ser_opt_cstring o' p = ser_cstring (case o' of Some s \<Rightarrow> s | None \<Rightarrow> [0]) p"

definition de_opt_cstring :: "bytes option de" where
  "de_opt_cstring d = rbind (de_cstring d) (\<lambda>(s, d'). Inr (if butlast s \<noteq> [] then Some s else None, d'))"

definition ser_map :: "'k ser \<Rightarrow> 'v ser \<Rightarrow> ('k, 'v) btree ser" where
  "ser_map sk sv m p = rbind (ser_basic (of_nat (length m) :: usize) p) (ser_seq (ser_pair sk sv) m)"

definition de_map :: "'k::linorder de \<Rightarrow> 'v de \<Rightarrow> ('k, 'v) btree de" where
  "de_map dk dv d = rbind (de_basic d) (\<lambda>(len :: usize, d').
     rbind (de_seq (de_pair dk dv) (unat len) d') (\<lambda>(kvs, d''). Inr (foldl (\<lambda>m (k, v). bt_insert k v m) [] kvs, d'')))"

definition ser_error :: "Error ser" where "ser_error e p = ser_basic (into_retval e) p"

definition de_error :: "Error de" where
  "de_error d = rbind (de_basic d) (\<lambda>(retval, d').
     rbind (lift_run (try_decode retval)) (\<lambda>o'. case o' of Some e \<Rightarrow> Inr (e, d') | None \<Rightarrow> Inl (Err TypeMismatch)))"

definition ser_handle :: "Handle ser" where "ser_handle h p = Inr (extend_handle h p)"
definition de_handle :: "Handle de" where "de_handle d = next_handle d"

definition ser_opt_handle :: "Handle option ser" where
  "ser_opt_handle o' p = ser_handle (case o' of Some h \<Rightarrow> h | None \<Rightarrow> NULL) p"

definition de_opt_handle :: "Handle option de" where
  "de_opt_handle d = rbind (de_handle d) (\<lambda>(h, d'). Inr (case check_null h of Inr h' \<Rightarrow> Some h' | Inl _ \<Rightarrow> None, d'))"

text \<open>Kernel objects of the type with number \<open>ID\<close>, by their handles.\<close>

definition ser_ko :: "usize \<Rightarrow> Handle ser" where
  "ser_ko ID h p = rbind (ser_basic ID p) (\<lambda>p'. Inr (extend_handle h p'))"

definition de_ko :: "usize \<Rightarrow> Handle de" where
  "de_ko ID d = rbind (de_basic d) (\<lambda>(id', d'). if id' \<noteq> ID then Inl (Err TypeMismatch) else next_handle d')"

definition ser_opt_ko :: "usize \<Rightarrow> Handle option ser" where
  "ser_opt_ko ID o' p = ser_opt_handle o' p"

definition de_opt_ko :: "usize \<Rightarrow> Handle option de" where
  "de_opt_ko ID d = rbind (de_basic d) (\<lambda>(id', d'). if id' \<noteq> ID then Inl (Err TypeMismatch) else de_opt_handle d')"

section \<open>Messages\<close>

definition MAGIC :: usize where "MAGIC = 0xac84fb7c0391"

definition serialize :: "'a ser \<Rightarrow> usize \<Rightarrow> 'a ser" where
  "serialize ser method_id data output =
     rbind (ser_basic MAGIC (packet_clear output)) (\<lambda>p. rbind (ser_basic method_id p) (ser data))"

definition deserialize_metadata :: "packet \<Rightarrow> failure + (usize \<times> deserializer)" where
  "deserialize_metadata input = rbind (de_basic (deserializer_new input)) (\<lambda>(magic, d).
     if magic \<noteq> MAGIC then Inl (Err (InvalidMagic magic)) else de_basic d)"

definition deserialize_body :: "'a de \<Rightarrow> deserializer \<Rightarrow> (nat \<times> nat) option \<Rightarrow> failure + ('a \<times> (nat \<times> nat) option)" where
  "deserialize_body de d extra =
     rbind (de d) (\<lambda>(data, d'). Inr (data, map_option (\<lambda>_. (length (fst d'), length (snd d'))) extra))"

definition deserialize :: "'a de \<Rightarrow> usize \<Rightarrow> packet \<Rightarrow> (nat \<times> nat) option \<Rightarrow> failure + ('a \<times> (nat \<times> nat) option)" where
  "deserialize de method_id input extra = rbind (deserialize_metadata input) (\<lambda>(m, d).
     if m \<noteq> method_id then Inl (Err (InvalidMethod method_id m)) else deserialize_body de d extra)"

section \<open>The interface of serialisable types\<close>

definition extend_packet :: "packet \<Rightarrow> bytes \<Rightarrow> Handle list \<Rightarrow> packet" where
  "extend_packet p bs hs = p\<lparr>pk_buffer := pk_buffer p @ bs, pk_handles := pk_handles p @ hs\<rparr>"

text \<open>
  Bytes and handles encode a value: serialising appends them, deserialising takes
  exactly them off and gives the value back, and if some of them are missing it
  reports a buffer that is too short.
\<close>

definition encodes :: "'a ser \<Rightarrow> 'a de \<Rightarrow> 'a \<Rightarrow> bytes \<Rightarrow> Handle list \<Rightarrow> bool" where
  "encodes ser de x bs hs \<longleftrightarrow>
     (\<forall>p. ser x p = Inr (extend_packet p bs hs)) \<and>
     (\<forall>b h. de (bs @ b, hs @ h) = Inr (x, (b, h))) \<and>
     (\<forall>b h n m. n < length bs \<or> m < length hs \<longrightarrow> (\<exists>f e. de (take n (bs @ b), take m (hs @ h)) = Inl (Err (BufferTooShort f e))))"

locale serde_packet =
  fixes ser :: "'a ser" and de :: "'a de" and ok :: "'a \<Rightarrow> bool"
  assumes law: "ok x \<Longrightarrow> \<exists>bs hs. encodes ser de x bs hs"

lemma extend_packet_simps [simp]:
  "extend_packet (extend_packet p bs hs) bs' hs' = extend_packet p (bs @ bs') (hs @ hs')"
  "extend_packet p [] [] = p" "extend_from_slice bs p = extend_packet p bs []" "extend_handle h p = extend_packet p [] [h]"
  by (simp_all add: extend_packet_def extend_from_slice_def extend_handle_def)

lemma encodesD:
  assumes "encodes ser de x bs hs"
  shows "ser x p = Inr (extend_packet p bs hs)" "de (bs @ b, hs @ h) = Inr (x, (b, h))"
    "n < length bs \<or> m < length hs \<Longrightarrow> \<exists>f e. de (take n (bs @ b), take m (hs @ h)) = Inl (Err (BufferTooShort f e))"
  using assms unfolding encodes_def by blast+

lemma encodes_bind:
  assumes a: "encodes sa da a bs hs" and b: "encodes sb db b bs' hs'"
    and ser: "\<And>p. ser y p = rbind (sa a p) (sb b)"
    and de: "\<And>d. de d = rbind (da d) (\<lambda>(x, d'). k x d')"
    and k: "\<And>d'. k a d' = rbind (db d') (\<lambda>(z, d''). g z d'')" and g: "\<And>d''. g b d'' = Inr (y, d'')"
  shows "encodes ser de y (bs @ bs') (hs @ hs')"
  unfolding encodes_def
proof (intro conjI allI impI)
  fix p show "ser y p = Inr (extend_packet p (bs @ bs') (hs @ hs'))"
    unfolding ser by (simp add: encodesD(1) [OF a] encodesD(1) [OF b])
next
  fix b h show "de ((bs @ bs') @ b, (hs @ hs') @ h) = Inr (y, (b, h))"
    unfolding de by (simp add: encodesD(2) [OF a] encodesD(2) [OF b] k g)
next
  fix B H n m assume nm: "n < length (bs @ bs') \<or> m < length (hs @ hs')"
  show "\<exists>f e. de (take n ((bs @ bs') @ B), take m ((hs @ hs') @ H)) = Inl (Err (BufferTooShort f e))"
  proof (cases "n < length bs \<or> m < length hs")
    case True
    obtain f e where "da (take n (bs @ (bs' @ B)), take m (hs @ (hs' @ H))) = Inl (Err (BufferTooShort f e))"
      using encodesD(3) [OF a True] by blast
    then show ?thesis unfolding de by simp
  next
    case False
    let ?n = "n - length bs" and ?m = "m - length hs"
    have t: "take n ((bs @ bs') @ B) = bs @ take ?n (bs' @ B)" "take m ((hs @ hs') @ H) = hs @ take ?m (hs' @ H)"
      using False by simp_all
    have "?n < length bs' \<or> ?m < length hs'" using nm False by auto
    then obtain f e where "db (take ?n (bs' @ B), take ?m (hs' @ H)) = Inl (Err (BufferTooShort f e))"
      using encodesD(3) [OF b] by blast
    then show ?thesis unfolding de t encodesD(2) [OF a] by (simp add: k)
  qed
qed

lemma encodes_empty: "encodes (\<lambda>_ p. Inr p) (\<lambda>d. Inr (x, d)) x [] []"
  by (simp add: encodes_def)

lemma encodes_wrap:
  assumes a: "encodes sa da a bs hs" and ser: "\<And>p. ser y p = sa a p"
    and de: "\<And>d. de d = rbind (da d) (\<lambda>(x, d'). k x d')" and k: "\<And>d'. k a d' = Inr (y, d')"
  shows "encodes ser de y bs hs"
proof -
  have "encodes ser de y (bs @ []) (hs @ [])"
  proof (rule encodes_bind [OF a encodes_empty])
    show "ser y p = rbind (sa a p) (\<lambda>p. Inr p)" for p unfolding ser by (simp add: encodesD(1) [OF a])
    show "k a d' = rbind (Inr ((), d')) (\<lambda>(z, d''). Inr (y, d''))" for d' by (simp add: k)
  qed (rule de, rule refl)
  then show ?thesis by simp
qed

lemma next_buffer_append: "length bs = n \<Longrightarrow> next_buffer n (bs @ b, h) = Inr (bs, (b, h))"
  by (auto simp: next_buffer_def check_buffer_def)

lemma next_buffer_short: "n < k \<Longrightarrow> next_buffer k (take n bs, h) = Inl (Err (BufferTooShort (length (take n bs)) k))"
  by (auto simp: next_buffer_def check_buffer_def)

lemma encodes_buffer:
  assumes ser: "\<And>p. ser y p = Inr (extend_packet p bs [])"
    and de: "\<And>d. de d = rbind (next_buffer (length bs) d) (\<lambda>(x, d'). k x d')" and k: "\<And>d'. k bs d' = Inr (y, d')"
  shows "encodes ser de y bs []"
  unfolding encodes_def de by (auto simp: ser k next_buffer_append next_buffer_short)

lemma encodes_handle: "encodes ser_handle de_handle h [] [h]"
  by (auto simp: encodes_def ser_handle_def de_handle_def next_handle_def check_handles_def)

section \<open>Basic types\<close>

lemma bit_from_ne_bytes:
  "bit (from_ne_bytes bs :: 'a::len word) n \<longleftrightarrow> n < LENGTH('a) \<and> n div 8 < length bs \<and> bit (bs ! (n div 8)) (n mod 8)"
proof (induction bs arbitrary: n)
  case (Cons b bs)
  show ?case
  proof (cases "n < 8")
    case True
    then show ?thesis by (auto simp: bit_simps)
  next
    case False
    then have "n div 8 = Suc ((n - 8) div 8)" "n mod 8 = (n - 8) mod 8" by (simp_all add: le_div_geq le_mod_geq)
    moreover have "\<not> bit b n" using False by (auto dest: bit_imp_le_length)
    ultimately show ?thesis using Cons [of "n - 8"] False by (auto simp: bit_simps)
  qed
qed simp

lemma from_to_ne_bytes:
  assumes "8 dvd LENGTH('a)"
  shows "from_ne_bytes (to_ne_bytes w) = (w :: 'a::len word)"
proof (rule bit_word_eqI)
  fix n assume n: "n < LENGTH('a)"
  then have "n div 8 < LENGTH('a) div 8" using assms by (metis div_less_iff_less_mult dvd_div_mult_self zero_less_numeral)
  then show "bit (from_ne_bytes (to_ne_bytes w) :: 'a word) n = bit w n"
    using n by (simp add: bit_from_ne_bytes to_ne_bytes_def bit_simps)
qed

lemma encodes_basic: "8 dvd LENGTH('a) \<Longrightarrow> encodes ser_basic de_basic (w :: 'a::len word) (to_ne_bytes w) []"
  by (rule encodes_buffer [where k = "\<lambda>bs d'. Inr (from_ne_bytes bs, d')"])
    (simp_all add: ser_basic_def de_basic_def from_to_ne_bytes, simp add: to_ne_bytes_def)

lemma encodes_bool: "encodes ser_bool de_bool b [if b then 1 else 0] []"
  by (rule encodes_buffer [where k = "\<lambda>bs d'. if bs ! 0 = 0 then Inr (False, d') else if bs ! 0 = 1 then Inr (True, d')
      else Inl (Err TypeMismatch)"]) (simp_all add: ser_bool_def de_bool_def)

lemma dvd_widths: "8 dvd LENGTH(8)" "8 dvd LENGTH(16)" "8 dvd LENGTH(32)" "8 dvd LENGTH(64)"
  by simp_all

interpretation p_unit: serde_packet ser_unit de_unit "\<lambda>_. True"
  by unfold_locales (auto simp: encodes_def ser_unit_def de_unit_def intro!: exI [of _ "[]"])

interpretation p_bool: serde_packet ser_bool de_bool "\<lambda>_. True"
  by unfold_locales (blast intro: encodes_bool)

interpretation p_u8: serde_packet "ser_basic :: u8 ser" de_basic "\<lambda>_. True"
  by unfold_locales (blast intro: encodes_basic dvd_widths)

interpretation p_u16: serde_packet "ser_basic :: u16 ser" de_basic "\<lambda>_. True"
  by unfold_locales (blast intro: encodes_basic dvd_widths)

interpretation p_u32: serde_packet "ser_basic :: u32 ser" de_basic "\<lambda>_. True"
  by unfold_locales (blast intro: encodes_basic dvd_widths)

interpretation p_u64: serde_packet "ser_basic :: u64 ser" de_basic "\<lambda>_. True"
  by unfold_locales (blast intro: encodes_basic dvd_widths)

interpretation p_non_null: serde_packet ser_non_null de_non_null "\<lambda>v. v \<noteq> 0"
proof
  fix v :: usize assume "v \<noteq> 0"
  then have "encodes ser_non_null de_non_null v (to_ne_bytes v) []"
    using encodes_wrap [OF encodes_basic [OF dvd_widths(4), of v], of ser_non_null v de_non_null
        "\<lambda>v d'. if v = 0 then Inl (Err TypeMismatch) else Inr (v, d')"] by (simp add: ser_non_null_def de_non_null_def)
  then show "\<exists>bs hs. encodes ser_non_null de_non_null v bs hs" by blast
qed

interpretation p_error: serde_packet ser_error de_error error_code
proof
  fix e assume e: "error_code e"
  let ?k = "\<lambda>retval d'. rbind (lift_run (try_decode retval)) (\<lambda>o'. case o' of Some e \<Rightarrow> Inr (e, d') | None \<Rightarrow> Inl (Err TypeMismatch))"
  have "try_decode (into_retval e) = Inr (Some e)"
    using try_decode_error [OF e] by (simp add: into_retval_def result_encode_def)
  then have "encodes ser_error de_error e (to_ne_bytes (into_retval e)) []"
    using encodes_wrap [OF encodes_basic [OF dvd_widths(4), of "into_retval e"], of ser_error e de_error ?k]
    by (simp add: ser_error_def de_error_def lift_run_def)
  then show "\<exists>bs hs. encodes ser_error de_error e bs hs" by blast
qed

interpretation p_handle: serde_packet ser_handle de_handle "\<lambda>_. True"
  by unfold_locales (blast intro: encodes_handle)

lemma encodes_opt_handle: "h \<noteq> Some NULL \<Longrightarrow> encodes ser_opt_handle de_opt_handle h [] [case h of Some h' \<Rightarrow> h' | None \<Rightarrow> NULL]"
  by (rule encodes_wrap [OF encodes_handle, where k = "\<lambda>h d'. Inr (case check_null h of Inr h' \<Rightarrow> Some h' | Inl _ \<Rightarrow> None, d')"])
    (auto simp: ser_opt_handle_def de_opt_handle_def check_null_def NULL_def is_null_def Handle.expand split: option.splits)

interpretation p_opt_handle: serde_packet ser_opt_handle de_opt_handle "\<lambda>h. h \<noteq> Some NULL"
  by unfold_locales (blast intro: encodes_opt_handle)

interpretation p_ko: serde_packet "ser_ko ID" "de_ko ID" "\<lambda>_. True" for ID
proof
  fix h
  have "encodes (ser_ko ID) (de_ko ID) h (to_ne_bytes ID @ []) ([] @ [h])"
    by (rule encodes_bind [OF encodes_basic [OF dvd_widths(4)] encodes_handle,
          where k = "\<lambda>id' d'. if id' \<noteq> ID then Inl (Err TypeMismatch) else next_handle d'" and g = "\<lambda>z d. Inr (z, d)"])
      (auto simp: ser_ko_def de_ko_def ser_handle_def de_handle_def rbind_def split: sum.splits)
  then show "\<exists>bs hs. encodes (ser_ko ID) (de_ko ID) h bs hs" by blast
qed

section \<open>Generic types\<close>

lemma encodes_seq:
  assumes "\<And>x. x \<in> set xs \<Longrightarrow> \<exists>bs hs. encodes ser de x bs hs"
  shows "\<exists>bs hs. encodes (ser_seq ser) (de_seq de (length xs)) xs bs hs"
  using assms
proof (induction xs)
  case Nil
  have "encodes (ser_seq ser) (de_seq de 0) [] [] []" by (simp add: encodes_def)
  then show ?case unfolding list.size by blast
next
  case (Cons x xs)
  obtain bs hs where x: "encodes ser de x bs hs" using Cons(2) [of x] by auto
  obtain bs' hs' where xs: "encodes (ser_seq ser) (de_seq de (length xs)) xs bs' hs'" using Cons by (meson list.set_intros(2))
  have "encodes (ser_seq ser) (de_seq de (Suc (length xs))) (x # xs) (bs @ bs') (hs @ hs')"
    by (rule encodes_bind [OF x xs, where k = "\<lambda>x d'. rbind (de_seq de (length xs) d') (\<lambda>(xs, d''). Inr (x # xs, d''))"
          and g = "\<lambda>xs d''. Inr (x # xs, d'')"]) simp_all
  then show ?case unfolding length_Cons by blast
qed

text \<open>Sequences with their length in front; the elements pass through a function that must give the value back.\<close>

lemma encodes_counted:
  assumes xs: "\<And>x. x \<in> set xs \<Longrightarrow> \<exists>bs hs. encodes ser de x bs hs" and len: "length xs < 2 ^ 64"
    and ser': "\<And>p. ser' y p = rbind (ser_basic (of_nat (length xs) :: usize) p) (ser_seq ser xs)"
    and de': "\<And>d. de' d = rbind (de_basic d) (\<lambda>(n :: usize, d'). rbind (de_seq de (unat n) d') (\<lambda>(xs, d''). g xs d''))"
    and g: "\<And>d''. g xs d'' = Inr (y, d'')"
  shows "\<exists>bs hs. encodes ser' de' y bs hs"
proof -
  obtain bs hs where s: "encodes (ser_seq ser) (de_seq de (length xs)) xs bs hs" using encodes_seq [OF xs] by blast
  have u: "unat (of_nat (length xs) :: usize) = length xs" using len by (simp add: unat_of_nat_lt)
  have "encodes ser' de' y (to_ne_bytes (of_nat (length xs) :: usize) @ bs) ([] @ hs)"
    by (rule encodes_bind [OF encodes_basic [OF dvd_widths(4)] s,
          where k = "\<lambda>n d'. rbind (de_seq de (unat n) d') (\<lambda>(xs, d''). g xs d'')" and g = g])
      (simp_all add: ser' de' u g)
  then show ?thesis by blast
qed

lemma rbind_id: "rbind m Inr = m"
  by (cases m) auto

context serde_packet
begin

lemma ex_all: "list_all ok xs \<Longrightarrow> x \<in> set xs \<Longrightarrow> \<exists>bs hs. encodes ser de x bs hs"
  using law by (auto simp: list_all_iff)

lemma box_law: "serde_packet (ser_box ser) (de_box de) ok"
proof
  fix x assume "ok x"
  then obtain bs hs where "encodes ser de x bs hs" using law by blast
  then have "encodes (ser_box ser) (de_box de) x bs hs"
    by (rule encodes_wrap [where k = "\<lambda>x d. Inr (x, d)"]) (simp_all add: ser_box_def de_box_def)
  then show "\<exists>bs hs. encodes (ser_box ser) (de_box de) x bs hs" by blast
qed

lemma array_law: "serde_packet (ser_array ser) (de_array n de) (\<lambda>xs. list_all ok xs \<and> length xs = n)"
proof
  fix xs assume a: "list_all ok xs \<and> length xs = n"
  have "ser_array ser = ser_seq ser" "de_array n de = de_seq de n" by (auto simp: ser_array_def de_array_def fun_eq_iff)
  then show "\<exists>bs hs. encodes (ser_array ser) (de_array n de) xs bs hs"
    using encodes_seq [of xs ser de] ex_all a by auto
qed

lemma vec_law: "serde_packet (ser_vec ser) (de_vec de) (\<lambda>xs. list_all ok xs \<and> length xs < 2 ^ 64)"
proof
  fix xs assume a: "list_all ok xs \<and> length xs < 2 ^ 64"
  show "\<exists>bs hs. encodes (ser_vec ser) (de_vec de) xs bs hs"
    by (rule encodes_counted [where xs = xs and ser = ser and de = de and g = "\<lambda>xs d. Inr (xs, d)", OF ex_all [OF conjunct1 [OF a]]])
      (use a in \<open>simp_all add: ser_vec_def de_vec_def rbind_id\<close>)
qed

lemma opt_vec_law:
  "serde_packet (ser_opt_vec ser) (de_opt_vec de) (\<lambda>o'. case o' of None \<Rightarrow> True | Some xs \<Rightarrow> xs \<noteq> [] \<and> list_all ok xs \<and> length xs < 2 ^ 64)"
proof
  fix o' :: "'a list option" assume a: "case o' of None \<Rightarrow> True | Some xs \<Rightarrow> xs \<noteq> [] \<and> list_all ok xs \<and> length xs < 2 ^ 64"
  let ?xs = "case o' of Some xs \<Rightarrow> xs | None \<Rightarrow> []"
  obtain bs hs where "encodes (ser_vec ser) (de_vec de) ?xs bs hs"
    using serde_packet.law [OF vec_law, of ?xs] a by (auto split: option.splits)
  then have "encodes (ser_opt_vec ser) (de_opt_vec de) o' bs hs"
    by (rule encodes_wrap [where k = "\<lambda>xs d'. Inr (if xs \<noteq> [] then Some xs else None, d')"])
      (use a in \<open>auto simp: ser_opt_vec_def de_opt_vec_def split: option.splits\<close>)
  then show "\<exists>bs hs. encodes (ser_opt_vec ser) (de_opt_vec de) o' bs hs" by blast
qed

end

locale serde_packet_pair =
  a: serde_packet sa da oka + b: serde_packet sb db okb
  for sa :: "'a ser" and da and oka and sb :: "'b ser" and db and okb
begin

lemma pair_law: "serde_packet (ser_pair sa sb) (de_pair da db) (\<lambda>(x, y). oka x \<and> okb y)"
proof
  fix xy assume ok: "case xy of (x, y) \<Rightarrow> oka x \<and> okb y"
  obtain x y where xy: "xy = (x, y)" by (cases xy)
  obtain bs hs bs' hs' where e: "encodes sa da x bs hs" "encodes sb db y bs' hs'" using a.law b.law ok xy by blast
  have "encodes (ser_pair sa sb) (de_pair da db) (x, y) (bs @ bs') (hs @ hs')"
    by (rule encodes_bind [OF e, where k = "\<lambda>x d'. rbind (db d') (\<lambda>(y, d''). Inr ((x, y), d''))" and g = "\<lambda>y d''. Inr ((x, y), d'')"])
      (simp_all add: ser_pair_def de_pair_def)
  then show "\<exists>bs hs. encodes (ser_pair sa sb) (de_pair da db) xy bs hs" using xy by blast
qed

lemma result_law: "serde_packet (ser_result sa sb) (de_result da db) (\<lambda>r. case r of Inr x \<Rightarrow> oka x | Inl y \<Rightarrow> okb y)"
proof
  fix r assume ok: "case r of Inr x \<Rightarrow> oka x | Inl y \<Rightarrow> okb y"
  let ?k = "\<lambda>(index :: u8) d'. if index = 0 then rbind (da d') (\<lambda>(t, d''). Inr (Inr t, d''))
     else if index = 1 then rbind (db d') (\<lambda>(e, d''). Inr (Inl e, d'')) else Inl (Err TypeMismatch)"
  note tag = encodes_basic [OF dvd_widths(1)]
  show "\<exists>bs hs. encodes (ser_result sa sb) (de_result da db) r bs hs"
  proof (cases r)
    case (Inl y)
    obtain bs hs where e: "encodes sb db y bs hs" using b.law [of y] ok Inl by auto
    have "encodes (ser_result sa sb) (de_result da db) (Inl y) (to_ne_bytes (1 :: u8) @ bs) ([] @ hs)"
      by (rule encodes_bind [OF tag e, where k = ?k and g = "\<lambda>e d''. Inr (Inl e, d'')"])
        (simp_all add: ser_result_def de_result_def)
    then show ?thesis using Inl by blast
  next
    case (Inr x)
    obtain bs hs where e: "encodes sa da x bs hs" using a.law [of x] ok Inr by auto
    have "encodes (ser_result sa sb) (de_result da db) (Inr x) (to_ne_bytes (0 :: u8) @ bs) ([] @ hs)"
      by (rule encodes_bind [OF tag e, where k = ?k and g = "\<lambda>t d''. Inr (Inr t, d'')"])
        (simp_all add: ser_result_def de_result_def)
    then show ?thesis using Inr by blast
  qed
qed

end

lemma foldl_bt_insert:
  "bt_wf (m @ kvs) \<Longrightarrow> foldl (\<lambda>m (k, v). bt_insert k v m) m kvs = m @ kvs"
proof (induction kvs arbitrary: m)
  case (Cons e kvs)
  have "bt_insert (fst e) (snd e) m = m @ [e]"
    using Cons(2) by (auto simp: bt_insert_def bt_wf_append filter_id_conv filter_empty_conv)
  then show ?case using Cons by (simp add: case_prod_beta)
qed simp

locale serde_packet_map = serde_packet_pair sa da oka sb db okb
  for sa :: "'a::linorder ser" and da and oka and sb :: "'b ser" and db and okb
begin

lemma map_law:
  "serde_packet (ser_map sa sb) (de_map da db) (\<lambda>m. bt_wf m \<and> list_all (\<lambda>(k, v). oka k \<and> okb v) m \<and> length m < 2 ^ 64)"
proof
  fix m :: "('a, 'b) btree" assume a: "bt_wf m \<and> list_all (\<lambda>(k, v). oka k \<and> okb v) m \<and> length m < 2 ^ 64"
  have e: "\<exists>bs hs. encodes (ser_pair sa sb) (de_pair da db) x bs hs" if "x \<in> set m" for x
    using serde_packet.law [OF pair_law, of x] that a by (auto simp: list_all_iff)
  show "\<exists>bs hs. encodes (ser_map sa sb) (de_map da db) m bs hs"
    by (rule encodes_counted [OF e, where g = "\<lambda>kvs d''. Inr (foldl (\<lambda>m (k, v). bt_insert k v m) [] kvs, d'')"])
      (use a foldl_bt_insert [of "[]" m] in \<open>simp_all add: ser_map_def de_map_def\<close>)
qed

end

interpretation map_u32_bool: serde_packet_map "ser_basic :: u32 ser" de_basic "\<lambda>_. True" ser_bool de_bool "\<lambda>_. True"
  by unfold_locales

lemma encodes_vec_u8: "length bs < 2 ^ 64 \<Longrightarrow> \<exists>bs' hs. encodes (ser_vec (ser_basic :: u8 ser)) (de_vec de_basic) bs bs' hs"
  using serde_packet.law [OF p_u8.vec_law] by (simp add: list_all_iff)

text \<open>Byte strings that must satisfy a predicate.\<close>

lemma encodes_checked:
  assumes "length bs < 2 ^ 64" "P bs" "\<And>p. ser y p = ser_vec (ser_basic :: u8 ser) bs p"
    and "\<And>d. de d = rbind (rbind (de_vec de_basic d) (\<lambda>(bs, d'). if P bs then Inr (bs, d') else Inl (Err TypeMismatch))) (\<lambda>(s, d'). g s d')"
    and "\<And>d. g bs d = Inr (y, d)"
  shows "\<exists>bs hs. encodes ser de y bs hs"
proof -
  obtain bs' hs where v: "encodes (ser_vec (ser_basic :: u8 ser)) (de_vec de_basic) bs bs' hs" using encodes_vec_u8 assms(1) by blast
  have "encodes ser de y bs' hs"
    by (rule encodes_wrap [OF v, where k = "\<lambda>bs d'. if P bs then g bs d' else Inl (Err TypeMismatch)"])
      (use assms in \<open>auto simp: rbind_def split: sum.splits\<close>)
  then show ?thesis by blast
qed

interpretation p_string: serde_packet ser_string de_string "\<lambda>s. valid_utf8 s \<and> length s < 2 ^ 64"
  by unfold_locales
    (rule encodes_checked [where P = valid_utf8 and g = "\<lambda>s d. Inr (s, d)"], auto simp: ser_string_def de_string_def rbind_id)

interpretation p_opt_string: serde_packet ser_opt_string de_opt_string
  "\<lambda>o'. case o' of None \<Rightarrow> True | Some s \<Rightarrow> s \<noteq> [] \<and> valid_utf8 s \<and> length s < 2 ^ 64"
proof
  fix o' :: "bytes option" assume a: "case o' of None \<Rightarrow> True | Some s \<Rightarrow> s \<noteq> [] \<and> valid_utf8 s \<and> length s < 2 ^ 64"
  show "\<exists>bs hs. encodes ser_opt_string de_opt_string o' bs hs"
    by (rule encodes_checked [where P = valid_utf8 and bs = "case o' of Some s \<Rightarrow> s | None \<Rightarrow> []" and
          g = "\<lambda>s d'. Inr (if s \<noteq> [] then Some s else None, d')"])
      (use a in \<open>auto simp: ser_opt_string_def ser_string_def de_opt_string_def de_string_def split: option.splits\<close>)
qed

interpretation p_cstring: serde_packet ser_cstring de_cstring "\<lambda>s. is_cstring s \<and> length s < 2 ^ 64"
  by unfold_locales
    (rule encodes_checked [where P = is_cstring and g = "\<lambda>s d. Inr (s, d)"], auto simp: ser_cstring_def de_cstring_def rbind_id)

interpretation p_opt_cstring: serde_packet ser_opt_cstring de_opt_cstring
  "\<lambda>o'. case o' of None \<Rightarrow> True | Some s \<Rightarrow> s \<noteq> [0] \<and> is_cstring s \<and> length s < 2 ^ 64"
proof
  fix o' :: "bytes option" assume a: "case o' of None \<Rightarrow> True | Some s \<Rightarrow> s \<noteq> [0] \<and> is_cstring s \<and> length s < 2 ^ 64"
  have "butlast s \<noteq> []" if "is_cstring s" "s \<noteq> [0]" for s
    using that by (cases s rule: rev_cases) (auto simp: is_cstring_def)
  then show "\<exists>bs hs. encodes ser_opt_cstring de_opt_cstring o' bs hs"
    by (intro encodes_checked [where P = is_cstring and bs = "case o' of Some s \<Rightarrow> s | None \<Rightarrow> [0]" and
          g = "\<lambda>s d'. Inr (if butlast s \<noteq> [] then Some s else None, d')"])
      (use a in \<open>auto simp: ser_opt_cstring_def ser_cstring_def de_opt_cstring_def de_cstring_def is_cstring_def split: option.splits\<close>)
qed

interpretation pair_u32_string: serde_packet_pair "ser_basic :: u32 ser" de_basic "\<lambda>_. True" ser_string de_string
    "\<lambda>s. valid_utf8 s \<and> length s < 2 ^ 64"
  by unfold_locales

section \<open>Round trips of messages\<close>

lemma encodes_message:
  assumes e: "encodes ser de x bs hs"
  shows "serialize ser m x p = Inr \<lparr>pk_id = None, pk_buffer = (to_ne_bytes MAGIC @ to_ne_bytes m) @ bs, pk_handles = hs, \<dots> = packet.more p\<rparr>"
    and "deserialize_metadata \<lparr>pk_id = i, pk_buffer = (to_ne_bytes MAGIC @ to_ne_bytes m) @ b, pk_handles = h\<rparr> = Inr (m, (b, h))"
proof -
  note u = encodes_basic [OF dvd_widths(4)]
  show "serialize ser m x p = Inr \<lparr>pk_id = None, pk_buffer = (to_ne_bytes MAGIC @ to_ne_bytes m) @ bs, pk_handles = hs, \<dots> = packet.more p\<rparr>"
    by (simp add: serialize_def encodesD(1) [OF u] encodesD(1) [OF e] packet_clear_def extend_packet_def)
  show "deserialize_metadata \<lparr>pk_id = i, pk_buffer = (to_ne_bytes MAGIC @ to_ne_bytes m) @ b, pk_handles = h\<rparr> = Inr (m, (b, h))"
    using encodesD(2) [OF u, of MAGIC "to_ne_bytes m @ b" h] encodesD(2) [OF u, of m b h]
    by (simp add: deserialize_metadata_def deserializer_new_def)
qed

lemma metadata_short:
  assumes "\<not> 16 \<le> n"
  shows "\<exists>f g. deserialize_metadata \<lparr>pk_id = i, pk_buffer = take n ((to_ne_bytes MAGIC @ to_ne_bytes (m :: usize)) @ b), pk_handles = h\<rparr>
      = Inl (Err (BufferTooShort f g))"
proof -
  have len: "length (to_ne_bytes (v :: usize)) = 8" for v by (simp add: to_ne_bytes_def)
  show ?thesis
  proof (cases "n < 8")
    case True
    then show ?thesis by (simp add: deserialize_metadata_def deserializer_new_def de_basic_def next_buffer_short del: take_append)
  next
    case False
    then have "take n ((to_ne_bytes MAGIC @ to_ne_bytes m) @ b) = to_ne_bytes MAGIC @ take (n - 8) (to_ne_bytes m @ b)"
      by (simp add: len)
    moreover have "de_basic (take (n - 8) (to_ne_bytes m @ b), h) = (Inl (Err (BufferTooShort (n - 8) 8)) :: failure + (usize \<times> deserializer))"
      using assms by (auto simp: de_basic_def next_buffer_def check_buffer_def len)
    ultimately show ?thesis
      using encodesD(2) [OF encodes_basic [OF dvd_widths(4)], of MAGIC "take (n - 8) (to_ne_bytes m @ b)" h]
      by (simp add: deserialize_metadata_def deserializer_new_def)
  qed
qed

text \<open>
  C8. Messages round trip. For every serialisable type and every value it accepts:
  serialising a message succeeds, whatever the packet held before; deserialising
  it under the same method number gives the value back and leaves nothing; under
  another method number it reports the wrong method; and a message that was cut
  off anywhere, in its bytes or its handles, is rejected as too short.
\<close>

theorem message_roundtrip:
  assumes "serde_packet ser de ok" "ok x"
  shows "\<exists>q. serialize ser m x p = Inr q \<and> deserialize de m q (Some e) = Inr (x, Some (0, 0)) \<and>
    (\<forall>m'. m' \<noteq> m \<longrightarrow> deserialize de m' q extra = Inl (Err (InvalidMethod m' m))) \<and>
    (\<forall>n k. n < length (pk_buffer q) \<or> k < length (pk_handles q) \<longrightarrow>
       (\<exists>f g. deserialize de m (q\<lparr>pk_buffer := take n (pk_buffer q), pk_handles := take k (pk_handles q)\<rparr>) extra
           = Inl (Err (BufferTooShort f g))))"
proof -
  obtain bs hs where e: "encodes ser de x bs hs" using serde_packet.law [OF assms] by blast
  let ?h = "to_ne_bytes MAGIC @ to_ne_bytes m"
  let ?q = "\<lparr>pk_id = None, pk_buffer = ?h @ bs, pk_handles = hs\<rparr>"
  note meta = encodes_message(2) [OF e]
  have len: "length ?h = 16" by (simp add: to_ne_bytes_def)
  have de: "deserialize de m \<lparr>pk_id = None, pk_buffer = ?h @ b, pk_handles = h\<rparr> extra = deserialize_body de (b, h) extra" for b h extra
    by (simp only: deserialize_def meta) simp
  have "serialize ser m x p = Inr ?q" using encodes_message(1) [OF e, of m p] by simp
  moreover have "deserialize de m ?q (Some e) = Inr (x, Some (0, 0))" for e
    unfolding de using encodesD(2) [OF e, of "[]" "[]"] by (simp add: deserialize_body_def)
  moreover have "deserialize de m' ?q extra = Inl (Err (InvalidMethod m' m))" if "m' \<noteq> m" for m'
    using that by (simp only: deserialize_def meta) simp
  moreover have "\<exists>f g. deserialize de m (?q\<lparr>pk_buffer := take n (pk_buffer ?q), pk_handles := take k (pk_handles ?q)\<rparr>) extra
      = Inl (Err (BufferTooShort f g))" if nk: "n < length (pk_buffer ?q) \<or> k < length (pk_handles ?q)" for n k
  proof -
    have q: "?q\<lparr>pk_buffer := take n (pk_buffer ?q), pk_handles := take k (pk_handles ?q)\<rparr> =
        \<lparr>pk_id = None, pk_buffer = take n (?h @ bs), pk_handles = take k hs\<rparr>" by simp
    show ?thesis
    proof (cases "16 \<le> n")
      case True
      then have "take n (?h @ bs) = ?h @ take (n - 16) bs" using len by simp
      moreover have "n - 16 < length bs \<or> k < length hs" using nk len True by auto
      then obtain f g where "de (take (n - 16) (bs @ []), take k (hs @ [])) = Inl (Err (BufferTooShort f g))"
        using encodesD(3) [OF e] by blast
      ultimately show ?thesis unfolding q by (simp only: de) (simp add: deserialize_body_def)
    next
      case False
      then obtain f g where "deserialize_metadata \<lparr>pk_id = None, pk_buffer = take n (?h @ bs), pk_handles = take k hs\<rparr>
          = Inl (Err (BufferTooShort f g))" using metadata_short by blast
      then show ?thesis unfolding q by (simp add: deserialize_def)
    qed
  qed
  ultimately show ?thesis by blast
qed

theorem message_roundtrip_witness:
  "\<exists>q. serialize (ser_map (ser_basic :: u32 ser) ser_bool) 12345 [(1, True), (2, False)]
       \<lparr>pk_id = Some 7, pk_buffer = [9], pk_handles = []\<rparr> = Inr q \<and>
     deserialize (de_map (de_basic :: u32 de) de_bool) 12345 q (Some (3, 4)) = Inr ([(1, True), (2, False)], Some (0, 0))"
proof -
  let ?m = "[(1, True), (2, False)] :: (u32, bool) btree"
  have ok: "bt_wf ?m \<and> list_all (\<lambda>(k, v). True \<and> True) ?m \<and> length ?m < 2 ^ 64" by (simp add: list_all_iff)
  from message_roundtrip [OF map_u32_bool.map_law ok, of 12345 "\<lparr>pk_id = Some 7, pk_buffer = [9], pk_handles = []\<rparr>" "(3, 4)" None]
  show ?thesis by (elim exE conjE) (rule exI, rule conjI)
qed

text \<open>
  C22. The generic serialisable types: boxes, arrays, vectors, optional vectors,
  tuples, results and maps over serialisable types satisfy the interface again.
  An optional vector must not be empty: \<open>Some\<close> of an empty vector is read back as
  \<open>None\<close>.
\<close>

theorem generic_types_serialisable:
  assumes "serde_packet sa da oka" "serde_packet sb db okb"
  shows "serde_packet (ser_box sa) (de_box da) oka \<and>
    serde_packet (ser_array sa) (de_array n da) (\<lambda>xs. list_all oka xs \<and> length xs = n) \<and>
    serde_packet (ser_vec sa) (de_vec da) (\<lambda>xs. list_all oka xs \<and> length xs < 2 ^ 64) \<and>
    serde_packet (ser_opt_vec sa) (de_opt_vec da)
      (\<lambda>o'. case o' of None \<Rightarrow> True | Some xs \<Rightarrow> xs \<noteq> [] \<and> list_all oka xs \<and> length xs < 2 ^ 64) \<and>
    serde_packet (ser_pair sa sb) (de_pair da db) (\<lambda>(x, y). oka x \<and> okb y) \<and>
    serde_packet (ser_result sa sb) (de_result da db) (\<lambda>r. case r of Inr x \<Rightarrow> oka x | Inl y \<Rightarrow> okb y) \<and>
    serde_packet (ser_map sa sb) (de_map da db)
      (\<lambda>m. bt_wf m \<and> list_all (\<lambda>(k :: 'k::linorder, v). oka k \<and> okb v) m \<and> length m < 2 ^ 64) \<and>
    rbind (ser_opt_vec sa (Some []) \<lparr>pk_id = None, pk_buffer = [], pk_handles = []\<rparr>) (\<lambda>q. de_opt_vec da (deserializer_new q))
      = Inr (None, ([], []))"
proof -
  have p: "serde_packet_pair sa da oka sb db okb" "serde_packet_map sa da oka sb db okb"
    using assms by (simp_all add: serde_packet_pair_def serde_packet_map_def)
  have "rbind (ser_opt_vec sa (Some []) \<lparr>pk_id = None, pk_buffer = [], pk_handles = []\<rparr>) (\<lambda>q. de_opt_vec da (deserializer_new q))
      = Inr (None, ([], []))"
    using encodesD(1,2) [OF encodes_basic [OF dvd_widths(4), of 0]] encodesD(2) [OF encodes_basic [OF dvd_widths(4), of 0], of "[]" "[]"]
    by (simp add: ser_opt_vec_def de_opt_vec_def ser_vec_def de_vec_def deserializer_new_def extend_packet_def)
  then show ?thesis
    using serde_packet.box_law [OF assms(1)] serde_packet.array_law [OF assms(1)] serde_packet.vec_law [OF assms(1)]
      serde_packet.opt_vec_law [OF assms(1)] serde_packet_pair.pair_law [OF p(1)] serde_packet_pair.result_law [OF p(1)]
      serde_packet_map.map_law [OF p(2)] by blast
qed

theorem generic_types_serialisable_witness:
  "serde_packet (ser_pair (ser_basic :: u32 ser) ser_string) (de_pair de_basic de_string)
     (\<lambda>(x, s). True \<and> valid_utf8 s \<and> length s < 2 ^ 64) \<and>
   serde_packet (ser_result (ser_basic :: u32 ser) ser_string) (de_result de_basic de_string)
     (\<lambda>r. case r of Inr _ \<Rightarrow> True | Inl s \<Rightarrow> valid_utf8 s \<and> length s < 2 ^ 64)"
  using generic_types_serialisable [OF p_u32.serde_packet_axioms p_string.serde_packet_axioms] by blast

text \<open>
  Optional kernel objects do not round trip: \<open>Option\<close> of an object is written
  without the number of the object type, which reading expects, so a message that
  holds just an optional object is always rejected as too short. In a larger message
  the bytes that follow are taken for the type number.
\<close>

theorem optional_object_unreadable:
  "rbind (serialize (ser_opt_ko ID) m x p) (\<lambda>q. deserialize (de_opt_ko ID) m q extra) = Inl (Err (BufferTooShort 0 8))"
proof -
  let ?h = "case x of Some h \<Rightarrow> h | None \<Rightarrow> NULL"
  have "ser_opt_ko ID x = ser_handle ?h" by (simp add: ser_opt_ko_def ser_opt_handle_def fun_eq_iff)
  then have s: "serialize (ser_opt_ko ID) m x p = serialize ser_handle m ?h p" by (simp add: serialize_def)
  show ?thesis
    unfolding s encodes_message(1) [OF encodes_handle]
    by (simp add: deserialize_def encodes_message(2) [OF encodes_handle, of _ m "[]", simplified] deserialize_body_def de_opt_ko_def de_basic_def
        next_buffer_def check_buffer_def)
qed

end
