(* ===== verification/Bootfs.thy ===== *)
theory Bootfs
  imports Packet
begin

text \<open>
  The boot file system, \<open>src/lib/bootfs/src\<close>: the image that \<open>generate\<close> writes for a
  tree of files and directories (\<open>gen.rs\<close>), and the reader that finds files in an
  image (\<open>parse.rs\<close>).

  The structures of the image (\<open>types.rs\<close>) are written and read as raw memory by the
  crate \<open>plain\<close>; the conversions are an argument with the interface \<open>plain\<close>: they
  keep the values, have the size of the structure, and the version is the first
  field. Sizes and offsets are natural numbers. The image is read at an address
  that is aligned for the structures, and written to a sink that does not fail.
\<close>

section \<open>Types\<close>

datatype EntryType = TFile | TDirectory

record bootfs_entry =
  e_version :: u32
  e_name :: bytes
  e_ty :: EntryType
  e_offset :: nat
  e_len :: nat

record BootfsHeader =
  h_version :: u32
  h_num_entries :: nat
  h_root_dir_offset :: nat
  h_root_dir_len :: nat

definition MAX_NAME_LEN :: nat where "MAX_NAME_LEN = 64"
definition PAGE_ALIGN :: nat where "PAGE_ALIGN = 4096"
definition ENTRY_SIZE :: nat where "ENTRY_SIZE = 128"
definition HEADER_SIZE :: nat where "HEADER_SIZE = 128"
definition VERSION :: u32 where "VERSION = from_ne_bytes [0xbb, 0xff, 0xee, 0xaa]"

record plain_ops =
  enc_header :: "BootfsHeader \<Rightarrow> bytes"
  dec_header :: "bytes \<Rightarrow> BootfsHeader option"
  enc_entry :: "bootfs_entry \<Rightarrow> bytes"
  dec_entry :: "bytes \<Rightarrow> bootfs_entry option"

definition next_multiple_of :: "nat \<Rightarrow> nat \<Rightarrow> nat" where
  "next_multiple_of n a = (if n mod a = 0 then n else n + (a - n mod a))"

section \<open>Writing an image\<close>

datatype Content = File bytes | Directory "GEntry list"
  and GEntry = GEntry (g_name: bytes) (g_content: Content)

lemma size_directory: "sum_list (map size ents) < size (GEntry n (Directory ents))"
  by (induction ents) auto

function split_loop :: "GEntry list \<Rightarrow> nat \<Rightarrow> bootfs_entry list \<Rightarrow> bytes list \<Rightarrow> (bootfs_entry list \<times> bytes list) run" where
  "split_loop [] ent_index entries contents = Inr (entries, contents)"
| "split_loop (e # q) ent_index entries contents =
     rbind (assert_run (length (g_name e) < MAX_NAME_LEN)) (\<lambda>_.
       let name = g_name e @ replicate (MAX_NAME_LEN - length (g_name e)) 0 in
       case g_content e of
         File content \<Rightarrow>
           split_loop q (ent_index + 1)
             (entries @ [\<lparr>e_version = VERSION, e_name = name, e_ty = TFile, e_offset = 0, e_len = length content\<rparr>])
             (contents @ [content])
       | Directory ent \<Rightarrow>
           split_loop (q @ ent) (ent_index + 1)
             (entries @ [\<lparr>e_version = VERSION, e_name = name, e_ty = TDirectory,
                e_offset = HEADER_SIZE + (ent_index + length q + 1) * 8, e_len = length ent * 8\<rparr>])
             contents)"
  by pat_completeness auto

termination
proof (relation "measure (\<lambda>(q, _). sum_list (map size q))", goal_cases)
  case (2 e q ent_index entries contents u name content)
  then show ?case by (cases e) simp
next
  case (3 e q ent_index entries contents u name ent)
  then show ?case using size_directory [of ent "g_name e"] by (cases e) simp
qed simp

definition write_typed :: "bytes \<Rightarrow> nat \<Rightarrow> bytes" where
  "write_typed data sz = data @ replicate (max (length data) sz - length data) 0"

text \<open>The entries with the offsets of the files, and these offsets.\<close>

fun place :: "nat \<Rightarrow> bootfs_entry list \<Rightarrow> bootfs_entry list \<times> nat list" where
  "place off [] = ([], [])"
| "place off (e # es) =
     (if e_ty e = TFile then
        (let (es', offs) = place (off + next_multiple_of (e_len e) PAGE_ALIGN) es
         in (e\<lparr>e_offset := off\<rparr> # es', off # offs))
      else (let (es', offs) = place off es in (e # es', offs)))"

fun write_contents :: "(nat \<times> bytes) list \<Rightarrow> bytes" where
  "write_contents ((off, content) # (next_off, c) # rest) =
     content @ replicate (next_off - (off + length content)) 0 @ write_contents ((next_off, c) # rest)"
| "write_contents _ = []"

definition generate :: "plain_ops \<Rightarrow> GEntry \<Rightarrow> bytes run" where
  "generate pl input =
     rbind (split_loop [input] 0 [] []) (\<lambda>(entries, contents).
     rbind (if entries = [] then Inl OutOfBounds else Inr (entries ! 0)) (\<lambda>first.
       let n = length entries;
           header = write_typed (enc_header pl \<lparr>h_version = VERSION, h_num_entries = n,
                      h_root_dir_offset = HEADER_SIZE + 8, h_root_dir_len = e_len first\<rparr>) HEADER_SIZE;
           ent_start = next_multiple_of (HEADER_SIZE + n * 8) PAGE_ALIGN;
           offsets = concat (map (\<lambda>i. write_typed (to_ne_bytes (of_nat (ent_start + i * ENTRY_SIZE) :: usize)) 8) [0..<n]);
           len = HEADER_SIZE + n * 8;
           aligned_len = next_multiple_of len PAGE_ALIGN;
           (entries', file_offsets) = place (aligned_len + next_multiple_of (n * ENTRY_SIZE) PAGE_ALIGN) entries;
           metadata = concat (map (\<lambda>e. write_typed (enc_entry pl e) ENTRY_SIZE) entries');
           len' = aligned_len + n * ENTRY_SIZE
       in rbind
            (if contents \<noteq> [] then
               rbind (assert_run (length file_offsets = length contents)) (\<lambda>_.
                 let end_offset = next_multiple_of (last file_offsets + length (last contents)) PAGE_ALIGN
                 in Inr (replicate (hd file_offsets - len') 0 @ write_contents (zip file_offsets contents @ [(end_offset, [])])))
             else Inr [])
            (\<lambda>files. Inr (header @ offsets @ replicate (aligned_len - len) 0 @ metadata @ files))))"

section \<open>Reading an image\<close>

text \<open>\<open>&s[a..][..n]\<close>\<close>

definition slice_at :: "'a list \<Rightarrow> nat \<Rightarrow> nat \<Rightarrow> 'a list run" where
  "slice_at s a n = rbind (slice_from s a) (\<lambda>t. slice_to t n)"

text \<open>A directory is the image and the bytes of its offset array.\<close>

type_synonym directory = "bytes \<times> bytes"

definition root :: "plain_ops \<Rightarrow> bytes \<Rightarrow> directory option run" where
  "root pl img =
     rbind (slice_to img 4) (\<lambda>v.
       if v = to_ne_bytes VERSION then
         rbind (slice_to img 128) (\<lambda>hb.
           case dec_header pl hb of None \<Rightarrow> Inr None
           | Some header \<Rightarrow>
               rbind (slice_at img (h_root_dir_offset header) (h_root_dir_len header)) (\<lambda>dir. Inr (Some (img, dir))))
       else Inr None)"

definition dir_next :: "plain_ops \<Rightarrow> directory \<Rightarrow> (bootfs_entry option \<times> directory) run" where
  "dir_next pl it =
     (if length (snd it) < 8 then Inr (None, it)
      else
        let offset = unat (from_ne_bytes (take 8 (snd it)) :: usize); it' = (fst it, drop 8 (snd it)) in
        rbind (slice_at (fst it) offset ENTRY_SIZE) (\<lambda>entry.
        rbind (slice_to entry 4) (\<lambda>v.
          if v \<noteq> to_ne_bytes VERSION then Inr (None, it') else Inr (dec_entry pl entry, it'))))"

definition name_eq :: "bootfs_entry \<Rightarrow> bytes \<Rightarrow> bool run" where
  "name_eq e name =
     (let len = min (length name) (MAX_NAME_LEN - 1) in
      rbind (slice_to (e_name e) len) (\<lambda>n.
        if n = name then (if len < length (e_name e) then Inr (e_name e ! len = 0) else Inl OutOfBounds) else Inr False))"

lemma dir_next_shorter: "dir_next pl it = Inr (Some e, it') \<Longrightarrow> length (snd it') < length (snd it)"
  by (auto simp: dir_next_def rbind_Inr_conv Let_def split: if_splits)

function dir_get :: "plain_ops \<Rightarrow> directory \<Rightarrow> bytes \<Rightarrow> bootfs_entry option run" where
  "dir_get pl it name =
     rbind (dir_next pl it) (\<lambda>(o', it').
       case o' of None \<Rightarrow> Inr None
       | Some e \<Rightarrow> rbind (name_eq e name) (\<lambda>b. if b then Inr (Some e) else dir_get pl it' name))"
  by pat_completeness auto
termination
  by (relation "measure (\<lambda>(_, it, _). length (snd it))") (auto dest: dir_next_shorter)

declare dir_get.simps [simp del]

text \<open>The content of an entry: the bytes of a file or a directory.\<close>

definition entry_content :: "bytes \<Rightarrow> bootfs_entry \<Rightarrow> (bytes + directory) run" where
  "entry_content img e =
     rbind (slice_at img (e_offset e) (e_len e)) (\<lambda>content.
       case e_ty e of TFile \<Rightarrow> Inr (Inl content)
       | TDirectory \<Rightarrow> rbind (assert_run (length content mod 8 = 0)) (\<lambda>_. Inr (Inr (img, content))))"

fun find_loop :: "plain_ops \<Rightarrow> directory \<Rightarrow> bytes list \<Rightarrow> bytes option run" where
  "find_loop pl dir [] = Inr None"
| "find_loop pl dir (name # names) =
     rbind (dir_get pl dir name) (\<lambda>o'. case o' of None \<Rightarrow> Inr None
       | Some e \<Rightarrow> rbind (entry_content (fst dir) e) (\<lambda>c. case c of Inl content \<Rightarrow> Inr (Some content) | Inr dir' \<Rightarrow> find_loop pl dir' names))"

text \<open>\<open>path.split(|&b| b == separator)\<close>\<close>

fun split_bytes :: "u8 \<Rightarrow> bytes \<Rightarrow> bytes list" where
  "split_bytes sep [] = [[]]"
| "split_bytes sep (b # bs) =
     (if b = sep then [] # split_bytes sep bs else (b # hd (split_bytes sep bs)) # tl (split_bytes sep bs))"

definition bootfs_find :: "plain_ops \<Rightarrow> directory \<Rightarrow> bytes \<Rightarrow> u8 \<Rightarrow> bytes option run" where
  "bootfs_find pl dir path separator = find_loop pl dir (split_bytes separator path)"


section \<open>The conversions of the structures\<close>

definition entry_fits :: "bootfs_entry \<Rightarrow> bool" where
  "entry_fits e \<longleftrightarrow> length (e_name e) = MAX_NAME_LEN \<and> e_offset e < 2 ^ 64 \<and> e_len e < 2 ^ 64"

definition header_fits :: "BootfsHeader \<Rightarrow> bool" where
  "header_fits h \<longleftrightarrow> h_num_entries h < 2 ^ 64 \<and> h_root_dir_offset h < 2 ^ 64 \<and> h_root_dir_len h < 2 ^ 64"

locale plain =
  fixes pl :: plain_ops
  assumes header_length: "length (enc_header pl h) = HEADER_SIZE"
    and header_version: "take 4 (enc_header pl h) = to_ne_bytes (h_version h)"
    and header_dec: "header_fits h \<Longrightarrow> dec_header pl (enc_header pl h) = Some h"
    and entry_length: "length (enc_entry pl e) = ENTRY_SIZE"
    and entry_version: "take 4 (enc_entry pl e) = to_ne_bytes (e_version e)"
    and entry_dec: "entry_fits e \<Longrightarrow> dec_entry pl (enc_entry pl e) = Some e"

section \<open>The order of the entries\<close>

text \<open>
  The queue of \<open>split\<close> visits the tree breadth first; each entry is listed with the index
  of the first of its children.
\<close>

fun children :: "GEntry \<Rightarrow> GEntry list" where
  "children (GEntry _ (Directory ents)) = ents"
| "children (GEntry _ (File _)) = []"

lemma size_children: "sum_list (map size (children e)) < size e"
  by (cases e rule: children.cases) (auto intro: size_directory [simplified])

function bfs :: "GEntry list \<Rightarrow> nat \<Rightarrow> (GEntry \<times> nat) list" where
  "bfs [] n = []"
| "bfs (e # q) n = (e, n + length q + 1) # bfs (q @ children e) (n + 1)"
  by pat_completeness auto
termination
  by (relation "measure (\<lambda>(q, _). sum_list (map size q))") (auto simp: size_children)

lemma bfs_front:
  "i < length q \<Longrightarrow> i < length (bfs q n) \<and> fst (bfs q n ! i) = q ! i"
proof (induction q n arbitrary: i rule: bfs.induct)
  case (2 e q n)
  then show ?case by (cases i) (auto simp: nth_append)
qed simp

lemma bfs_children:
  assumes "i < length (bfs q n)" and "bfs q n ! i = (e, k)" and "j < length (children e)"
  shows "n \<le> k \<and> k + j - n < length (bfs q n) \<and> fst (bfs q n ! (k + j - n)) = children e ! j"
  using assms
proof (induction q n arbitrary: i rule: bfs.induct)
  case (2 x q n)
  show ?case
  proof (cases i)
    case 0
    then have x: "x = e" and k: "k = n + length q + 1" using "2.prems" by auto
    have "length q + j < length (q @ children x)" using "2.prems" x by simp
    from bfs_front [OF this, of "n + 1"] show ?thesis by (simp add: x k nth_append)
  next
    case (Suc i')
    then have "n + 1 \<le> k \<and> k + j - (n + 1) < length (bfs (q @ children x) (n + 1))
        \<and> fst (bfs (q @ children x) (n + 1) ! (k + j - (n + 1))) = children e ! j"
      using "2.prems" by (intro "2.IH") auto
    moreover have "k + j - n = Suc (k + j - (n + 1))" if "n + 1 \<le> k" using that by arith
    ultimately show ?thesis by simp
  qed
qed simp

lemma bfs_children_bound:
  assumes "i < length (bfs q n)" and "bfs q n ! i = (e, k)"
  shows "n < k \<and> k + length (children e) \<le> n + length (bfs q n)"
  using assms
proof (induction q n arbitrary: i rule: bfs.induct)
  case (2 x q n)
  have "length (q @ children x) \<le> length (bfs (q @ children x) (n + 1))"
    by (metis bfs_front linorder_not_less order_less_irrefl)
  then show ?case
    using "2.prems" "2.IH" [of "i - 1"] by (cases i) auto
qed simp

fun names_ok :: "GEntry \<Rightarrow> bool" where
  "names_ok (GEntry n c) \<longleftrightarrow> length n < MAX_NAME_LEN \<and> 0 \<notin> set n
     \<and> (case c of File _ \<Rightarrow> True | Directory ents \<Rightarrow> list_all names_ok ents)"

lemma names_ok_children: "names_ok e \<Longrightarrow> list_all names_ok (children e)"
  by (cases e rule: children.cases) auto

lemma names_ok_name: "names_ok e \<Longrightarrow> length (g_name e) < MAX_NAME_LEN \<and> 0 \<notin> set (g_name e)"
  by (cases e) auto

lemma bfs_names_ok: "list_all names_ok q \<Longrightarrow> p \<in> set (bfs q n) \<Longrightarrow> names_ok (fst p)"
  by (induction q n rule: bfs.induct) (auto simp: names_ok_children)

text \<open>The entry that \<open>split\<close> makes of a node, and the contents it collects.\<close>

definition node_entry :: "GEntry \<times> nat \<Rightarrow> bootfs_entry" where
  "node_entry p =
     (let name = g_name (fst p) @ replicate (MAX_NAME_LEN - length (g_name (fst p))) 0 in
      case g_content (fst p) of
        File c \<Rightarrow> \<lparr>e_version = VERSION, e_name = name, e_ty = TFile, e_offset = 0, e_len = length c\<rparr>
      | Directory ents \<Rightarrow> \<lparr>e_version = VERSION, e_name = name, e_ty = TDirectory,
          e_offset = HEADER_SIZE + snd p * 8, e_len = length ents * 8\<rparr>)"

definition node_file :: "GEntry \<times> nat \<Rightarrow> bytes list" where
  "node_file p = (case g_content (fst p) of File c \<Rightarrow> [c] | Directory _ \<Rightarrow> [])"

lemma split_loop_bfs:
  "list_all names_ok q \<Longrightarrow>
     split_loop q n es cs = Inr (es @ map node_entry (bfs q n), cs @ concat (map node_file (bfs q n)))"
proof (induction q n arbitrary: es cs rule: bfs.induct)
  case (2 e q n)
  have ok: "length (g_name e) < MAX_NAME_LEN" and q: "list_all names_ok (q @ children e)"
    using "2.prems" names_ok_name names_ok_children by auto
  note IH = "2.IH" [OF q]
  show ?case
    using ok IH by (cases e rule: children.cases) (simp_all add: assert_run_def Let_def node_entry_def node_file_def)
qed simp

declare split_loop.simps [simp del]

section \<open>The layout of the image\<close>

text \<open>\<open>n\<close> bytes at position \<open>a\<close>.\<close>

definition at :: "bytes \<Rightarrow> nat \<Rightarrow> nat \<Rightarrow> bytes \<Rightarrow> bool" where
  "at s a n t \<longleftrightarrow> a + n \<le> length s \<and> take n (drop a s) = t"

lemma slice_at_at: "at s a n t \<Longrightarrow> slice_at s a n = Inr t"
  by (auto simp: at_def slice_at_def slice_from_def slice_to_def)

lemma at_right: "at y a n t \<Longrightarrow> at (x @ y) (length x + a) n t"
  by (simp add: at_def)

lemma at_left: "at x a n t \<Longrightarrow> at (x @ y) a n t"
  by (auto simp: at_def)

lemma at_here: "n = length t \<Longrightarrow> at (t @ y) 0 n t"
  by (simp add: at_def)

lemma at_whole: "n = length t \<Longrightarrow> at t 0 n t"
  by (simp add: at_def)

lemma at_concat:
  assumes "\<And>x. length (f x) = w" and "i + m \<le> length xs"
  shows "at (concat (map f xs)) (i * w) (m * w) (concat (map f (take m (drop i xs))))"
proof -
  have len: "length (concat (map f ys)) = length ys * w" for ys
    by (induction ys) (simp_all add: assms)
  have "xs = take i xs @ take m (drop i xs) @ drop m (drop i xs)"
    by (simp only: append_take_drop_id)
  then have "concat (map f xs) = concat (map f (take i xs)) @ concat (map f (take m (drop i xs))) @ concat (map f (drop m (drop i xs)))"
    by (metis concat_append map_append)
  moreover have "length (concat (map f (take i xs))) = i * w" "length (concat (map f (take m (drop i xs)))) = m * w"
    using assms(2) by (simp_all add: len)
  ultimately show ?thesis
    using at_right [OF at_here, of "m * w" "concat (map f (take m (drop i xs)))" "concat (map f (take i xs))" "concat (map f (drop m (drop i xs)))"]
    by simp
qed

lemma next_multiple_ge: "n \<le> next_multiple_of n a"
  by (metis le_add1 next_multiple_of_def order_refl)

lemma next_multiple_mod: "0 < a \<Longrightarrow> next_multiple_of n a mod a = 0"
proof -
  assume "0 < a"
  moreover have "n = n div a * a + n mod a" by simp
  ultimately have "n + (a - n mod a) = n div a * a + a"
    using mod_less_divisor [of a n] by linarith
  then show ?thesis by (simp add: next_multiple_of_def)
qed

lemma next_multiple_add: "m mod a = 0 \<Longrightarrow> next_multiple_of (m + n) a = m + next_multiple_of n a"
  by (simp add: next_multiple_of_def mod_add_eq [of m a n, symmetric])

lemma PAGE_ALIGN_pos [simp]: "0 < PAGE_ALIGN"
  by (simp add: PAGE_ALIGN_def)

text \<open>The files, each padded to whole pages.\<close>

definition padded :: "bytes \<Rightarrow> bytes" where
  "padded c = c @ replicate (next_multiple_of (length c) PAGE_ALIGN - length c) 0"

lemma length_padded: "length (padded c) = next_multiple_of (length c) PAGE_ALIGN"
  using next_multiple_ge [of "length c" PAGE_ALIGN] by (simp add: padded_def)


fun file_offs :: "nat \<Rightarrow> bytes list \<Rightarrow> nat list" where
  "file_offs off [] = []"
| "file_offs off (c # cs) = off # file_offs (off + length (padded c)) cs"

lemma length_file_offs [simp]: "length (file_offs off cs) = length cs"
  by (induction off cs rule: file_offs.induct) auto

lemma write_contents_padded:
  assumes "off mod PAGE_ALIGN = 0" and "cs \<noteq> []"
    and "end_off = next_multiple_of (last (file_offs off cs) + length (last cs)) PAGE_ALIGN"
  shows "write_contents (zip (file_offs off cs) cs @ [(end_off, [])]) = concat (map padded cs)"
  using assms
proof (induction off cs rule: file_offs.induct)
  case (2 off c cs)
  have step: "off + length (padded c) - (off + length c) = next_multiple_of (length c) PAGE_ALIGN - length c"
    by (simp add: length_padded)
  have mod: "(off + length (padded c)) mod PAGE_ALIGN = 0"
    using "2.prems"(1) next_multiple_mod [of PAGE_ALIGN "length c"] by (simp add: length_padded mod_add_eq [symmetric])
  show ?case
  proof (cases cs)
    case Nil
    then show ?thesis using "2.prems" by (simp add: next_multiple_add padded_def)
  next
    case (Cons d ds)
    then have "write_contents (zip (file_offs (off + length (padded c)) cs) cs @ [(end_off, [])]) = concat (map padded cs)"
      using "2.prems" mod by (intro "2.IH") auto
    then show ?thesis using Cons step by (simp add: padded_def [of c])
  qed
qed simp

lemma node_entry_file:
  "g_content (fst p) = File c \<Longrightarrow> e_ty (node_entry p) = TFile \<and> e_len (node_entry p) = length c"
  by (simp add: node_entry_def Let_def)

lemma node_entry_directory:
  "g_content (fst p) = Directory ents \<Longrightarrow> e_ty (node_entry p) = TDirectory \<and> e_len (node_entry p) = length ents * 8
     \<and> e_offset (node_entry p) = HEADER_SIZE + snd p * 8"
  by (simp add: node_entry_def Let_def)

lemma node_entry_name:
  "e_version (node_entry p) = VERSION"
  "e_name (node_entry p) = g_name (fst p) @ replicate (MAX_NAME_LEN - length (g_name (fst p))) 0"
  by (simp_all add: node_entry_def Let_def split: Content.splits)

text \<open>The entry of a node after \<open>place\<close>: a file lies at its offset.\<close>

definition placed :: "nat \<Rightarrow> bytes list \<Rightarrow> GEntry \<times> nat \<Rightarrow> bootfs_entry \<Rightarrow> bool" where
  "placed off cs p e \<longleftrightarrow>
     (case g_content (fst p) of
        Directory _ \<Rightarrow> e = node_entry p
      | File c \<Rightarrow> \<exists>d. e = (node_entry p)\<lparr>e_offset := off + d\<rparr> \<and> at (concat (map padded cs)) d (length c) c)"

lemma placed_shift:
  assumes "placed (off + length (padded c)) cs p e"
  shows "placed off (c # cs) p e"
proof (cases "g_content (fst p)")
  case (File c')
  with assms obtain d where "e = (node_entry p)\<lparr>e_offset := off + (length (padded c) + d)\<rparr>"
    and "at (concat (map padded cs)) d (length c') c'" by (auto simp: placed_def add.assoc)
  then show ?thesis
    using File at_right [of "concat (map padded cs)" d "length c'" c' "padded c"] by (auto simp: placed_def)
qed (use assms in \<open>simp add: placed_def\<close>)

lemma placed_here:
  assumes "g_content (fst p) = File c"
  shows "placed off (c # cs) p ((node_entry p)\<lparr>e_offset := off\<rparr>)"
proof -
  have "at (padded c) 0 (length c) c" by (simp add: padded_def at_here)
  then show ?thesis using assms by (auto simp: placed_def intro!: exI [of _ 0] at_left)
qed

lemma place_entries:
  assumes "place off (map node_entry ps) = (es, offs)"
  shows "offs = file_offs off (concat (map node_file ps))
    \<and> list_all2 (placed off (concat (map node_file ps))) ps es"
  using assms
proof (induction ps arbitrary: off es offs)
  case (Cons p ps)
  show ?case
  proof (cases "g_content (fst p)")
    case (File c)
    obtain es' offs' where pl: "place (off + length (padded c)) (map node_entry ps) = (es', offs')"
      by fastforce
    have "es = (node_entry p)\<lparr>e_offset := off\<rparr> # es'" and "offs = off # offs'"
      using Cons.prems pl node_entry_file [OF File] by (auto simp: length_padded)
    then show ?thesis
      using Cons.IH [OF pl] File placed_here [OF File]
      by (auto simp: node_file_def intro: placed_shift elim!: list_all2_mono)
  next
    case (Directory ents)
    obtain es' offs' where pl: "place off (map node_entry ps) = (es', offs')"
      by fastforce
    have "es = node_entry p # es'" and "offs = offs'"
      using Cons.prems pl node_entry_directory [OF Directory] by auto
    then show ?thesis
      using Cons.IH [OF pl] Directory by (simp add: node_file_def placed_def)
  qed
qed simp

section \<open>The image that is generated\<close>

definition nodes :: "GEntry \<Rightarrow> (GEntry \<times> nat) list" where
  "nodes input = bfs [input] 0"

lemma nodes_0: "0 < length (nodes input) \<and> nodes input ! 0 = (input, 1)"
  by (simp add: nodes_def)

definition ent_start :: "nat \<Rightarrow> nat" where
  "ent_start n = next_multiple_of (HEADER_SIZE + n * 8) PAGE_ALIGN"

definition files_start :: "nat \<Rightarrow> nat" where
  "files_start n = ent_start n + next_multiple_of (n * ENTRY_SIZE) PAGE_ALIGN"

definition offset_bytes :: "nat \<Rightarrow> nat \<Rightarrow> bytes" where
  "offset_bytes n i = to_ne_bytes (of_nat (ent_start n + i * ENTRY_SIZE) :: usize)"

definition node_files :: "(GEntry \<times> nat) list \<Rightarrow> bytes list" where
  "node_files ps = concat (map node_file ps)"

definition image_header :: "(GEntry \<times> nat) list \<Rightarrow> BootfsHeader" where
  "image_header ps = \<lparr>h_version = VERSION, h_num_entries = length ps,
     h_root_dir_offset = HEADER_SIZE + 8, h_root_dir_len = e_len (node_entry (ps ! 0))\<rparr>"

definition image_bytes :: "plain_ops \<Rightarrow> (GEntry \<times> nat) list \<Rightarrow> bootfs_entry list \<Rightarrow> bytes" where
  "image_bytes pl ps es =
     (let n = length ps in
      enc_header pl (image_header ps) @ concat (map (offset_bytes n) [0..<n]) @
      replicate (ent_start n - (HEADER_SIZE + n * 8)) 0 @ concat (map (enc_entry pl) es) @
      (if node_files ps = [] then []
       else replicate (files_start n - (ent_start n + n * ENTRY_SIZE)) 0 @ concat (map padded (node_files ps))))"

lemma length_offset_bytes: "length (offset_bytes n i) = 8"
  by (simp add: offset_bytes_def to_ne_bytes_def)

text \<open>What the reader finds where.\<close>

definition holds_image :: "plain_ops \<Rightarrow> (GEntry \<times> nat) list \<Rightarrow> bootfs_entry list \<Rightarrow> bytes \<Rightarrow> bool" where
  "holds_image pl ps es img \<longleftrightarrow>
     length es = length ps \<and> HEADER_SIZE + length ps * 8 \<le> length img
   \<and> at img 0 HEADER_SIZE (enc_header pl (image_header ps))
   \<and> (\<forall>i m. i + m \<le> length ps \<longrightarrow> at img (HEADER_SIZE + i * 8) (m * 8) (concat (map (offset_bytes (length ps)) [i..<i + m])))
   \<and> (\<forall>i < length ps. at img (ent_start (length ps) + i * ENTRY_SIZE) ENTRY_SIZE (enc_entry pl (es ! i)))
   \<and> (\<forall>i < length ps. case g_content (fst (ps ! i)) of
        Directory _ \<Rightarrow> es ! i = node_entry (ps ! i)
      | File c \<Rightarrow> \<exists>off. es ! i = (node_entry (ps ! i))\<lparr>e_offset := off\<rparr> \<and> at img off (length c) c)"

lemma length_concat_const: "(\<And>x. length (f x) = w) \<Longrightarrow> length (concat (map f xs)) = length xs * w"
  by (induction xs) simp_all

text \<open>The file that a path names in the tree.\<close>

fun file_at :: "GEntry list \<Rightarrow> bytes list \<Rightarrow> bytes option" where
  "file_at ents [] = None"
| "file_at ents (name # names) =
     (case find (\<lambda>e. g_name e = name) ents of None \<Rightarrow> None
      | Some e \<Rightarrow> (case g_content e of File c \<Rightarrow> if names = [] then Some c else None | Directory ents' \<Rightarrow> file_at ents' names))"

text \<open>The search of \<open>find\<close> on the tree: it ends at the first file, whatever follows in the path.\<close>

fun lookup_tree :: "GEntry list \<Rightarrow> bytes list \<Rightarrow> bytes option" where
  "lookup_tree ents [] = None"
| "lookup_tree ents (name # names) =
     (case find (\<lambda>e. g_name e = name) ents of None \<Rightarrow> None
      | Some e \<Rightarrow> (case g_content e of File c \<Rightarrow> Some c | Directory ents' \<Rightarrow> lookup_tree ents' names))"

lemma lookup_tree_file: "file_at ents (take n names) = Some c \<Longrightarrow> lookup_tree ents names = Some c"
proof (induction names arbitrary: ents n)
  case (Cons name names)
  then show ?case by (cases n) (auto split: option.splits Content.splits if_splits)
qed simp

lemma lookup_tree_none: "(\<And>n. file_at ents (take n names) = None) \<Longrightarrow> lookup_tree ents names = None"
proof (induction names arbitrary: ents)
  case (Cons name names)
  have one: "file_at ents [name] = None" using Cons.prems [of 1] by simp
  have more: "file_at ents (name # take n names) = None" for n using Cons.prems [of "Suc n"] by simp
  show ?case
  proof (cases "find (\<lambda>e. g_name e = name) ents")
    case (Some e)
    show ?thesis
    proof (cases "g_content e")
      case (File c)
      then show ?thesis using one Some by simp
    next
      case (Directory ents')
      then have "file_at ents' (take n names) = None" for n using more [of n] Some by simp
      then show ?thesis using Cons.IH Some Directory by simp
    qed
  qed simp
qed simp

definition image_size :: "(GEntry \<times> nat) list \<Rightarrow> nat" where
  "image_size ps =
     (let n = length ps in
      if node_files ps = [] then ent_start n + n * ENTRY_SIZE
      else files_start n + sum_list (map (\<lambda>c. next_multiple_of (length c) PAGE_ALIGN) (node_files ps)))"

lemma name_eq_padded:
  assumes "length nm < MAX_NAME_LEN" and "0 \<notin> set nm" and "0 \<notin> set name"
    and "e_name e = nm @ replicate (MAX_NAME_LEN - length nm) 0"
  shows "name_eq e name = Inr (nm = name)"
proof -
  let ?l = "min (length name) (MAX_NAME_LEN - 1)"
  have len: "length (e_name e) = MAX_NAME_LEN" and l: "?l < MAX_NAME_LEN" using assms by (simp_all add: MAX_NAME_LEN_def)
  have eq: "take ?l (e_name e) = name \<and> e_name e ! ?l = 0 \<longleftrightarrow> nm = name"
  proof
    assume *: "take ?l (e_name e) = name \<and> e_name e ! ?l = 0"
    then have lname: "length name \<le> MAX_NAME_LEN - 1" and l': "?l = length name" by (metis length_take min.cobounded2 len min.commute min_def order_refl)+
    have "\<not> length nm < length name"
    proof
      assume "length nm < length name"
      then have "name ! length nm = 0" using * l' lname assms(1,4) by (metis diff_is_0_eq len length_append length_replicate linorder_not_less nth_append_length_plus nth_replicate nth_take add_0_right l add_diff_cancel_left' zero_less_diff)
      then show False using assms(3) \<open>length nm < length name\<close> nth_mem by metis
    qed
    moreover have "\<not> length name < length nm"
    proof
      assume "length name < length nm"
      then have "nm ! length name = 0" using * l' assms(4) by (simp add: nth_append)
      then show False using assms(2) \<open>length name < length nm\<close> nth_mem by metis
    qed
    ultimately have "length nm = length name" by simp
    then show "nm = name" using * l' assms(4) by simp
  next
    assume "nm = name"
    then show "take ?l (e_name e) = name \<and> e_name e ! ?l = 0"
      using assms(1,4) by (simp add: nth_append MAX_NAME_LEN_def)
  qed
  show ?thesis
    using eq l len by (auto simp: name_eq_def Let_def slice_to_def)
qed

lemma holds_image_offsets:
  "holds_image pl ps es img \<Longrightarrow> i + m \<le> length ps
     \<Longrightarrow> at img (HEADER_SIZE + i * 8) (m * 8) (concat (map (offset_bytes (length ps)) [i..<i + m]))"
  by (simp add: holds_image_def)

context plain
begin

lemma typed_header: "write_typed (enc_header pl h) HEADER_SIZE = enc_header pl h"
  by (simp add: write_typed_def header_length)

lemma typed_entry: "write_typed (enc_entry pl e) ENTRY_SIZE = enc_entry pl e"
  by (simp add: write_typed_def entry_length)

lemma generate_image:
  assumes "names_ok input"
  obtains es where "list_all2 (placed (files_start (length (nodes input))) (node_files (nodes input))) (nodes input) es"
    and "generate pl input = Inr (image_bytes pl (nodes input) es)"
proof -
  define ps where "ps = nodes input"
  obtain es offs where pl: "place (files_start (length ps)) (map node_entry ps) = (es, offs)"
    by fastforce
  from place_entries [OF pl] have offs: "offs = file_offs (files_start (length ps)) (node_files ps)"
    and placed: "list_all2 (placed (files_start (length ps)) (node_files ps)) ps es"
    by (simp_all add: node_files_def)
  have split: "split_loop [input] 0 [] [] = Inr (map node_entry ps, node_files ps)"
    using split_loop_bfs [of "[input]" 0 "[]" "[]"] assms by (simp add: ps_def nodes_def node_files_def)
  have ne: "ps \<noteq> []" using nodes_0 [of input] by (auto simp: ps_def)
  have len: "length es = length ps" using placed by (simp add: list_all2_lengthD)
  have typed: "(\<lambda>i. write_typed (to_ne_bytes (of_nat (ent_start n + i * ENTRY_SIZE) :: usize)) 8) = offset_bytes n" for n
    using length_offset_bytes [of n] by (simp add: write_typed_def offset_bytes_def fun_eq_iff del: of_nat_add of_nat_mult)
  have mod: "files_start (length ps) mod PAGE_ALIGN = 0"
    by (simp add: files_start_def ent_start_def mod_add_eq [symmetric] next_multiple_mod)
  have files: "write_contents (zip offs (node_files ps) @
      [(next_multiple_of (last offs + length (last (node_files ps))) PAGE_ALIGN, [])]) = concat (map padded (node_files ps))"
    and hd: "hd offs = files_start (length ps)" and lo: "length offs = length (node_files ps)" if "node_files ps \<noteq> []"
    using that offs write_contents_padded [OF mod that] by (cases "node_files ps"; simp)+
  have "generate pl input = Inr (image_bytes pl ps es)"
    using ne pl files hd lo nth_map [of 0 ps node_entry]
    by (simp add: generate_def split Let_def typed_header typed_entry typed [unfolded ent_start_def] image_bytes_def
        image_header_def ent_start_def files_start_def assert_run_def del: of_nat_add of_nat_mult)
  then show ?thesis using that placed unfolding ps_def by blast
qed


lemma image_bytes_holds:
  assumes "list_all2 (placed (files_start (length ps)) (node_files ps)) ps es"
  shows "holds_image pl ps es (image_bytes pl ps es)"
proof -
  let ?n = "length ps"
  define H where "H = enc_header pl (image_header ps)"
  define Os where "Os = concat (map (offset_bytes ?n) [0..<?n])"
  define Z where "Z = (replicate (ent_start ?n - (HEADER_SIZE + ?n * 8)) 0 :: bytes)"
  define M where "M = concat (map (enc_entry pl) es)"
  define F where "F = (if node_files ps = [] then []
       else replicate (files_start ?n - (ent_start ?n + ?n * ENTRY_SIZE)) 0 @ concat (map padded (node_files ps)))"
  have img: "image_bytes pl ps es = H @ Os @ Z @ M @ F"
    by (simp add: image_bytes_def H_def Os_def Z_def M_def F_def Let_def)
  have len: "length es = ?n" using assms by (simp add: list_all2_lengthD)
  have lens: "length H = HEADER_SIZE" "length Os = ?n * 8" "length (H @ Os @ Z) = ent_start ?n" "length M = ?n * ENTRY_SIZE"
    using next_multiple_ge [of "HEADER_SIZE + ?n * 8" PAGE_ALIGN] len length_concat_const [of "offset_bytes ?n" 8, OF length_offset_bytes]
      length_concat_const [of "enc_entry pl" ENTRY_SIZE, OF entry_length]
    by (simp_all add: H_def header_length Os_def Z_def M_def ent_start_def)
  have files: "at (image_bytes pl ps es) (files_start ?n + d) m t"
    if "at (concat (map padded (node_files ps))) d m t" and "node_files ps \<noteq> []" for d m t
  proof -
    let ?P = "replicate (files_start ?n - (ent_start ?n + ?n * ENTRY_SIZE)) 0 :: bytes"
    have "length ((H @ Os @ Z) @ M @ ?P) = files_start ?n"
      using lens next_multiple_ge [of "?n * ENTRY_SIZE" PAGE_ALIGN] by (simp add: files_start_def)
    then show ?thesis
      using at_right [OF that(1), of "(H @ Os @ Z) @ M @ ?P"] that(2) by (simp add: img F_def)
  qed
  have off: "at (image_bytes pl ps es) (HEADER_SIZE + i * 8) (m * 8) (concat (map (offset_bytes ?n) [i..<i + m]))"
    if "i + m \<le> ?n" for i m
    using at_right [OF at_left [OF at_concat [of "offset_bytes ?n" 8 i m "[0..<?n]", OF length_offset_bytes]], of H "Z @ M @ F"] that lens
    by (simp add: img Os_def take_upt drop_upt)
  have ent: "at (image_bytes pl ps es) (ent_start ?n + i * ENTRY_SIZE) ENTRY_SIZE (enc_entry pl (es ! i))" if "i < ?n" for i
    using at_right [OF at_left [OF at_concat [of "enc_entry pl" ENTRY_SIZE i 1 es, OF entry_length]], of "H @ Os @ Z" F] that lens len
    by (simp add: img M_def take_Suc_conv_app_nth Cons_nth_drop_Suc [symmetric])
  have node: "case g_content (fst (ps ! i)) of
        Directory _ \<Rightarrow> es ! i = node_entry (ps ! i)
      | File c \<Rightarrow> \<exists>off. es ! i = (node_entry (ps ! i))\<lparr>e_offset := off\<rparr> \<and> at (image_bytes pl ps es) off (length c) c" if i: "i < ?n" for i
  proof -
    have pl: "placed (files_start ?n) (node_files ps) (ps ! i) (es ! i)"
      using assms i by (rule list_all2_nthD)
    have "node_files ps \<noteq> []" if "g_content (fst (ps ! i)) = File c" for c
    proof -
      have "c \<in> set (node_files ps)"
        using that nth_mem [OF i] unfolding node_files_def by (auto simp: node_file_def intro!: bexI [of _ "ps ! i"])
      then show ?thesis by auto
    qed
    then show ?thesis
      using pl files by (fastforce simp: placed_def split: Content.splits)
  qed
  show ?thesis
    using off ent node len lens at_here [of HEADER_SIZE H "Os @ Z @ M @ F"]
    unfolding holds_image_def by (simp add: img H_def)
qed


lemma bounded_entries:
  assumes "holds_image pl (nodes input) es img" and "length img < 2 ^ 64" and "names_ok input" and i: "i < length (nodes input)"
  shows "entry_fits (es ! i) \<and> e_version (es ! i) = VERSION
    \<and> e_name (es ! i) = g_name (fst (nodes input ! i)) @ replicate (MAX_NAME_LEN - length (g_name (fst (nodes input ! i)))) 0"
proof -
  let ?p = "nodes input ! i"
  have name: "length (g_name (fst ?p)) < MAX_NAME_LEN"
    using bfs_names_ok [of "[input]" ?p 0] assms nth_mem [OF i] names_ok_name by (simp add: nodes_def)
  have k: "snd ?p + length (children (fst ?p)) \<le> length (nodes input)"
    using bfs_children_bound [of i "[input]" 0 "fst ?p" "snd ?p"] i by (simp add: nodes_def)
  have len: "HEADER_SIZE + length (nodes input) * 8 \<le> length img" using assms by (simp add: holds_image_def)
  show ?thesis
  proof (cases "g_content (fst ?p)")
    case (File c)
    then obtain off where "es ! i = (node_entry ?p)\<lparr>e_offset := off\<rparr>" "off + length c \<le> length img"
      using assms(1) i by (force simp: holds_image_def at_def)
    then show ?thesis
      using name assms(2) node_entry_file [OF File] by (simp add: entry_fits_def node_entry_name)
  next
    case (Directory ents)
    then have "es ! i = node_entry ?p" using assms(1) i by (force simp: holds_image_def)
    moreover have "length ents = length (children (fst ?p))" using Directory by (cases "fst ?p") simp
    ultimately show ?thesis
      using name assms(2) node_entry_directory [OF Directory] k len by (simp add: entry_fits_def node_entry_name)
  qed
qed

lemma dir_next_image:
  assumes "holds_image pl (nodes input) es img" and "length img < 2 ^ 64" and "names_ok input"
    and i: "i + m < length (nodes input)"
  shows "dir_next pl (img, concat (map (offset_bytes (length (nodes input))) [i..<i + Suc m]))
       = Inr (Some (es ! i), (img, concat (map (offset_bytes (length (nodes input))) [Suc i..<Suc i + m])))"
proof -
  let ?n = "length (nodes input)"
  have at: "at img (ent_start ?n + i * ENTRY_SIZE) ENTRY_SIZE (enc_entry pl (es ! i))"
    using assms by (simp add: holds_image_def)
  have fits: "entry_fits (es ! i)" and v: "e_version (es ! i) = VERSION"
    using bounded_entries [OF assms(1-3), of i] i by simp_all
  have "ent_start ?n + i * ENTRY_SIZE < 2 ^ 64"
    using at assms(2) by (simp add: at_def)
  then have off: "unat (from_ne_bytes (offset_bytes ?n i) :: usize) = ent_start ?n + i * ENTRY_SIZE"
    by (simp add: offset_bytes_def from_to_ne_bytes unat_of_nat take_bit_eq_mod del: of_nat_add of_nat_mult)
  have cons: "concat (map (offset_bytes ?n) [i..<i + Suc m]) = offset_bytes ?n i @ concat (map (offset_bytes ?n) [Suc i..<Suc i + m])"
    by (simp add: upt_conv_Cons del: upt_Suc)
  show ?thesis
    unfolding cons
    using slice_at_at [OF at] fits v
    by (simp add: dir_next_def length_offset_bytes Let_def off slice_to_def entry_length entry_version entry_dec ENTRY_SIZE_def [symmetric],
        simp add: ENTRY_SIZE_def)
qed


lemma dir_get_image:
  assumes "holds_image pl (nodes input) es img" and "length img < 2 ^ 64" and "names_ok input"
    and "i + m \<le> length (nodes input)" and "0 \<notin> set name"
  shows "dir_get pl (img, concat (map (offset_bytes (length (nodes input))) [i..<i + m])) name
       = Inr (map_option (\<lambda>j. es ! j) (find (\<lambda>j. g_name (fst (nodes input ! j)) = name) [i..<i + m]))"
  using assms(4)
proof (induction m arbitrary: i)
  case 0
  then show ?case by (simp add: dir_get.simps dir_next_def)
next
  case (Suc m)
  then have i: "i < length (nodes input)" and im: "i + m < length (nodes input)" by simp_all
  have ok: "names_ok (fst (nodes input ! i))"
    using bfs_names_ok [of "[input]" "nodes input ! i" 0] assms(3) nth_mem [OF i] by (simp add: nodes_def)
  have eq: "name_eq (es ! i) name = Inr (g_name (fst (nodes input ! i)) = name)"
    using name_eq_padded [OF _ _ assms(5)] names_ok_name [OF ok] bounded_entries [OF assms(1-3) i] by blast
  have "dir_get pl (img, concat (map (offset_bytes (length (nodes input))) [i..<i + Suc m])) name
      = (if g_name (fst (nodes input ! i)) = name then Inr (Some (es ! i))
         else dir_get pl (img, concat (map (offset_bytes (length (nodes input))) [Suc i..<Suc i + m])) name)"
    by (subst dir_get.simps) (simp only: dir_next_image [OF assms(1-3) im] rbind_simps prod.case option.case eq)
  moreover have "[i..<i + Suc m] = i # [Suc i..<Suc i + m]" by (simp add: upt_conv_Cons del: upt_Suc)
  ultimately show ?case
    using Suc.IH [of "Suc i"] Suc.prems by (simp del: upt_Suc)
qed

lemma find_children:
  assumes i: "i < length (nodes input)" and "nodes input ! i = (e, k)"
  shows "find (\<lambda>e. P e) (children e) = map_option (\<lambda>j. fst (nodes input ! j)) (find (\<lambda>j. P (fst (nodes input ! j))) [k..<k + length (children e)])"
proof -
  have "map (\<lambda>j. fst (nodes input ! j)) [k..<k + length (children e)] = children e"
    using bfs_children [of i "[input]" 0 e k] assms by (intro nth_equalityI) (auto simp: nodes_def)
  moreover have "find P (map f xs) = map_option f (find (\<lambda>x. P (f x)) xs)" for f :: "nat \<Rightarrow> GEntry" and xs
    by (induction xs) auto
  ultimately show ?thesis by metis
qed

lemma find_loop_image:
  assumes "holds_image pl (nodes input) es img" and "length img < 2 ^ 64" and "names_ok input"
    and "i < length (nodes input)" and "nodes input ! i = (e, k)" and "\<forall>name \<in> set names. 0 \<notin> set name"
  shows "find_loop pl (img, concat (map (offset_bytes (length (nodes input))) [k..<k + length (children e)])) names
       = Inr (lookup_tree (children e) names)"
  using assms(4-6)
proof (induction names arbitrary: i e k)
  case (Cons name names)
  let ?n = "length (nodes input)"
  let ?find = "find (\<lambda>j. g_name (fst (nodes input ! j)) = name) [k..<k + length (children e)]"
  have bound: "k + length (children e) \<le> ?n"
    using bfs_children_bound [of i "[input]" 0 e k] Cons.prems by (simp add: nodes_def)
  have nm: "0 \<notin> set name" using Cons.prems by simp
  note get = dir_get_image [OF assms(1-3) bound nm]
  note kids = find_children [OF Cons.prems(1,2), of "\<lambda>e. g_name e = name"]
  show ?case
  proof (cases ?find)
    case None
    then show ?thesis using get kids by simp
  next
    case (Some j)
    then have j: "j < ?n" using bound by (auto simp: find_Some_iff2 find_Some_iff)
    show ?thesis
    proof (cases "g_content (fst (nodes input ! j))")
      case (File c)
      then obtain off where "es ! j = (node_entry (nodes input ! j))\<lparr>e_offset := off\<rparr>" "at img off (length c) c"
        using assms(1) j by (force simp: holds_image_def)
      then have "entry_content img (es ! j) = Inr (Inl c)"
        using node_entry_file [OF File] by (simp add: entry_content_def slice_at_at)
      then show ?thesis using get kids Some File by simp
    next
      case (Directory ents)
      obtain e' k' where e': "nodes input ! j = (e', k')" by fastforce
      have ents: "ents = children e'" using Directory e' by (cases e') simp
      have "es ! j = node_entry (nodes input ! j)" using assms(1) j Directory by (force simp: holds_image_def)
      moreover have "at img (HEADER_SIZE + k' * 8) (length ents * 8) (concat (map (offset_bytes ?n) [k'..<k' + length ents]))"
        using assms(1) bfs_children_bound [of j "[input]" 0 e' k'] j e' ents by (simp add: holds_image_def nodes_def)
      ultimately have "entry_content img (es ! j) = Inr (Inr (img, concat (map (offset_bytes ?n) [k'..<k' + length ents])))"
        using node_entry_directory [OF Directory] e' length_concat_const [of "offset_bytes ?n" 8, OF length_offset_bytes]
        by (simp add: entry_content_def slice_at_at assert_run_def)
      moreover have "find_loop pl (img, concat (map (offset_bytes ?n) [k'..<k' + length (children e')])) names = Inr (lookup_tree (children e') names)"
        using Cons.IH [OF j e'] Cons.prems by simp
      ultimately show ?thesis using get kids Some Directory e' ents by simp
    qed
  qed
qed simp

lemma length_image:
  assumes "length es = length ps"
  shows "length (image_bytes pl ps es) = image_size ps"
proof -
  have "HEADER_SIZE + length ps * 8 \<le> ent_start (length ps)"
    by (simp add: ent_start_def next_multiple_ge)
  moreover have "ent_start (length ps) + length ps * ENTRY_SIZE \<le> files_start (length ps)"
    by (simp add: files_start_def next_multiple_ge)
  moreover have "length (concat (map padded cs)) = sum_list (map (\<lambda>c. next_multiple_of (length c) PAGE_ALIGN) cs)" for cs
    by (induction cs) (simp_all add: length_padded)
  ultimately show ?thesis
    using assms length_concat_const [of "offset_bytes (length ps)" 8, OF length_offset_bytes]
      length_concat_const [of "enc_entry pl" ENTRY_SIZE, OF entry_length]
    by (simp add: image_bytes_def image_size_def Let_def header_length)
qed

lemma root_image:
  assumes "holds_image pl (nodes input) es img" and "length img < 2 ^ 64" and "g_content input = Directory ents"
  shows "root pl img = Inr (Some (img, concat (map (offset_bytes (length (nodes input))) [1..<1 + length (children input)])))"
proof -
  let ?ps = "nodes input"
  have kids: "children input = ents" using assms(3) by (cases input) simp
  have bound: "1 + length ents \<le> length ?ps"
    using bfs_children_bound [of 0 "[input]" 0 input 1] nodes_0 [of input] kids by (simp add: nodes_def)
  have h: "at img 0 HEADER_SIZE (enc_header pl (image_header ?ps))" using assms(1) by (simp add: holds_image_def)
  have len: "HEADER_SIZE + length ?ps * 8 \<le> length img" using assms(1) by (simp add: holds_image_def)
  have e: "e_len (node_entry (?ps ! 0)) = length ents * 8"
    using node_entry_directory [of "?ps ! 0" ents] nodes_0 [of input] assms(3) by simp
  have fits: "header_fits (image_header ?ps)"
    using len bound e assms(2) by (simp add: header_fits_def image_header_def)
  have t: "take 128 img = enc_header pl (image_header ?ps)" using h by (simp add: at_def HEADER_SIZE_def)
  have "take 4 img = take 4 (take 128 img)" by simp
  then have "take 4 img = to_ne_bytes VERSION"
    unfolding t using header_version [of "image_header ?ps"] by (simp add: image_header_def)
  moreover have "at img (HEADER_SIZE + 8) (length ents * 8) (concat (map (offset_bytes (length ?ps)) [1..<1 + length ents]))"
    using assms(1) bound [THEN holds_image_offsets [OF assms(1)]] by simp
  moreover have "128 \<le> length img" using len by (simp add: HEADER_SIZE_def)
  ultimately show ?thesis
    using t fits e kids header_dec [OF fits] by (simp add: root_def slice_to_def slice_at_at image_header_def)
qed

end

lemma split_bytes_set: "name \<in> set (split_bytes sep path) \<Longrightarrow> set name \<subseteq> set path"
proof (induction path arbitrary: name)
  case (Cons b bs)
  have "split_bytes sep bs \<noteq> []" by (cases bs) simp_all
  then show ?case
    using Cons by (cases "split_bytes sep bs") (fastforce split: if_splits)+
qed simp

text \<open>
  C5. Files are found: for a tree of directories and files whose names are shorter
  than 64 bytes and free of NUL, and whose image is smaller than the address
  space, \<open>generate\<close> writes an image of the predicted size, \<open>root\<close> accepts it, and
  \<open>find\<close> returns for every path free of NUL the contents of the file that the path names in the tree. If the path names no file,
  \<open>find\<close> returns nothing, unless a leading part of the path names a file: then it returns this file.
\<close>

theorem find_in_generated:
  assumes "plain pl" and "names_ok input" and "g_content input = Directory ents" and "image_size (nodes input) < 2 ^ 64"
  shows "\<exists>img d. generate pl input = Inr img \<and> length img = image_size (nodes input) \<and> root pl img = Inr (Some d)
    \<and> (\<forall>path sep. 0 \<notin> set path \<longrightarrow>
        (\<forall>c. file_at ents (split_bytes sep path) = Some c \<longrightarrow> bootfs_find pl d path sep = Inr (Some c))
      \<and> (\<forall>n c. file_at ents (take n (split_bytes sep path)) = Some c \<longrightarrow> bootfs_find pl d path sep = Inr (Some c))
      \<and> ((\<forall>n. file_at ents (take n (split_bytes sep path)) = None) \<longrightarrow> bootfs_find pl d path sep = Inr None))"
proof -
  let ?ps = "nodes input"
  obtain es where placed: "list_all2 (placed (files_start (length ?ps)) (node_files ?ps)) ?ps es"
    and gen: "generate pl input = Inr (image_bytes pl ?ps es)"
    using plain.generate_image [OF assms(1,2)] .
  note image = plain.image_bytes_holds [OF assms(1) placed]
  have len: "length (image_bytes pl ?ps es) = image_size ?ps"
    using plain.length_image [OF assms(1)] list_all2_lengthD [OF placed] by simp
  with assms(4) have small: "length (image_bytes pl ?ps es) < 2 ^ 64" by simp
  have kids: "children input = ents" using assms(3) by (cases input) simp
  let ?d = "(image_bytes pl ?ps es, concat (map (offset_bytes (length ?ps)) [1..<1 + length (children input)]))"
  have find: "bootfs_find pl ?d path sep = Inr (lookup_tree ents (split_bytes sep path))" if "0 \<notin> set path" for path sep
    using plain.find_loop_image [OF assms(1) image small assms(2), of 0 input 1 "split_bytes sep path"] nodes_0 [of input] that
      split_bytes_set kids unfolding bootfs_find_def by (metis subsetD)
  have spec: "(\<forall>c. file_at ents (split_bytes sep path) = Some c \<longrightarrow> bootfs_find pl ?d path sep = Inr (Some c))
      \<and> (\<forall>n c. file_at ents (take n (split_bytes sep path)) = Some c \<longrightarrow> bootfs_find pl ?d path sep = Inr (Some c))
      \<and> ((\<forall>n. file_at ents (take n (split_bytes sep path)) = None) \<longrightarrow> bootfs_find pl ?d path sep = Inr None)"
    if "0 \<notin> set path" for path sep
    unfolding find [OF that]
    using lookup_tree_file [of ents "length (split_bytes sep path)" "split_bytes sep path"] lookup_tree_file [of ents _ "split_bytes sep path"]
      lookup_tree_none [of ents "split_bytes sep path"] by auto
  have "root pl (image_bytes pl ?ps es) = Inr (Some ?d)" by (rule plain.root_image [OF assms(1) image small assms(3)])
  then show ?thesis using gen len spec by blast
qed

section \<open>The layout of the structures\<close>

text \<open>The representation of \<open>repr(C, align(128))\<close>, with zeros as padding.\<close>

definition usize_bytes :: "nat \<Rightarrow> bytes" where
  "usize_bytes n = to_ne_bytes (of_nat n :: usize)"

definition usize_at :: "bytes \<Rightarrow> nat \<Rightarrow> nat" where
  "usize_at bs i = unat (from_ne_bytes (take 8 (drop i bs)) :: usize)"

definition repr_c :: plain_ops where
  "repr_c = \<lparr>
     enc_header = (\<lambda>h. to_ne_bytes (h_version h) @ replicate 4 0 @ usize_bytes (h_num_entries h)
       @ usize_bytes (h_root_dir_offset h) @ usize_bytes (h_root_dir_len h) @ replicate 96 0),
     dec_header = (\<lambda>bs. if length bs < 128 then None
       else Some \<lparr>h_version = from_ne_bytes (take 4 bs), h_num_entries = usize_at bs 8,
         h_root_dir_offset = usize_at bs 16, h_root_dir_len = usize_at bs 24\<rparr>),
     enc_entry = (\<lambda>e. to_ne_bytes (e_version e) @ take 64 (e_name e @ replicate 64 0)
       @ [if e_ty e = TFile then 0 else 1] @ replicate 3 0 @ usize_bytes (e_offset e) @ usize_bytes (e_len e) @ replicate 40 0),
     dec_entry = (\<lambda>bs. if length bs < 128 then None
       else Some \<lparr>e_version = from_ne_bytes (take 4 bs), e_name = take 64 (drop 4 bs),
         e_ty = (if bs ! 68 = 0 then TFile else TDirectory), e_offset = usize_at bs 72, e_len = usize_at bs 80\<rparr>)\<rparr>"

lemma length_usize_bytes [simp]: "length (usize_bytes n) = 8"
  by (simp add: usize_bytes_def to_ne_bytes_def)

lemma length_u32_bytes [simp]: "length (to_ne_bytes (w :: u32)) = 4"
  by (simp add: to_ne_bytes_def)

lemma usize_at_bytes:
  "n < 2 ^ 64 \<Longrightarrow> length x = i \<Longrightarrow> usize_at (x @ usize_bytes n @ y) i = n"
  by (simp add: usize_at_def usize_bytes_def [symmetric]) (simp add: usize_bytes_def from_to_ne_bytes unat_of_nat)

interpretation repr: plain repr_c
proof
  fix h :: BootfsHeader
  assume "header_fits h"
  then show "dec_header repr_c (enc_header repr_c h) = Some h"
    using usize_at_bytes [of "h_num_entries h" "to_ne_bytes (h_version h) @ replicate 4 0" 8]
      usize_at_bytes [of "h_root_dir_offset h" "to_ne_bytes (h_version h) @ replicate 4 0 @ usize_bytes (h_num_entries h)" 16]
      usize_at_bytes [of "h_root_dir_len h" "to_ne_bytes (h_version h) @ replicate 4 0 @ usize_bytes (h_num_entries h) @ usize_bytes (h_root_dir_offset h)" 24]
    by (simp add: repr_c_def header_fits_def from_to_ne_bytes)
next
  fix e :: bootfs_entry
  assume "entry_fits e"
  then show "dec_entry repr_c (enc_entry repr_c e) = Some e"
    using usize_at_bytes [of "e_offset e" "to_ne_bytes (e_version e) @ e_name e @ [if e_ty e = TFile then 0 else 1] @ replicate 3 0" 72]
      usize_at_bytes [of "e_len e" "to_ne_bytes (e_version e) @ e_name e @ [if e_ty e = TFile then 0 else 1] @ replicate 3 0 @ usize_bytes (e_offset e)" 80]
    by (cases "e_ty e") (simp_all add: repr_c_def entry_fits_def MAX_NAME_LEN_def from_to_ne_bytes nth_append)
qed (simp_all add: repr_c_def HEADER_SIZE_def ENTRY_SIZE_def)

definition sample_tree :: GEntry where
  "sample_tree = GEntry [] (Directory [GEntry [97] (File [1, 2, 3]), GEntry [98] (Directory [GEntry [99] (File [4]), GEntry [100] (Directory [])])])"

lemma find_in_generated_witness:
  "\<exists>img d. generate repr_c sample_tree = Inr img \<and> root repr_c img = Inr (Some d)
     \<and> bootfs_find repr_c d [98, 47, 99] 47 = Inr (Some [4]) \<and> bootfs_find repr_c d [98, 47, 97] 47 = Inr None"
proof -
  have "names_ok sample_tree" by (simp add: sample_tree_def MAX_NAME_LEN_def)
  moreover have "image_size (nodes sample_tree) < 2 ^ 64"
    by (simp add: sample_tree_def nodes_def image_size_def node_files_def node_file_def files_start_def ent_start_def
        next_multiple_of_def HEADER_SIZE_def ENTRY_SIZE_def PAGE_ALIGN_def)
  moreover have "g_content sample_tree = Directory (children sample_tree)" by (simp add: sample_tree_def)
  ultimately obtain img d where "generate repr_c sample_tree = Inr img" "root repr_c img = Inr (Some d)"
    and find: "\<forall>path sep. 0 \<notin> set path \<longrightarrow>
        (\<forall>c. file_at (children sample_tree) (split_bytes sep path) = Some c \<longrightarrow> bootfs_find repr_c d path sep = Inr (Some c))
      \<and> (\<forall>n c. file_at (children sample_tree) (take n (split_bytes sep path)) = Some c \<longrightarrow> bootfs_find repr_c d path sep = Inr (Some c))
      \<and> ((\<forall>n. file_at (children sample_tree) (take n (split_bytes sep path)) = None) \<longrightarrow> bootfs_find repr_c d path sep = Inr None)"
    using find_in_generated [OF repr.plain_axioms, of sample_tree "children sample_tree"] by blast
  moreover have "file_at (children sample_tree) (split_bytes 47 [98, 47, 99]) = Some [4]"
    "file_at (children sample_tree) (take n (split_bytes 47 [98, 47, 97])) = None" for n
    by (simp_all add: sample_tree_def take_Cons split: nat.splits)
  moreover have "(0 :: u8) \<notin> set [98, 47, 99]" "(0 :: u8) \<notin> set [98, 47, 97]" by simp_all
  ultimately show ?thesis by blast
qed

end
