(* ===== verification/Ioapic.thy ===== *)
theory Ioapic
  imports Range_Map Syscall
begin

text \<open>
  The I/O APICs, \<open>h2o/kernel/src/dev/x86_64/ioapic.rs\<close>: the redirection entries that
  route the global system interrupts (GSIs).

  The registers are memory-mapped: the volatile accesses to the register selector,
  the data window and the EOI register are operations of a device whose state is
  part of the chip. The fields of an entry are accessed by functions that the
  macro of the crate \<open>modular_bitfield\<close> derives from the widths of the fields. Both
  are the argument \<open>hw\<close> of the model, with the interface \<open>ioapic_hw\<close>.
\<close>

section \<open>Operations with errors\<close>

text \<open>
  An operation on a state returns an error or a value, and the new state; it may panic.
  \<open>try_bind\<close> is the operator \<open>?\<close>.
\<close>

type_synonym ('st, 'a) op = "'st \<Rightarrow> ((Error + 'a) \<times> 'st) run"

definition try_bind :: "('st, 'a) op \<Rightarrow> ('a \<Rightarrow> ('st, 'b) op) \<Rightarrow> ('st, 'b) op" where
  "try_bind m f st = rbind (m st) (\<lambda>(r, st'). case r of Inl e \<Rightarrow> Inr (Inl e, st') | Inr x \<Rightarrow> f x st')"

definition ok_or :: "'a option \<Rightarrow> Error \<Rightarrow> ('st, 'a) op" where
  "ok_or o' e st = Inr (case o' of None \<Rightarrow> Inl e | Some x \<Rightarrow> Inr x, st)"

section \<open>Redirection entries\<close>

datatype DelivMode = Fixed | LowestPriority | Smi | Nmi | Init | StartUp | ExtInt

fun deliv_mode_bits :: "DelivMode \<Rightarrow> u64" where
  "deliv_mode_bits Fixed = 0"
| "deliv_mode_bits LowestPriority = 1"
| "deliv_mode_bits Smi = 2"
| "deliv_mode_bits Nmi = 4"
| "deliv_mode_bits Init = 5"
| "deliv_mode_bits StartUp = 6"
| "deliv_mode_bits ExtInt = 7"

datatype Polarity = High | Low
datatype TriggerMode = Edge | Level

fun polarity_bits :: "Polarity \<Rightarrow> u64" where
  "polarity_bits High = 0"
| "polarity_bits Low = 1"

fun trigger_mode_bits :: "TriggerMode \<Rightarrow> u64" where
  "trigger_mode_bits Edge = 0"
| "trigger_mode_bits Level = 1"

record 's hw =
  bf_get :: "nat \<Rightarrow> nat \<Rightarrow> u64 \<Rightarrow> u64"         \<comment> \<open>offset and width of a field\<close>
  bf_set :: "nat \<Rightarrow> nat \<Rightarrow> u64 \<Rightarrow> u64 \<Rightarrow> u64 run"
  dev_regsel :: "u32 \<Rightarrow> 's \<Rightarrow> 's"
  dev_win :: "'s \<Rightarrow> u32"
  dev_set_win :: "u32 \<Rightarrow> 's \<Rightarrow> 's"
  dev_set_eoi :: "u32 \<Rightarrow> 's \<Rightarrow> 's"

type_synonym IoapicEntry = u64

definition ie_vec :: "'s hw \<Rightarrow> IoapicEntry \<Rightarrow> u8" where "ie_vec hw e = ucast (bf_get hw 0 8 e)"
definition ie_polarity :: "'s hw \<Rightarrow> IoapicEntry \<Rightarrow> Polarity" where
  "ie_polarity hw e = (if bf_get hw 13 1 e = 0 then High else Low)"
definition ie_trigger_mode :: "'s hw \<Rightarrow> IoapicEntry \<Rightarrow> TriggerMode" where
  "ie_trigger_mode hw e = (if bf_get hw 15 1 e = 0 then Edge else Level)"
definition ie_mask :: "'s hw \<Rightarrow> IoapicEntry \<Rightarrow> bool" where "ie_mask hw e \<longleftrightarrow> bf_get hw 16 1 e \<noteq> 0"
definition ie_dest_hi :: "'s hw \<Rightarrow> IoapicEntry \<Rightarrow> u8" where "ie_dest_hi hw e = ucast (bf_get hw 49 7 e)"
definition ie_dest :: "'s hw \<Rightarrow> IoapicEntry \<Rightarrow> u8" where "ie_dest hw e = ucast (bf_get hw 56 8 e)"

definition set_vec :: "'s hw \<Rightarrow> u8 \<Rightarrow> IoapicEntry \<Rightarrow> IoapicEntry run" where "set_vec hw v = bf_set hw 0 8 (ucast v)"
definition set_deliv_mode :: "'s hw \<Rightarrow> DelivMode \<Rightarrow> IoapicEntry \<Rightarrow> IoapicEntry run" where
  "set_deliv_mode hw d = bf_set hw 8 3 (deliv_mode_bits d)"
definition set_polarity :: "'s hw \<Rightarrow> Polarity \<Rightarrow> IoapicEntry \<Rightarrow> IoapicEntry run" where
  "set_polarity hw p = bf_set hw 13 1 (polarity_bits p)"
definition set_trigger_mode :: "'s hw \<Rightarrow> TriggerMode \<Rightarrow> IoapicEntry \<Rightarrow> IoapicEntry run" where
  "set_trigger_mode hw t = bf_set hw 15 1 (trigger_mode_bits t)"
definition set_mask :: "'s hw \<Rightarrow> bool \<Rightarrow> IoapicEntry \<Rightarrow> IoapicEntry run" where "set_mask hw b = bf_set hw 16 1 (of_bool b)"
definition set_dest_hi :: "'s hw \<Rightarrow> u8 \<Rightarrow> IoapicEntry \<Rightarrow> IoapicEntry run" where "set_dest_hi hw v = bf_set hw 49 7 (ucast v)"
definition set_dest :: "'s hw \<Rightarrow> u8 \<Rightarrow> IoapicEntry \<Rightarrow> IoapicEntry run" where "set_dest hw v = bf_set hw 56 8 (ucast v)"

definition dest_id :: "'s hw \<Rightarrow> IoapicEntry \<Rightarrow> u32" where
  "dest_id hw e = ucast (ie_dest hw e) OR push_bit 8 (ucast (ie_dest_hi hw e))"

section \<open>One chip\<close>

datatype IoapicReg = IoapicId | IoapicVer | IoapicArb | IoRedirTable u8

fun reg_index :: "IoapicReg \<Rightarrow> u32" where
  "reg_index IoapicId = 0"
| "reg_index IoapicVer = 1"
| "reg_index IoapicArb = 2"
| "reg_index (IoRedirTable pin) = 0x10 + ucast pin * 2"

record 's Ioapic =
  io_dev :: 's
  io_id :: u8
  io_version :: u32
  io_gsi :: "u32 range"

definition read_reg :: "'s hw \<Rightarrow> u32 \<Rightarrow> 's Ioapic \<Rightarrow> u32 \<times> 's Ioapic" where
  "read_reg hw reg chip = (let d = dev_regsel hw reg (io_dev chip) in (dev_win hw d, chip\<lparr>io_dev := d\<rparr>))"

definition write_reg :: "'s hw \<Rightarrow> u32 \<Rightarrow> u32 \<Rightarrow> 's Ioapic \<Rightarrow> 's Ioapic" where
  "write_reg hw reg val chip = chip\<lparr>io_dev := dev_set_win hw val (dev_regsel hw reg (io_dev chip))\<rparr>"

definition read_ioredtbl :: "'s hw \<Rightarrow> u8 \<Rightarrow> 's Ioapic \<Rightarrow> IoapicEntry \<times> 's Ioapic" where
  "read_ioredtbl hw pin chip =
     (let reg = reg_index (IoRedirTable pin);
          (lo, chip1) = read_reg hw reg chip;
          (hi, chip2) = read_reg hw (reg + 1) chip1
      in (ucast lo OR push_bit 32 (ucast hi), chip2))"

definition write_ioredtbl :: "'s hw \<Rightarrow> u8 \<Rightarrow> IoapicEntry \<Rightarrow> 's Ioapic \<Rightarrow> 's Ioapic" where
  "write_ioredtbl hw pin val chip =
     (let reg = reg_index (IoRedirTable pin)
      in write_reg hw reg (ucast (val AND 0xFFFFFFFF)) (write_reg hw (reg + 1) (ucast (drop_bit 32 val)) chip))"

text \<open>\<open>Ioapic::new\<close>, with the device that is mapped for the chip.\<close>

definition ioapic_new :: "'s hw \<Rightarrow> 's \<Rightarrow> u8 \<Rightarrow> u32 \<Rightarrow> 's Ioapic run" where
  "ioapic_new hw dev ident gsi_base =
     (let (val, chip) = read_reg hw (reg_index IoapicVer) \<lparr>io_dev = dev, io_id = ident, io_version = 0, io_gsi = (0, 0)\<rparr> in
      rbind (add_chk gsi_base ((drop_bit 16 val AND 0xFF) + 1)) (\<lambda>end'.
        Inr (chip\<lparr>io_version := val AND 0xFF, io_gsi := (gsi_base, end')\<rparr>)))"

section \<open>Source overrides\<close>

datatype AcpiPolarity = PSameAsBus | PActiveHigh | PActiveLow
datatype AcpiTriggerMode = TSameAsBus | TEdge | TLevel

record AcpiIntrOvr =
  isa_source :: u8
  global_system_interrupt :: u32
  acpi_polarity :: AcpiPolarity
  acpi_trigger_mode :: AcpiTriggerMode

record IntrOvr =
  io_hw_irq :: u8
  io_ovr_gsi :: u32
  io_polarity :: Polarity
  io_trigger_mode :: TriggerMode

definition legacy_irq :: "u32 \<Rightarrow> bool" where "legacy_irq gsi \<longleftrightarrow> gsi < 16"

definition intr_ovr_new :: "AcpiIntrOvr \<Rightarrow> IntrOvr" where
  "intr_ovr_new a =
     (let gsi = global_system_interrupt a; isa = legacy_irq gsi
      in \<lparr>io_hw_irq = isa_source a, io_ovr_gsi = gsi,
          io_polarity = (case acpi_polarity a of PSameAsBus \<Rightarrow> if isa then High else Low | PActiveHigh \<Rightarrow> High | PActiveLow \<Rightarrow> Low),
          io_trigger_mode = (case acpi_trigger_mode a of TSameAsBus \<Rightarrow> if isa then Edge else Level | TEdge \<Rightarrow> Edge | TLevel \<Rightarrow> Level)\<rparr>)"

fun gsi_from_isa :: "IntrOvr list \<Rightarrow> u8 \<Rightarrow> u32" where
  "gsi_from_isa [] irq = ucast irq"
| "gsi_from_isa (o' # os) irq = (if io_hw_irq o' = irq then io_ovr_gsi o' else gsi_from_isa os irq)"

section \<open>All chips\<close>

type_synonym 's Ioapics = "(u32, 's Ioapic) RangeMap"

text \<open>The mapped device, the identifier and the first GSI of each chip that ACPI reports.\<close>

fun insert_chips :: "'s hw \<Rightarrow> ('s \<times> u8 \<times> u32) list \<Rightarrow> 's Ioapics \<Rightarrow> (Error + 's Ioapics) run" where
  "insert_chips hw [] m = Inr (Inr m)"
| "insert_chips hw ((dev, ident, gsi_base) # acpi) m =
     rbind (ioapic_new hw dev ident gsi_base) (\<lambda>chip.
       case try_insert_with (io_gsi chip) (\<lambda>_. Inr (chip, ())) EEXIST m of
         (Inl e, _) \<Rightarrow> Inr (Inl e)
       | (Inr _, m') \<Rightarrow> insert_chips hw acpi m')"

definition ioapics_new :: "'s hw \<Rightarrow> ('s \<times> u8 \<times> u32) list \<Rightarrow> AcpiIntrOvr list \<Rightarrow> (Error + 's Ioapics \<times> IntrOvr list) run" where
  "ioapics_new hw acpi_ioapics acpi_intr_ovr =
     rbind (insert_chips hw acpi_ioapics (rm_new (0, - 1))) (\<lambda>r. case r of Inl e \<Rightarrow> Inr (Inl e)
       | Inr m \<Rightarrow> Inr (Inr (m, map intr_ovr_new acpi_intr_ovr)))"

definition chip_mut_pin :: "'s Ioapics \<Rightarrow> u32 \<Rightarrow> (u32 range \<times> 's Ioapic \<times> u8) option" where
  "chip_mut_pin m gsi = map_option (\<lambda>(r, chip). (r, chip, ucast (gsi - fst r))) (get_contained gsi m)"

text \<open>The map after the chip of a range has been changed through the reference to it.\<close>

definition put_chip :: "u32 range \<Rightarrow> 's Ioapic \<Rightarrow> 's Ioapics \<Rightarrow> 's Ioapics" where
  "put_chip r chip m = m\<lparr>rm_inner := map (\<lambda>e. if fst e = fst r then (fst e, (fst (snd e), chip)) else e) (rm_inner m)\<rparr>"

definition gsi_range :: "'s Ioapics \<Rightarrow> u32 range option" where
  "gsi_range m = (case (rm_first m, rm_last m) of (Some (f, _), Some (l, _)) \<Rightarrow> Some (fst f, snd l) | _ \<Rightarrow> None)"

text \<open>Reading the entry of a pin, changing it and writing it back.\<close>

definition update_entry :: "'s hw \<Rightarrow> (IoapicEntry \<Rightarrow> IoapicEntry run) \<Rightarrow> u32 range \<times> 's Ioapic \<times> u8 \<Rightarrow> ('s Ioapics, unit) op" where
  "update_entry hw f = (\<lambda>(r, chip, pin) m.
     let (entry, chip1) = read_ioredtbl hw pin chip in
     rbind (f entry) (\<lambda>entry'. Inr (Inr (), put_chip r (write_ioredtbl hw pin entry' chip1) m)))"

definition config_dest :: "'s hw \<Rightarrow> u32 \<Rightarrow> u8 \<Rightarrow> u32 \<Rightarrow> ('s Ioapics, unit) op" where
  "config_dest hw gsi vec apic_id m =
     try_bind (ok_or (chip_mut_pin m gsi) EINVAL) (update_entry hw (\<lambda>entry.
       rbind (set_vec hw vec entry) (\<lambda>entry.
       rbind (set_deliv_mode hw Fixed entry) (\<lambda>entry.
       rbind (set_mask hw True entry) (\<lambda>entry.
       rbind (set_dest hw (ucast (apic_id AND 0xFF)) entry) (\<lambda>entry.
       set_dest_hi hw (ucast (drop_bit 8 apic_id AND 0xFF)) entry)))))) m"

definition ioapic_config :: "'s hw \<Rightarrow> IntrOvr list \<Rightarrow> u32 \<Rightarrow> TriggerMode \<Rightarrow> Polarity \<Rightarrow> ('s Ioapics, unit) op" where
  "ioapic_config hw ovr gsi trig_mode polarity m =
     try_bind (ok_or (chip_mut_pin m gsi) EINVAL) (\<lambda>cp.
       let (t, p) = (case find (\<lambda>i. io_ovr_gsi i = gsi) ovr of
             Some o' \<Rightarrow> (io_trigger_mode o', io_polarity o')
           | None \<Rightarrow> if legacy_irq gsi then (Edge, High) else (trig_mode, polarity))
       in if t \<noteq> trig_mode \<or> p \<noteq> polarity then (\<lambda>m. Inr (Inl EPERM, m))
          else update_entry hw (\<lambda>entry.
            rbind (set_trigger_mode hw t entry) (\<lambda>entry.
            rbind (set_polarity hw p entry) (\<lambda>entry. set_mask hw True entry))) cp) m"

definition get_entry :: "'s hw \<Rightarrow> u32 \<Rightarrow> ('s Ioapics, IoapicEntry) op" where
  "get_entry hw gsi m =
     try_bind (ok_or (chip_mut_pin m gsi) EINVAL) (\<lambda>(r, chip, pin) m.
       let (entry, chip1) = read_ioredtbl hw pin chip in Inr (Inr entry, put_chip r chip1 m)) m"

definition ioapic_deconfig :: "'s hw \<Rightarrow> u32 \<Rightarrow> ('s Ioapics, unit) op" where
  "ioapic_deconfig hw gsi m =
     try_bind (ok_or (chip_mut_pin m gsi) EINVAL) (\<lambda>(r, chip, pin) m.
       rbind (set_mask hw True 0) (\<lambda>entry. Inr (Inr (), put_chip r (write_ioredtbl hw pin entry chip) m))) m"

definition ioapic_mask :: "'s hw \<Rightarrow> u32 \<Rightarrow> bool \<Rightarrow> ('s Ioapics, unit) op" where
  "ioapic_mask hw gsi masked m = try_bind (ok_or (chip_mut_pin m gsi) EINVAL) (update_entry hw (set_mask hw masked)) m"

text \<open>The end of an interrupt is first signalled to the local APIC.\<close>

definition ioapic_eoi :: "'s hw \<Rightarrow> ('l \<Rightarrow> 'l) \<Rightarrow> u32 \<Rightarrow> ('l \<times> 's Ioapics, unit) op" where
  "ioapic_eoi hw lapic_eoi gsi = (\<lambda>(l, m).
     let l' = lapic_eoi l in
     case chip_mut_pin m gsi of None \<Rightarrow> Inr (Inl EINVAL, (l', m))
     | Some (r, chip, pin) \<Rightarrow>
         let (entry, chip1) = read_ioredtbl hw pin chip in
         if 0x20 \<le> io_version chip1 then
           Inr (Inr (), (l', put_chip r (chip1\<lparr>io_dev := dev_set_eoi hw (ucast (ie_vec hw entry)) (io_dev chip1)\<rparr>) m))
         else
           rbind (set_mask hw True entry) (\<lambda>cloned.
             Inr (Inr (), (l', put_chip r (write_ioredtbl hw pin entry (write_ioredtbl hw pin cloned chip1)) m))))"


section \<open>The hardware\<close>

text \<open>
  The bits of an entry that software sets and the hardware keeps: vector, delivery mode,
  destination mode, polarity, trigger mode, mask and destination. The delivery
  status and the remote IRR are maintained by the chip; the other bits may be
  reserved.
\<close>

definition route_bit :: "nat \<Rightarrow> bool" where
  "route_bit i \<longleftrightarrow> i \<le> 11 \<or> i = 13 \<or> i = 15 \<or> i = 16 \<or> 56 \<le> i"

definition kept_bit :: "u32 \<Rightarrow> nat \<Rightarrow> bool" where
  "kept_bit r i \<longleftrightarrow> 0x10 \<le> r \<and> route_bit (if even r then i else 32 + i)"

definition same_route :: "IoapicEntry \<Rightarrow> IoapicEntry \<Rightarrow> bool" where
  "same_route e e' \<longleftrightarrow> (\<forall>i < 64. route_bit i \<longrightarrow> bit e i = bit e' i)"

text \<open>\<open>reg s r\<close> is the content of register \<open>r\<close> of a device in state \<open>s\<close>.\<close>

locale ioapic_hw =
  fixes hw :: "'s hw" and reg :: "'s \<Rightarrow> u32 \<Rightarrow> u32"
  assumes bf_get: "n + w \<le> 64 \<Longrightarrow> bit (bf_get hw n w x) i \<longleftrightarrow> i < w \<and> bit x (n + i)"
    and bf_set: "n + w \<le> 64 \<Longrightarrow> unat v < 2 ^ w \<Longrightarrow>
      \<exists>y. bf_set hw n w v x = Inr y \<and> (\<forall>i < 64. bit y i = (if n \<le> i \<and> i < n + w then bit v (i - n) else bit x i))"
    and bf_set_panic: "n + w < 64 \<Longrightarrow> 2 ^ w \<le> unat v \<Longrightarrow> bf_set hw n w v x = Inl AssertFailed"
    and dev_win: "dev_win hw (dev_regsel hw r s) = reg s r"
    and dev_regsel: "reg (dev_regsel hw r s) = reg s"
    and dev_set_win: "i < 32 \<Longrightarrow> kept_bit r' i \<Longrightarrow>
      bit (reg (dev_set_win hw u (dev_regsel hw r s)) r') i = bit (if r' = r then u else reg s r') i"
    and dev_set_eoi: "i < 32 \<Longrightarrow> kept_bit r i \<Longrightarrow> bit (reg (dev_set_eoi hw u s) r) i = bit (reg s r) i"

definition red_entry :: "('s \<Rightarrow> u32 \<Rightarrow> u32) \<Rightarrow> 's \<Rightarrow> u8 \<Rightarrow> IoapicEntry" where
  "red_entry reg s pin =
     ucast (reg s (reg_index (IoRedirTable pin))) OR push_bit 32 (ucast (reg s (reg_index (IoRedirTable pin) + 1)))"

definition route :: "('s \<Rightarrow> u32 \<Rightarrow> u32) \<Rightarrow> 's Ioapics \<Rightarrow> u32 \<Rightarrow> IoapicEntry option" where
  "route reg m gsi = map_option (\<lambda>(r, chip, pin). red_entry reg (io_dev chip) pin) (chip_mut_pin m gsi)"

text \<open>The chips have disjoint ranges of at most 256 GSIs.\<close>

definition chips_ok :: "'s Ioapics \<Rightarrow> bool" where
  "chips_ok m \<longleftrightarrow> rm_inv m \<and> (\<forall>(k, (r, chip)) \<in> set (rm_inner m). unat (snd r) - unat (fst r) \<le> 256)"

text \<open>The fields of an entry, and the routing that the chips implement.\<close>

record route_fields =
  f_vec :: u8
  f_deliv :: u64
  f_trigger :: TriggerMode
  f_polarity :: Polarity
  f_mask :: bool
  f_dest :: u8

definition entry_fields :: "'s hw \<Rightarrow> IoapicEntry \<Rightarrow> route_fields" where
  "entry_fields hw e = \<lparr>f_vec = ie_vec hw e, f_deliv = bf_get hw 8 3 e, f_trigger = ie_trigger_mode hw e,
     f_polarity = ie_polarity hw e, f_mask = ie_mask hw e, f_dest = ie_dest hw e\<rparr>"

definition routed :: "'s hw \<Rightarrow> ('s \<Rightarrow> u32 \<Rightarrow> u32) \<Rightarrow> (u32 \<Rightarrow> route_fields option) \<Rightarrow> 's Ioapics \<Rightarrow> bool" where
  "routed hw reg rt m \<longleftrightarrow> chips_ok m \<and> (\<forall>g. map_option (entry_fields hw) (route reg m g) = rt g)"

text \<open>The fields of an unused entry.\<close>

definition no_route :: route_fields where
  "no_route = \<lparr>f_vec = 0, f_deliv = 0, f_trigger = Edge, f_polarity = High, f_mask = True, f_dest = 0\<rparr>"

text \<open>The trigger mode and polarity that \<open>config\<close> allows.\<close>

definition mode_allowed :: "IntrOvr list \<Rightarrow> u32 \<Rightarrow> TriggerMode \<Rightarrow> Polarity \<Rightarrow> bool" where
  "mode_allowed ovr g t q \<longleftrightarrow>
     (t, q) = (case find (\<lambda>i. io_ovr_gsi i = g) ovr of Some o' \<Rightarrow> (io_trigger_mode o', io_polarity o')
       | None \<Rightarrow> if legacy_irq g then (Edge, High) else (t, q))"

lemma same_route_refl [simp]: "same_route e e"
  by (simp add: same_route_def)

lemma same_route_trans [trans]: "same_route a b \<Longrightarrow> same_route b c \<Longrightarrow> same_route a c"
  by (simp add: same_route_def)

lemma bit_red_entry:
  "i < 64 \<Longrightarrow> bit (red_entry reg s pin) i =
     (if i < 32 then bit (reg s (reg_index (IoRedirTable pin))) i else bit (reg s (reg_index (IoRedirTable pin) + 1)) (i - 32))"
  by (auto simp: red_entry_def bit_simps dest: bit_imp_le_length)

lemma unat_redir: "unat (reg_index (IoRedirTable pin)) = 16 + 2 * unat pin"
proof -
  have "unat pin < 256" using unsigned_less [of pin] by simp
  then show ?thesis by (simp add: unat_word_ariths unsigned_ucast_eq take_bit_nat_eq_self)
qed

lemma redir_index:
  "even (reg_index (IoRedirTable pin))" "\<not> even (reg_index (IoRedirTable pin) + 1)"
  "0x10 \<le> reg_index (IoRedirTable pin)" "0x10 \<le> reg_index (IoRedirTable pin) + 1"
  "pin' \<noteq> pin \<Longrightarrow> reg_index (IoRedirTable pin') \<noteq> reg_index (IoRedirTable pin)"
proof -
  have b: "unat pin < 256" using unsigned_less [of pin] by simp
  have "unat (reg_index (IoRedirTable pin) + 1) = 17 + 2 * unat pin"
    using b unat_redir [of pin] by (simp only: unat_word_ariths) simp
  then show "0x10 \<le> reg_index (IoRedirTable pin)" "0x10 \<le> reg_index (IoRedirTable pin) + 1"
    using unat_redir [of pin] by (simp_all only: word_le_nat_alt) simp_all
  show "even (reg_index (IoRedirTable pin))" "\<not> even (reg_index (IoRedirTable pin) + 1)"
    by simp_all
  show "reg_index (IoRedirTable pin') \<noteq> reg_index (IoRedirTable pin)" if "pin' \<noteq> pin"
    using unat_redir [of pin] unat_redir [of pin'] that by (metis add_left_cancel mult_left_cancel word_unat_eq_iff zero_neq_numeral)
qed

lemma redir_next: "reg_index (IoRedirTable pin') + 1 \<noteq> reg_index (IoRedirTable pin)"
  by (metis redir_index(1,2))

lemma low_half: "ucast (val AND (0xFFFFFFFF :: u64)) = (ucast val :: u32)"
proof -
  have m: "(0xFFFFFFFF :: u64) = mask 32" by (simp add: mask_eq_exp_minus_1)
  show ?thesis unfolding m by (rule bit_word_eqI) (auto simp: bit_simps)
qed

lemma unat_u8: "unat (ucast (v :: u8) :: u64) < 2 ^ 8"
  using unat_lt_pow [of v] by (simp add: unsigned_ucast_eq take_bit_nat_eq_self)

lemma ucast_u8 [simp]: "ucast (ucast (v :: u8) :: u64) = v"
  by (rule bit_word_eqI) (simp add: bit_simps)

lemma bit_below:
  assumes "unat (v :: 'a::len word) < 2 ^ w" and "bit v i"
  shows "i < w"
proof -
  have "take_bit w (unat v) = unat v" using assms(1) by (rule take_bit_nat_eq_self)
  moreover have "bit (unat v) i" using assms(2) by (simp add: bit_unsigned_iff)
  ultimately show ?thesis by (metis bit_take_bit_iff)
qed

lemma last_of_map: "last_of (map f xs) = map_option f (last_of xs)"
  by (simp add: last_of_def last_map)

lemma filter_opt_None [simp]: "filter_opt P None = None"
  by (simp add: filter_opt_def)

lemma get_contained_put:
  fixes m :: "'s Ioapics"
  assumes "rm_inv m"
  shows "get_contained g (put_chip r chip m)
       = map_option (\<lambda>(r', chip'). (r', if fst r' = fst r then chip else chip')) (get_contained g m)"
proof -
  let ?h = "\<lambda>e. if fst e = fst r then (fst e, (fst (snd e), chip)) else e"
  have "bt_to g (map ?h es) = map ?h (bt_to g es)" for es :: "(u32, u32 range \<times> 's Ioapic) btree"
    by (simp add: bt_to_def filter_map o_def if_distrib [of fst] cong: if_cong)
  then have "last_of (bt_to g (rm_inner (put_chip r chip m))) = map_option ?h (last_of (bt_to g (rm_inner m)))"
    by (simp add: put_chip_def last_of_map)
  then have *: "get_contained g (put_chip r chip m)
      = filter_opt (\<lambda>(r, _). g < snd r) (map_option (\<lambda>e. snd (?h e)) (last_of (bt_to g (rm_inner m))))"
    by (simp add: get_contained_def option.map_comp o_def)
  show ?thesis
  proof (cases "last_of (bt_to g (rm_inner m))")
    case None
    then show ?thesis using * by (simp add: get_contained_def)
  next
    case (Some e)
    obtain k r' c where e: "e = (k, (r', c))" by (metis surj_pair)
    have "k = fst r'"
      using Some last_of_greatest(1) [OF _ Some] rm_invD(1,2) [OF assms] e by (fastforce simp: bt_to_def)
    then show ?thesis using * Some e by (simp add: get_contained_def filter_opt_def)
  qed
qed

lemma spaced_map_values:
  "spaced lo es hi \<Longrightarrow> spaced lo (map (\<lambda>e. if P e then (fst e, (fst (snd e), f e)) else e) es) hi"
  by (induction lo es hi rule: spaced.induct) auto

lemma chips_ok_put: "chips_ok m \<Longrightarrow> chips_ok (put_chip r chip m)"
  using spaced_map_values [of "fst (rm_range m)" "rm_inner m" "snd (rm_range m)" "\<lambda>e. fst e = fst r" "\<lambda>_. chip"]
  by (fastforce simp: chips_ok_def rm_inv_def put_chip_def)

text \<open>Distinct GSIs of a chip have distinct pins.\<close>

lemma pins_distinct:
  assumes "chips_ok m" and "get_contained g m = Some (r, chip)" and "get_contained g' m = Some (r', chip')" and "fst r = fst r'"
  shows "r = r' \<and> chip = chip' \<and> ((ucast (g - fst r) :: u8) = ucast (g' - fst r) \<longrightarrow> g = g')"
proof -
  have inv: "rm_inv m" using assms(1) by (simp add: chips_ok_def)
  have mem: "(fst r, (r, chip)) \<in> set (rm_inner m)" "(fst r', (r', chip')) \<in> set (rm_inner m)"
    and g: "fst r \<le> g" "g < snd r" and g': "fst r' \<le> g'" "g' < snd r'"
    using assms(2,3) get_contained_iff [OF inv] by auto
  then have same: "r = r' \<and> chip = chip'"
    using bt_wf_unique [OF rm_invD(1) [OF inv]] assms(4) by (metis prod.inject)
  have "unat (snd r) - unat (fst r) \<le> 256" using assms(1) mem(1) by (auto simp: chips_ok_def)
  then have "unat (g - fst r) < 256" "unat (g' - fst r) < 256"
    using g g' same by (auto simp: unat_sub word_le_nat_alt word_less_nat_alt)
  then have "(ucast (g - fst r) :: u8) = ucast (g' - fst r) \<longrightarrow> g - fst r = g' - fst r"
    by (simp add: word_unat_eq_iff [where ?'a = 8] word_unat_eq_iff [where ?'a = 32] unsigned_ucast_eq take_bit_nat_eq_self)
  then show ?thesis using same by auto
qed

context ioapic_hw
begin

lemma read_ioredtbl_entry:
  "fst (read_ioredtbl hw pin chip) = red_entry reg (io_dev chip) pin"
  "reg (io_dev (snd (read_ioredtbl hw pin chip))) = reg (io_dev chip)"
  "io_version (snd (read_ioredtbl hw pin chip)) = io_version chip"
  by (simp_all add: read_ioredtbl_def read_reg_def Let_def dev_win dev_regsel red_entry_def)

lemma write_ioredtbl_same: "same_route (red_entry reg (io_dev (write_ioredtbl hw pin e chip)) pin) e"
proof -
  have "bit (red_entry reg (io_dev (write_ioredtbl hw pin e chip)) pin) i = bit e i" if "i < 64" "route_bit i" for i
  proof (cases "i < 32")
    case True
    then show ?thesis
      using that redir_index [of pin] redir_next [of pin pin]
      by (simp add: bit_red_entry write_ioredtbl_def low_half write_reg_def Let_def dev_set_win kept_bit_def bit_simps del: reg_index.simps)
  next
    case False
    then have "i - 32 < 32" using that by arith
    then show ?thesis
      using False that redir_index [of pin] redir_next [of pin pin]
      by (simp add: bit_red_entry write_ioredtbl_def write_reg_def Let_def dev_set_win kept_bit_def bit_simps del: reg_index.simps)
  qed
  then show ?thesis by (simp add: same_route_def)
qed

lemma write_ioredtbl_other:
  assumes "pin' \<noteq> pin"
  shows "same_route (red_entry reg (io_dev (write_ioredtbl hw pin e chip)) pin') (red_entry reg (io_dev chip) pin')"
proof -
  have "bit (red_entry reg (io_dev (write_ioredtbl hw pin e chip)) pin') i = bit (red_entry reg (io_dev chip) pin') i" if "i < 64" "route_bit i" for i
    using that redir_index [of pin'] redir_index(5) [OF assms] redir_next [of pin pin'] redir_next [of pin' pin]
    by (cases "i < 32")
       (simp_all add: bit_red_entry write_ioredtbl_def write_reg_def Let_def dev_set_win kept_bit_def del: reg_index.simps)
  then show ?thesis by (simp add: same_route_def)
qed


lemma bf_get_set:
  assumes "bf_set hw n w v x = Inr y" and "unat v < 2 ^ w" and "n + w \<le> 64" and "n' + w' \<le> 64"
  shows "n + w \<le> n' \<or> n' + w' \<le> n \<Longrightarrow> bf_get hw n' w' y = bf_get hw n' w' x"
    and "n' = n \<Longrightarrow> w' = w \<Longrightarrow> bf_get hw n' w' y = v"
proof -
  have y: "bit y i = (if n \<le> i \<and> i < n + w then bit v (i - n) else bit x i)" if "i < 64" for i
    using bf_set [OF assms(3,2), of x] assms(1) that by auto
  show "bf_get hw n' w' y = bf_get hw n' w' x" if "n + w \<le> n' \<or> n' + w' \<le> n"
    using that assms(4) y by (intro bit_word_eqI) (auto simp: bf_get)
  have "bit (bf_get hw n w y) i = bit v i" for i
    using assms(3) y [of "n + i"] bit_below [OF assms(2), of i] by (cases "i < w") (auto simp: bf_get)
  then show "bf_get hw n' w' y = v" if "n' = n" "w' = w"
    using that by (intro bit_word_eqI) simp
qed

lemma same_route_field:
  assumes "same_route e e'" and "n + w \<le> 64" and "\<And>i. i < w \<Longrightarrow> route_bit (n + i)"
  shows "bf_get hw n w e = bf_get hw n w e'"
  using assms by (intro bit_word_eqI) (auto simp: bf_get same_route_def)

lemma same_route_fields: "same_route e e' \<Longrightarrow> entry_fields hw e = entry_fields hw e'"
  using same_route_field [of e e' 0 8] same_route_field [of e e' 8 3] same_route_field [of e e' 13 1]
    same_route_field [of e e' 15 1] same_route_field [of e e' 16 1] same_route_field [of e e' 56 8]
  by (simp add: entry_fields_def ie_vec_def ie_trigger_mode_def ie_polarity_def ie_mask_def ie_dest_def route_bit_def)

lemma set_field_ok:
  assumes "unat v < 2 ^ w" and "n + w \<le> 64"
    and "\<And>y. bf_get hw n w y = v \<Longrightarrow> (\<And>n' w'. n' + w' \<le> 64 \<Longrightarrow> n + w \<le> n' \<or> n' + w' \<le> n \<Longrightarrow> bf_get hw n' w' y = bf_get hw n' w' e)
      \<Longrightarrow> entry_fields hw y = f"
  shows "\<exists>y. bf_set hw n w v e = Inr y \<and> entry_fields hw y = f"
proof -
  obtain y where y: "bf_set hw n w v e = Inr y" using bf_set [OF assms(2,1), of e] by blast
  have "entry_fields hw y = f"
    by (rule assms(3)) (use bf_get_set(1) [OF y assms(1,2)] bf_get_set(2) [OF y assms(1,2,2)] in blast)+
  with y show ?thesis by blast
qed

lemmas fields_simps = entry_fields_def ie_vec_def ie_trigger_mode_def ie_polarity_def ie_mask_def ie_dest_def

lemma set_vec_ok: "\<exists>y. set_vec hw v e = Inr y \<and> entry_fields hw y = (entry_fields hw e)\<lparr>f_vec := v\<rparr>"
  unfolding set_vec_def by (rule set_field_ok) (use unat_u8 [of v] in \<open>simp_all add: fields_simps\<close>)

lemma set_deliv_mode_ok:
  "\<exists>y. set_deliv_mode hw d e = Inr y \<and> entry_fields hw y = (entry_fields hw e)\<lparr>f_deliv := deliv_mode_bits d\<rparr>"
  unfolding set_deliv_mode_def by (rule set_field_ok) (cases d, simp_all add: fields_simps)

lemma set_trigger_mode_ok:
  "\<exists>y. set_trigger_mode hw t e = Inr y \<and> entry_fields hw y = (entry_fields hw e)\<lparr>f_trigger := t\<rparr>"
  unfolding set_trigger_mode_def by (rule set_field_ok) (cases t; simp add: fields_simps)+

lemma set_polarity_ok:
  "\<exists>y. set_polarity hw q e = Inr y \<and> entry_fields hw y = (entry_fields hw e)\<lparr>f_polarity := q\<rparr>"
  unfolding set_polarity_def by (rule set_field_ok) (cases q; simp add: fields_simps)+

lemma set_mask_ok: "\<exists>y. set_mask hw b e = Inr y \<and> entry_fields hw y = (entry_fields hw e)\<lparr>f_mask := b\<rparr>"
  unfolding set_mask_def by (rule set_field_ok) (cases b; simp add: fields_simps)+

lemma set_dest_ok: "\<exists>y. set_dest hw v e = Inr y \<and> entry_fields hw y = (entry_fields hw e)\<lparr>f_dest := v\<rparr>"
  unfolding set_dest_def by (rule set_field_ok) (use unat_u8 [of v] in \<open>simp_all add: fields_simps\<close>)

lemma set_dest_hi_ok:
  "unat v < 128 \<Longrightarrow> \<exists>y. set_dest_hi hw v e = Inr y \<and> entry_fields hw y = entry_fields hw e"
  unfolding set_dest_hi_def
  by (rule set_field_ok) (simp_all add: fields_simps unsigned_ucast_eq take_bit_nat_eq_self)

text \<open>Replacing a chip by one that differs in one pin changes the route of one GSI.\<close>

lemma routed_put:
  assumes "routed hw reg rt m" and cp: "chip_mut_pin m g = Some (r, chip, pin)"
    and new: "\<And>p. same_route (red_entry reg (io_dev chip') p) (if p = pin then e else red_entry reg (io_dev chip) p)"
  shows "routed hw reg (rt(g \<mapsto> entry_fields hw e)) (put_chip r chip' m)"
proof -
  have ok: "chips_ok m" and inv: "rm_inv m" using assms(1) by (simp_all add: routed_def chips_ok_def)
  from cp have g: "get_contained g m = Some (r, chip)" and pin: "pin = ucast (g - fst r)"
    by (auto simp: chip_mut_pin_def)
  let ?m = "put_chip r chip' m"
  have "map_option (entry_fields hw) (route reg ?m h) = (rt(g \<mapsto> entry_fields hw e)) h" for h
  proof -
    have old: "rt h = map_option (entry_fields hw) (route reg m h)" using assms(1) by (simp add: routed_def)
    show ?thesis
    proof (cases "get_contained h m")
      case None
      then show ?thesis
        using g old by (auto simp: route_def chip_mut_pin_def get_contained_put [OF inv])
    next
      case (Some rc)
      obtain r' c where rc: "rc = (r', c)" by fastforce
      with Some have gh: "get_contained h m = Some (r', c)" by simp
      show ?thesis
      proof (cases "fst r' = fst r")
        case False
        then show ?thesis
          using g gh old by (auto simp: route_def chip_mut_pin_def get_contained_put [OF inv])
      next
        case True
        from pins_distinct [OF ok g gh True [symmetric]]
        have same: "r = r'" "chip = c" and inj: "(ucast (g - fst r) :: u8) = ucast (h - fst r) \<longrightarrow> g = h"
          by simp_all
        have "entry_fields hw (red_entry reg (io_dev chip') (ucast (h - fst r)))
            = entry_fields hw (if h = g then e else red_entry reg (io_dev chip) (ucast (h - fst r)))"
          using same_route_fields [OF new] inj pin by (cases "h = g") auto
        then show ?thesis
          using gh old same by (simp add: route_def chip_mut_pin_def get_contained_put [OF inv])
      qed
    qed
  qed
  then show ?thesis using chips_ok_put [OF ok] by (simp add: routed_def)
qed

lemma routed_write:
  assumes "routed hw reg rt m" and "chip_mut_pin m g = Some (r, chip, pin)" and dev: "reg (io_dev chip') = reg (io_dev chip)"
  shows "routed hw reg (rt(g \<mapsto> entry_fields hw e)) (put_chip r (write_ioredtbl hw pin e chip') m)"
proof (rule routed_put [OF assms(1,2)])
  have "red_entry reg (io_dev chip') p = red_entry reg (io_dev chip) p" for p
    by (simp add: red_entry_def dev)
  then show "same_route (red_entry reg (io_dev (write_ioredtbl hw pin e chip')) p) (if p = pin then e else red_entry reg (io_dev chip) p)" for p
    using write_ioredtbl_same [of pin e chip'] write_ioredtbl_other [of p pin e chip'] by simp
qed

lemma routed_chip:
  assumes "routed hw reg rt m"
  shows "rt g = None \<longleftrightarrow> chip_mut_pin m g = None"
    and "chip_mut_pin m g = Some (r, chip, pin) \<Longrightarrow> rt g = Some (entry_fields hw (red_entry reg (io_dev chip) pin))"
proof -
  have "rt g = map_option (entry_fields hw) (route reg m g)" using assms by (simp add: routed_def)
  then show "rt g = None \<longleftrightarrow> chip_mut_pin m g = None"
    and "chip_mut_pin m g = Some (r, chip, pin) \<Longrightarrow> rt g = Some (entry_fields hw (red_entry reg (io_dev chip) pin))"
    by (simp_all add: route_def)
qed

lemma update_entry_ok:
  assumes rt: "routed hw reg rt m" and cp: "chip_mut_pin m g = Some cp" and f: "rt g = Some f"
    and F: "\<And>e. entry_fields hw e = f \<Longrightarrow> \<exists>e'. F e = Inr e' \<and> entry_fields hw e' = f'"
  shows "\<exists>m'. update_entry hw F cp m = Inr (Inr (), m') \<and> routed hw reg (rt(g \<mapsto> f')) m'"
proof -
  obtain r chip pin where cp': "cp = (r, chip, pin)" by (metis surj_pair)
  have e: "entry_fields hw (red_entry reg (io_dev chip) pin) = f"
    using routed_chip(2) [OF rt, of g r chip pin] cp cp' f by simp
  obtain e' where "F (red_entry reg (io_dev chip) pin) = Inr e'" "entry_fields hw e' = f'" using F [OF e] by blast
  then show ?thesis
    using routed_write [OF rt cp [unfolded cp'] read_ioredtbl_entry(2) [of pin chip], of e'] read_ioredtbl_entry(1) [of pin chip]
    by (simp add: update_entry_def cp' case_prod_beta Let_def)
qed

lemma entry_absent:
  assumes "routed hw reg rt m" and "rt g = None"
  shows "chip_mut_pin m g = None"
  using routed_chip(1) [OF assms(1)] assms(2) by simp

lemma get_entry_ok:
  assumes rt: "routed hw reg rt m" and f: "rt g = Some f"
  shows "\<exists>e m'. get_entry hw g m = Inr (Inr e, m') \<and> entry_fields hw e = f \<and> routed hw reg rt m'"
proof -
  obtain r chip pin where cp: "chip_mut_pin m g = Some (r, chip, pin)"
    using routed_chip(1) [OF rt, of g] f by (cases "chip_mut_pin m g") auto
  let ?e = "red_entry reg (io_dev chip) pin" and ?chip = "snd (read_ioredtbl hw pin chip)"
  have e: "entry_fields hw ?e = f" using routed_chip(2) [OF rt cp] f by simp
  have "same_route (red_entry reg (io_dev ?chip) p) (if p = pin then ?e else red_entry reg (io_dev chip) p)" for p
    by (simp add: red_entry_def read_ioredtbl_entry)
  from routed_put [OF rt cp this] have "routed hw reg rt (put_chip r ?chip m)"
    using e f by (simp add: fun_upd_idem)
  then show ?thesis
    using e read_ioredtbl_entry(1) [of pin chip] by (simp add: get_entry_def try_bind_def ok_or_def cp case_prod_beta Let_def)
qed

lemma ioapic_mask_ok:
  assumes rt: "routed hw reg rt m" and f: "rt g = Some f"
  shows "\<exists>m'. ioapic_mask hw g b m = Inr (Inr (), m') \<and> routed hw reg (rt(g \<mapsto> f\<lparr>f_mask := b\<rparr>)) m'"
proof -
  obtain cp where cp: "chip_mut_pin m g = Some cp"
    using routed_chip(1) [OF rt, of g] f by (cases "chip_mut_pin m g") auto
  have "\<exists>e'. set_mask hw b e = Inr e' \<and> entry_fields hw e' = f\<lparr>f_mask := b\<rparr>" if "entry_fields hw e = f" for e
    using set_mask_ok [of b e] that by simp
  from update_entry_ok [OF rt cp f this] show ?thesis
    by (simp add: ioapic_mask_def try_bind_def ok_or_def cp)
qed

lemma config_dest_ok:
  assumes rt: "routed hw reg rt m" and f: "rt g = Some f" and small: "unat apic_id < 0x8000"
  shows "\<exists>m'. config_dest hw g vec apic_id m = Inr (Inr (), m')
    \<and> routed hw reg (rt(g \<mapsto> f\<lparr>f_vec := vec, f_deliv := 0, f_mask := True, f_dest := ucast apic_id\<rparr>)) m'"
proof -
  obtain cp where cp: "chip_mut_pin m g = Some cp"
    using routed_chip(1) [OF rt, of g] f by (cases "chip_mut_pin m g") auto
  let ?lo = "ucast (apic_id AND 0xFF) :: u8" and ?hi = "ucast (drop_bit 8 apic_id AND 0xFF) :: u8"
  have m: "(0xFF :: u32) = mask 8" by (simp add: mask_eq_exp_minus_1)
  have lo: "?lo = ucast apic_id" unfolding m by (rule bit_word_eqI) (auto simp: bit_simps)
  have "unat (drop_bit 8 apic_id) = unat apic_id div 256" by (simp add: drop_bit_eq_div unat_div_distrib)
  then have "unat (drop_bit 8 apic_id) < 128" using small by simp
  moreover have "unat (drop_bit 8 apic_id AND mask 8) \<le> unat (drop_bit 8 apic_id)"
    by (simp add: take_bit_eq_mask [symmetric] unsigned_take_bit_eq)
  ultimately have hi: "unat ?hi < 128"
    unfolding m by (simp add: unsigned_ucast_eq) (metis le_less_trans take_bit_nat_less_eq_self)
  have step: "\<exists>e'. rbind (set_vec hw vec e) (\<lambda>entry. rbind (set_deliv_mode hw Fixed entry) (\<lambda>entry.
       rbind (set_mask hw True entry) (\<lambda>entry. rbind (set_dest hw ?lo entry) (\<lambda>entry. set_dest_hi hw ?hi entry)))) = Inr e'
     \<and> entry_fields hw e' = f\<lparr>f_vec := vec, f_deliv := 0, f_mask := True, f_dest := ucast apic_id\<rparr>" if e: "entry_fields hw e = f" for e
  proof -
    obtain e1 where "set_vec hw vec e = Inr e1" "entry_fields hw e1 = f\<lparr>f_vec := vec\<rparr>" using set_vec_ok [of vec e] e by auto
    moreover obtain e2 where "set_deliv_mode hw Fixed e1 = Inr e2" "entry_fields hw e2 = (entry_fields hw e1)\<lparr>f_deliv := 0\<rparr>"
      using set_deliv_mode_ok [of Fixed e1] by auto
    moreover obtain e3 where "set_mask hw True e2 = Inr e3" "entry_fields hw e3 = (entry_fields hw e2)\<lparr>f_mask := True\<rparr>"
      using set_mask_ok [of True e2] by auto
    moreover obtain e4 where "set_dest hw ?lo e3 = Inr e4" "entry_fields hw e4 = (entry_fields hw e3)\<lparr>f_dest := ?lo\<rparr>"
      using set_dest_ok [of ?lo e3] by blast
    moreover obtain e5 where "set_dest_hi hw ?hi e4 = Inr e5" "entry_fields hw e5 = entry_fields hw e4"
      using set_dest_hi_ok [OF hi, of e4] by blast
    ultimately show ?thesis by (simp only: rbind_simps lo) simp
  qed
  show ?thesis
    using update_entry_ok [OF rt cp f step] unfolding config_dest_def try_bind_def ok_or_def cp by simp
qed


lemma ioapic_deconfig_ok:
  assumes rt: "routed hw reg rt m" and f: "rt g = Some f"
  shows "\<exists>m'. ioapic_deconfig hw g m = Inr (Inr (), m') \<and> routed hw reg (rt(g \<mapsto> no_route)) m'"
proof -
  obtain r chip pin where cp: "chip_mut_pin m g = Some (r, chip, pin)"
    using routed_chip(1) [OF rt, of g] f by (cases "chip_mut_pin m g") auto
  have "bf_get hw n w 0 = 0" if "n + w \<le> 64" for n w
    using that by (intro bit_word_eqI) (simp add: bf_get)
  then have "entry_fields hw 0 = no_route\<lparr>f_mask := False\<rparr>"
    by (simp add: fields_simps no_route_def)
  then obtain e where "set_mask hw True 0 = Inr e" "entry_fields hw e = no_route"
    using set_mask_ok [of True 0] by (auto simp: no_route_def)
  then show ?thesis
    using routed_write [OF rt cp refl, of e] by (simp add: ioapic_deconfig_def try_bind_def ok_or_def cp)
qed

lemma ioapic_config_ok:
  assumes rt: "routed hw reg rt m" and f: "rt g = Some f"
    and "mode_allowed ovr g t q"
  shows "\<exists>m'. ioapic_config hw ovr g t q m = Inr (Inr (), m')
    \<and> routed hw reg (rt(g \<mapsto> f\<lparr>f_trigger := t, f_polarity := q, f_mask := True\<rparr>)) m'"
proof -
  obtain cp where cp: "chip_mut_pin m g = Some cp"
    using routed_chip(1) [OF rt, of g] f by (cases "chip_mut_pin m g") auto
  have step: "\<exists>e'. rbind (set_trigger_mode hw t e) (\<lambda>entry. rbind (set_polarity hw q entry) (\<lambda>entry. set_mask hw True entry)) = Inr e'
     \<and> entry_fields hw e' = f\<lparr>f_trigger := t, f_polarity := q, f_mask := True\<rparr>" if e: "entry_fields hw e = f" for e
  proof -
    obtain e1 where "set_trigger_mode hw t e = Inr e1" "entry_fields hw e1 = f\<lparr>f_trigger := t\<rparr>"
      using set_trigger_mode_ok [of t e] e by auto
    moreover obtain e2 where "set_polarity hw q e1 = Inr e2" "entry_fields hw e2 = (entry_fields hw e1)\<lparr>f_polarity := q\<rparr>"
      using set_polarity_ok [of q e1] by auto
    moreover obtain e3 where "set_mask hw True e2 = Inr e3" "entry_fields hw e3 = (entry_fields hw e2)\<lparr>f_mask := True\<rparr>"
      using set_mask_ok [of True e2] by auto
    ultimately show ?thesis by (simp only: rbind_simps) simp
  qed
  show ?thesis
    using update_entry_ok [OF rt cp f step] unfolding ioapic_config_def try_bind_def ok_or_def cp assms(3) [unfolded mode_allowed_def, symmetric] by simp
qed

lemma ioapic_eoi_ok:
  assumes rt: "routed hw reg rt m" and f: "rt g = Some f"
  shows "\<exists>m'. ioapic_eoi hw le g (l, m) = Inr (Inr (), (le l, m')) \<and> routed hw reg rt m'"
proof -
  obtain r chip pin where cp: "chip_mut_pin m g = Some (r, chip, pin)"
    using routed_chip(1) [OF rt, of g] f by (cases "chip_mut_pin m g") auto
  let ?e = "red_entry reg (io_dev chip) pin" and ?chip = "snd (read_ioredtbl hw pin chip)"
  have e: "entry_fields hw ?e = f" using routed_chip(2) [OF rt cp] f by simp
  have "same_route (red_entry reg (dev_set_eoi hw v (io_dev ?chip)) p) (red_entry reg (io_dev chip) p)" for v p
    using redir_index [of p]
    by (auto simp: same_route_def bit_red_entry dev_set_eoi kept_bit_def read_ioredtbl_entry simp del: reg_index.simps)
  then have "same_route (red_entry reg (io_dev (?chip\<lparr>io_dev := dev_set_eoi hw v (io_dev ?chip)\<rparr>)) p)
      (if p = pin then ?e else red_entry reg (io_dev chip) p)" for v p by simp
  from routed_put [OF rt cp this] have eoi: "routed hw reg rt (put_chip r (?chip\<lparr>io_dev := dev_set_eoi hw v (io_dev ?chip)\<rparr>) m)" for v
    using e f by (simp add: fun_upd_idem)
  obtain e' where e': "set_mask hw True ?e = Inr e'" using set_mask_ok [of True ?e] by blast
  let ?chip' = "write_ioredtbl hw pin ?e (write_ioredtbl hw pin e' ?chip)"
  have "same_route (red_entry reg (io_dev ?chip') p) (if p = pin then ?e else red_entry reg (io_dev chip) p)" for p
  proof (cases "p = pin")
    case True
    then show ?thesis by (simp add: write_ioredtbl_same)
  next
    case False
    have "same_route (red_entry reg (io_dev ?chip') p) (red_entry reg (io_dev (write_ioredtbl hw pin e' ?chip)) p)"
      by (rule write_ioredtbl_other [OF False])
    also have "same_route \<dots> (red_entry reg (io_dev ?chip) p)" by (rule write_ioredtbl_other [OF False])
    finally show ?thesis using False by (simp add: red_entry_def read_ioredtbl_entry)
  qed
  from routed_put [OF rt cp this] have "routed hw reg rt (put_chip r ?chip' m)"
    using e f by (simp add: fun_upd_idem)
  then show ?thesis
    using eoi e' read_ioredtbl_entry [of pin chip] by (simp add: ioapic_eoi_def cp case_prod_beta Let_def)
qed


lemma ioapic_config_refused:
  assumes rt: "routed hw reg rt m" and f: "rt g = Some f" and "\<not> mode_allowed ovr g t q"
  shows "ioapic_config hw ovr g t q m = Inr (Inl EPERM, m)"
proof -
  obtain cp where cp: "chip_mut_pin m g = Some cp"
    using routed_chip(1) [OF rt, of g] f by (cases "chip_mut_pin m g") auto
  then show ?thesis
    using assms(3) by (auto simp: ioapic_config_def try_bind_def ok_or_def mode_allowed_def split: option.splits if_splits)
qed

lemma config_dest_panics:
  assumes rt: "routed hw reg rt m" and f: "rt g = Some f" and "bit apic_id 15"
  shows "config_dest hw g vec apic_id m = Inl AssertFailed"
proof -
  obtain r chip pin where cp: "chip_mut_pin m g = Some (r, chip, pin)"
    using routed_chip(1) [OF rt, of g] f by (cases "chip_mut_pin m g") auto
  have m: "(0xFF :: u32) = mask 8" by (simp add: mask_eq_exp_minus_1)
  let ?hi = "ucast (ucast (drop_bit 8 apic_id AND 0xFF) :: u8) :: u64"
  have "bit ?hi 7" unfolding m using assms(3) by (simp add: bit_simps)
  then have "2 ^ 7 \<le> unat ?hi" using bit_below [of ?hi 7 7] by (meson less_irrefl not_le)
  then have hi: "set_dest_hi hw (ucast (drop_bit 8 apic_id AND 0xFF)) e = Inl AssertFailed" for e
    by (simp add: set_dest_hi_def bf_set_panic)
  obtain e1 where e1: "set_vec hw vec (red_entry reg (io_dev chip) pin) = Inr e1" using set_vec_ok by blast
  obtain e2 where e2: "set_deliv_mode hw Fixed e1 = Inr e2" using set_deliv_mode_ok by blast
  obtain e3 where e3: "set_mask hw True e2 = Inr e3" using set_mask_ok by blast
  obtain e4 where e4: "set_dest hw (ucast (apic_id AND 0xFF)) e3 = Inr e4" using set_dest_ok by blast
  show ?thesis
    unfolding config_dest_def try_bind_def ok_or_def cp update_entry_def
    using e1 e2 e3 e4 hi read_ioredtbl_entry(1) [of pin chip] by (simp only: rbind_simps Let_def case_prod_beta option.case sum.case fst_conv snd_conv)
qed

end

section \<open>A register file\<close>

text \<open>
  A device with the registers of the 82093AA: the selector and the contents of the
  registers, where the delivery status and the remote IRR cannot be written, and a
  write to the EOI register clears the remote IRR of the entries with the vector.
\<close>

definition regs_hw :: "(u32 \<times> (u32 \<Rightarrow> u32)) hw" where
  "regs_hw = \<lparr>
     bf_get = (\<lambda>n w x. take_bit w (drop_bit n x)),
     bf_set = (\<lambda>n w v x. if unat v < 2 ^ w then Inr ((x AND NOT (push_bit n (mask w))) OR push_bit n v) else Inl AssertFailed),
     dev_regsel = (\<lambda>r s. (r, snd s)),
     dev_win = (\<lambda>s. snd s (fst s)),
     dev_set_win = (\<lambda>v s. (fst s, (snd s)(fst s :=
       if 0x10 \<le> fst s \<and> \<not> bit (fst s) 0 then (v AND NOT 0x5000) OR (snd s (fst s) AND 0x5000) else v))),
     dev_set_eoi = (\<lambda>v s. (fst s, \<lambda>r.
       if 0x10 \<le> r \<and> \<not> bit r 0 \<and> snd s r AND 0xFF = v then snd s r AND NOT 0x4000 else snd s r))\<rparr>"

lemma bits_5000: "bit (0x5000 :: u32) i \<longleftrightarrow> i = 12 \<or> i = 14"
proof -
  have "(0x5000 :: u32) = push_bit 12 1 OR push_bit 14 1" by (simp add: push_bit_eq_mult)
  then show ?thesis by (simp only: bit_or_iff bit_push_bit_iff bit_1_iff possible_bit_word) auto
qed

lemma bits_4000: "bit (0x4000 :: u32) i \<longleftrightarrow> i = 14"
proof -
  have "(0x4000 :: u32) = push_bit 14 1" by (simp add: push_bit_eq_mult)
  then show ?thesis by (simp only: bit_or_iff bit_push_bit_iff bit_1_iff possible_bit_word) auto
qed

interpretation regs: ioapic_hw regs_hw "\<lambda>s. snd s"
proof
  fix n w :: nat and v x :: u64
  assume nw: "n + w \<le> 64" and v: "unat v < 2 ^ w"
  from bit_below [OF v] show "\<exists>y. bf_set regs_hw n w v x = Inr y \<and> (\<forall>i<64. bit y i = (if n \<le> i \<and> i < n + w then bit v (i - n) else bit x i))"
    using nw v by (fastforce simp: regs_hw_def bit_simps)
next
  fix i :: nat and r' u r :: u32 and s :: "u32 \<times> (u32 \<Rightarrow> u32)"
  assume "i < 32" "kept_bit r' i"
  then show "bit (snd (dev_set_win regs_hw u (dev_regsel regs_hw r s)) r') i = bit (if r' = r then u else snd s r') i"
    by (auto simp: regs_hw_def bit_simps bits_5000 kept_bit_def bit_0 route_bit_def simp del: bit_numeral_word_iff)
next
  fix i :: nat and u r :: u32 and s :: "u32 \<times> (u32 \<Rightarrow> u32)"
  assume "i < 32" "kept_bit r i"
  then show "bit (snd (dev_set_eoi regs_hw u s) r) i = bit (snd s r) i"
    by (auto simp: regs_hw_def bit_simps bits_4000 kept_bit_def bit_0 route_bit_def simp del: bit_numeral_word_iff)
qed (auto simp: regs_hw_def bit_simps add.commute dest: bit_imp_le_length)


section \<open>Properties\<close>

text \<open>
  C9. Every operation on the redirection entry of a GSI has the intended effect on the fields
  that software controls, and leaves all other GSIs alone: \<open>get_entry\<close> and \<open>eoi\<close> change
  nothing, \<open>mask\<close> sets the mask bit, \<open>deconfig\<close> clears the entry, \<open>config\<close> sets the mode
  (or refuses a mode that conflicts with a source override or a legacy IRQ) and
  masks, \<open>config_dest\<close> sets vector, delivery mode and destination and masks. A GSI of
  no chip is refused without effect. \<open>config_dest\<close> panics for an APIC identifier with
  bit 15 set.
\<close>

theorem ioapic_refines_routes:
  assumes "ioapic_hw hw reg" and "routed hw reg rt m"
  shows "(rt g = None \<longrightarrow> get_entry hw g m = Inr (Inl EINVAL, m) \<and> ioapic_mask hw g b m = Inr (Inl EINVAL, m)
      \<and> ioapic_deconfig hw g m = Inr (Inl EINVAL, m) \<and> ioapic_config hw ovr g t q m = Inr (Inl EINVAL, m)
      \<and> config_dest hw g v a m = Inr (Inl EINVAL, m))
    \<and> (\<forall>f. rt g = Some f \<longrightarrow>
        (\<exists>e m'. get_entry hw g m = Inr (Inr e, m') \<and> entry_fields hw e = f \<and> routed hw reg rt m')
      \<and> (\<exists>m'. ioapic_eoi hw le g (l, m) = Inr (Inr (), (le l, m')) \<and> routed hw reg rt m')
      \<and> (\<exists>m'. ioapic_mask hw g b m = Inr (Inr (), m') \<and> routed hw reg (rt(g \<mapsto> f\<lparr>f_mask := b\<rparr>)) m')
      \<and> (\<exists>m'. ioapic_deconfig hw g m = Inr (Inr (), m') \<and> routed hw reg (rt(g \<mapsto> no_route)) m')
      \<and> (mode_allowed ovr g t q \<longrightarrow> (\<exists>m'. ioapic_config hw ovr g t q m = Inr (Inr (), m')
          \<and> routed hw reg (rt(g \<mapsto> f\<lparr>f_trigger := t, f_polarity := q, f_mask := True\<rparr>)) m'))
      \<and> (\<not> mode_allowed ovr g t q \<longrightarrow> ioapic_config hw ovr g t q m = Inr (Inl EPERM, m))
      \<and> (unat a < 0x8000 \<longrightarrow> (\<exists>m'. config_dest hw g v a m = Inr (Inr (), m')
          \<and> routed hw reg (rt(g \<mapsto> f\<lparr>f_vec := v, f_deliv := 0, f_mask := True, f_dest := ucast a\<rparr>)) m'))
      \<and> (bit a 15 \<longrightarrow> config_dest hw g v a m = Inl AssertFailed))"
proof -
  note hw = assms(1) and rt = assms(2)
  have none: "chip_mut_pin m g = None" if "rt g = None" by (rule ioapic_hw.entry_absent [OF hw rt that])
  show ?thesis
  proof (intro conjI allI impI)
    fix f assume f: "rt g = Some f"
    note ok = hw rt f
    show "\<exists>e m'. get_entry hw g m = Inr (Inr e, m') \<and> entry_fields hw e = f \<and> routed hw reg rt m'"
      by (rule ioapic_hw.get_entry_ok [OF ok])
    show "\<exists>m'. ioapic_eoi hw le g (l, m) = Inr (Inr (), (le l, m')) \<and> routed hw reg rt m'"
      by (rule ioapic_hw.ioapic_eoi_ok [OF ok])
    show "\<exists>m'. ioapic_mask hw g b m = Inr (Inr (), m') \<and> routed hw reg (rt(g \<mapsto> f\<lparr>f_mask := b\<rparr>)) m'"
      by (rule ioapic_hw.ioapic_mask_ok [OF ok])
    show "\<exists>m'. ioapic_deconfig hw g m = Inr (Inr (), m') \<and> routed hw reg (rt(g \<mapsto> no_route)) m'"
      by (rule ioapic_hw.ioapic_deconfig_ok [OF ok])
    show "\<exists>m'. ioapic_config hw ovr g t q m = Inr (Inr (), m')
        \<and> routed hw reg (rt(g \<mapsto> f\<lparr>f_trigger := t, f_polarity := q, f_mask := True\<rparr>)) m'" if "mode_allowed ovr g t q"
      by (rule ioapic_hw.ioapic_config_ok [OF ok that])
    show "ioapic_config hw ovr g t q m = Inr (Inl EPERM, m)" if "\<not> mode_allowed ovr g t q"
      by (rule ioapic_hw.ioapic_config_refused [OF ok that])
    show "\<exists>m'. config_dest hw g v a m = Inr (Inr (), m')
        \<and> routed hw reg (rt(g \<mapsto> f\<lparr>f_vec := v, f_deliv := 0, f_mask := True, f_dest := ucast a\<rparr>)) m'" if "unat a < 0x8000"
      by (rule ioapic_hw.config_dest_ok [OF ok that])
    show "config_dest hw g v a m = Inl AssertFailed" if "bit a 15"
      by (rule ioapic_hw.config_dest_panics [OF ok that])
  qed (use none in \<open>simp_all add: get_entry_def ioapic_mask_def ioapic_deconfig_def ioapic_config_def config_dest_def try_bind_def ok_or_def\<close>)
qed

text \<open>One chip with eight pins from GSI 16.\<close>

definition sample_chip :: "(u32 \<times> (u32 \<Rightarrow> u32)) Ioapic" where
  "sample_chip = \<lparr>io_dev = (0, \<lambda>_. 0), io_id = 0, io_version = 0x11, io_gsi = (16, 24)\<rparr>"

definition sample_chips :: "(u32 \<times> (u32 \<Rightarrow> u32)) Ioapics" where
  "sample_chips = \<lparr>rm_inner = [(16, ((16, 24), sample_chip))], rm_range = (0, - 1)\<rparr>"

lemma sample_chips_routed:
  "routed regs_hw (\<lambda>s. snd s) (\<lambda>g. if 16 \<le> g \<and> g < 24 then Some (no_route\<lparr>f_mask := False\<rparr>) else None) sample_chips"
proof -
  have "chips_ok sample_chips" by (simp add: chips_ok_def rm_inv_def sample_chips_def)
  moreover have "red_entry (\<lambda>s. snd s) (io_dev sample_chip) p = 0" for p
    by (simp add: red_entry_def sample_chip_def)
  moreover have "entry_fields regs_hw 0 = no_route\<lparr>f_mask := False\<rparr>"
    by (simp add: entry_fields_def ie_vec_def ie_trigger_mode_def ie_polarity_def ie_mask_def ie_dest_def no_route_def regs_hw_def)
  moreover have "get_contained g sample_chips = (if 16 \<le> g \<and> g < 24 then Some ((16, 24), sample_chip) else None)" for g
    by (simp add: get_contained_def sample_chips_def bt_to_def filter_opt_def last_of_def)
  ultimately show ?thesis by (simp add: routed_def route_def chip_mut_pin_def)
qed

lemma ioapic_refines_routes_witness:
  "\<exists>m'. config_dest regs_hw 20 0x41 3 sample_chips = Inr (Inr (), m')
     \<and> routed regs_hw (\<lambda>s. snd s) ((\<lambda>g. if 16 \<le> g \<and> g < 24 then Some (no_route\<lparr>f_mask := False\<rparr>) else None)
         (20 \<mapsto> no_route\<lparr>f_vec := 0x41, f_mask := True, f_dest := 3\<rparr>)) m'"
proof -
  let ?rt = "\<lambda>g :: u32. if 16 \<le> g \<and> g < 24 then Some (no_route\<lparr>f_mask := False\<rparr>) else None"
  have rt: "?rt 20 = Some (no_route\<lparr>f_mask := False\<rparr>)" by simp
  from ioapic_refines_routes [OF regs.ioapic_hw_axioms sample_chips_routed, where g = 20 and v = "0x41" and a = 3
      and b = True and ovr = "[]" and t = Level and q = Low and le = "\<lambda>u. u" and l = "()",
      THEN conjunct2, THEN spec, THEN mp, OF rt]
  have A: "unat (3 :: u32) < 0x8000 \<longrightarrow> (\<exists>m'. config_dest regs_hw 20 0x41 3 sample_chips = Inr (Inr (), m')
     \<and> routed regs_hw (\<lambda>s. snd s) (?rt(20 \<mapsto> (no_route\<lparr>f_mask := False\<rparr>)\<lparr>f_vec := 0x41, f_deliv := 0, f_mask := True, f_dest := ucast (3 :: u32)\<rparr>)) m')"
    by (elim conjE)
  have B: "unat (3 :: u32) < 0x8000" by simp
  have C: "(no_route\<lparr>f_mask := False\<rparr>)\<lparr>f_vec := 0x41, f_deliv := 0, f_mask := True, f_dest := ucast (3 :: u32)\<rparr>
      = no_route\<lparr>f_vec := 0x41, f_mask := True, f_dest := 3\<rparr>" by (simp add: no_route_def)
  show ?thesis using mp [OF A B] unfolding C .
qed

end
