(* ===== verification/Interrupt.thy ===== *)
theory Interrupt
  imports Ioapic Resource
begin

text \<open>
  Interrupt vectors and interrupt objects: the per-CPU managers of
  \<open>h2o/kernel/src/cpu/x86_64/intr.rs\<close>, and the objects and the system call \<open>intr_new\<close> of
  \<open>h2o/kernel/src/cpu/intr.rs\<close> and \<open>intr/imp.rs\<close>.

  The state is that of the static variables: the managers of all CPUs, the I/O APICs with
  the source overrides, the APIC identifiers of the CPUs, and the local APIC of the
  running CPU. Each operation runs under the lock of the I/O APICs and with
  preemption disabled. The handler that is registered is always \<open>handler\<close> with a
  pointer to the interrupt object, which is represented by the object itself. The
  events that wait for an object and the queue of time stamps are left out.
\<close>

section \<open>State\<close>

record Interrupt =
  i_gsi :: u32
  i_cpu :: nat
  i_level_triggered :: bool

record Manager =
  mg_map :: "(u8, unit) RangeMap"
  mg_slots :: "Interrupt option list"
  mg_count :: usize

record Msi =
  target_address :: u32
  target_data :: u32
  msi_vecs :: "u8 range"
  msi_cpu :: nat

record ('s, 'l) intr_sys =
  is_managers :: "Manager list"
  is_ioapics :: "'s Ioapics"
  is_ovr :: "IntrOvr list"
  is_lapic_id :: "nat \<Rightarrow> u32 option"
  is_lapic :: 'l

definition ALLOC_VEC :: "u8 range" where "ALLOC_VEC = (0x40, 0xFF)"

definition alloc_vec :: "u8 \<Rightarrow> bool" where
  "alloc_vec v \<longleftrightarrow> fst ALLOC_VEC \<le> v \<and> v < snd ALLOC_VEC"

definition manager_new :: Manager where
  "manager_new = \<lparr>mg_map = rm_new ALLOC_VEC, mg_slots = replicate 256 None, mg_count = 0\<rparr>"

definition manager_get :: "('s, 'l) intr_sys \<Rightarrow> nat \<Rightarrow> Manager option" where
  "manager_get st cpu = (if cpu < length (is_managers st) then Some (is_managers st ! cpu) else None)"

definition manager_set :: "nat \<Rightarrow> Manager \<Rightarrow> ('s, 'l) intr_sys \<Rightarrow> ('s, 'l) intr_sys" where
  "manager_set cpu mg st = st\<lparr>is_managers := (is_managers st)[cpu := mg]\<rparr>"

definition fail :: "Error \<Rightarrow> ('st, 'a) op" where
  "fail e st = Inr (Inl e, st)"

section \<open>Managers\<close>

text \<open>The handler that \<open>Manager::invoke\<close> runs.\<close>

definition invoke :: "nat \<Rightarrow> u8 \<Rightarrow> ('s, 'l) intr_sys \<Rightarrow> Interrupt option run" where
  "invoke cpu vec st = (case manager_get st cpu of None \<Rightarrow> Inl OutOfBounds | Some mg \<Rightarrow> Inr (mg_slots mg ! unat vec))"

definition on_ioapics :: "('s Ioapics, 'a) op \<Rightarrow> (('s, 'l) intr_sys, 'a) op" where
  "on_ioapics f st = rbind (f (is_ioapics st)) (\<lambda>(r, m). Inr (r, st\<lparr>is_ioapics := m\<rparr>))"

definition manager_config :: "'s hw \<Rightarrow> u32 \<Rightarrow> TriggerMode \<Rightarrow> Polarity \<Rightarrow> (('s, 'l) intr_sys, unit) op" where
  "manager_config hw gsi trig_mode polarity st = on_ioapics (ioapic_config hw (is_ovr st) gsi trig_mode polarity) st"

definition manager_mask :: "'s hw \<Rightarrow> u32 \<Rightarrow> bool \<Rightarrow> (('s, 'l) intr_sys, unit) op" where
  "manager_mask hw gsi masked = on_ioapics (ioapic_mask hw gsi masked)"

definition manager_eoi :: "'s hw \<Rightarrow> ('l \<Rightarrow> 'l) \<Rightarrow> u32 \<Rightarrow> (('s, 'l) intr_sys, unit) op" where
  "manager_eoi hw lapic_eoi gsi st =
     rbind (ioapic_eoi hw lapic_eoi gsi (is_lapic st, is_ioapics st)) (\<lambda>(r, (l, m)). Inr (r, st\<lparr>is_lapic := l, is_ioapics := m\<rparr>))"

definition select_cpu :: "('s, 'l) intr_sys \<Rightarrow> nat" where
  "select_cpu st = snd (foldl (\<lambda>(acc, iacc) (index, mg). if mg_count mg < acc then (mg_count mg, index) else (acc, iacc))
     (- 1, 2 ^ 64 - 1) (enumerate 0 (is_managers st)))"

text \<open>Allocation of vectors from the map of a manager, counted as they are allocated.\<close>

definition allocate_vecs :: "nat \<Rightarrow> Manager \<Rightarrow> u8 \<Rightarrow> (('s, 'l) intr_sys, u8) op" where
  "allocate_vecs cpu mg num st =
     rbind (allocate_with num (\<lambda>_. Inr ()) ENOMEM (mg_map mg)) (\<lambda>(r, map').
       case r of Inl e \<Rightarrow> Inr (Inl e, manager_set cpu (mg\<lparr>mg_map := map'\<rparr>) st)
       | Inr v \<Rightarrow> Inr (Inr v, manager_set cpu (mg\<lparr>mg_map := map', mg_count := mg_count mg + ucast num\<rparr>) st))"

definition set_slot :: "nat \<Rightarrow> u8 \<Rightarrow> Interrupt option \<Rightarrow> ('s, 'l) intr_sys \<Rightarrow> ('s, 'l) intr_sys" where
  "set_slot cpu vec h st =
     manager_set cpu ((is_managers st ! cpu)\<lparr>mg_slots := (mg_slots (is_managers st ! cpu))[unat vec := h]\<rparr>) st"

definition register :: "'s hw \<Rightarrow> u32 \<Rightarrow> nat \<Rightarrow> Interrupt \<Rightarrow> (('s, 'l) intr_sys, unit) op" where
  "register hw gsi cpu intr =
     try_bind (on_ioapics (get_entry hw gsi)) (\<lambda>entry st.
       if alloc_vec (ie_vec hw entry) then fail EEXIST st
       else
         try_bind (ok_or (is_lapic_id st cpu) EINVAL) (\<lambda>apic_id.
         try_bind (ok_or (manager_get st cpu) ENODEV) (\<lambda>mg.
         try_bind (allocate_vecs cpu mg 1) (\<lambda>vec st.
           on_ioapics (config_dest hw gsi vec apic_id) (set_slot cpu vec (Some intr) st)))) st)"

definition deregister :: "'s hw \<Rightarrow> u32 \<Rightarrow> nat \<Rightarrow> (('s, 'l) intr_sys, unit) op" where
  "deregister hw gsi cpu =
     try_bind (on_ioapics (get_entry hw gsi)) (\<lambda>entry st.
       let vec = ie_vec hw entry in
       if \<not> alloc_vec vec then fail ENOENT st
       else
         try_bind (ok_or (manager_get st cpu) ENODEV) (\<lambda>_ st.
         try_bind (on_ioapics (ioapic_deconfig hw gsi)) (\<lambda>_ st.
           let mg = is_managers st ! cpu in
           Inr (Inr (), manager_set cpu (mg\<lparr>mg_map := snd (rm_remove vec (mg_map mg)), mg_count := mg_count mg - 1\<rparr>) st))
           (set_slot cpu vec None st)) st)"

text \<open>\<open>u8::checked_next_power_of_two\<close>\<close>

definition checked_next_power_of_two :: "u8 \<Rightarrow> u8 option" where
  "checked_next_power_of_two n = find (\<lambda>p. n \<le> p) [1, 2, 4, 8, 16, 32, 64, 128]"

definition MAX_NUM_VEC :: u8 where "MAX_NUM_VEC = 32"
definition LAPIC_BASE :: usize where "LAPIC_BASE = 0xFEE00000"

definition allocate_msi :: "u8 \<Rightarrow> nat \<Rightarrow> (('s, 'l) intr_sys, Msi) op" where
  "allocate_msi num_vec cpu st =
     try_bind (ok_or (filter_opt (\<lambda>n. n \<le> MAX_NUM_VEC) (checked_next_power_of_two num_vec)) EINVAL) (\<lambda>num.
     try_bind (ok_or (manager_get st cpu) ENODEV) (\<lambda>mg.
     try_bind (ok_or (is_lapic_id st cpu) EINVAL) (\<lambda>apic_id.
     try_bind (allocate_vecs cpu mg num) (\<lambda>start st.
       rbind (add_chk start num) (\<lambda>end'.
         Inr (Inr \<lparr>target_address = ucast LAPIC_BASE OR push_bit 12 apic_id, target_data = ucast start,
           msi_vecs = (start, end'), msi_cpu = cpu\<rparr>, st)))))) st"

definition deallocate_msi :: "Msi \<Rightarrow> (('s, 'l) intr_sys, unit) op" where
  "deallocate_msi msi st =
     try_bind (ok_or (manager_get st (msi_cpu msi)) ENODEV) (\<lambda>mg st.
       Inr (Inr (), manager_set (msi_cpu msi) (mg\<lparr>mg_map := snd (rm_remove (fst (msi_vecs msi)) (mg_map mg))\<rparr>) st)) st"

section \<open>Interrupt objects\<close>

text \<open>\<open>Interrupt::new\<close>; \<open>alloc_ok\<close> tells whether memory is available for the object.\<close>

definition interrupt_new :: "bool \<Rightarrow> u32 resource \<Rightarrow> u32 resource \<Rightarrow> u32 \<Rightarrow> nat \<Rightarrow> bool \<Rightarrow> Error + Interrupt" where
  "interrupt_new alloc_ok gsi_resource res gsi cpu level_triggered =
     (if magic_eq res gsi_resource \<and> fst (r_range res) \<le> gsi \<and> gsi < snd (r_range res) then
        (if alloc_ok then Inr \<lparr>i_gsi = gsi, i_cpu = cpu, i_level_triggered = level_triggered\<rparr> else Inl ENOMEM)
      else Inl EPERM)"

definition interrupt_drop :: "'s hw \<Rightarrow> Interrupt \<Rightarrow> ('s, 'l) intr_sys \<Rightarrow> ('s, 'l) intr_sys run" where
  "interrupt_drop hw i st = rbind (deregister hw (i_gsi i) (i_cpu i) st) (\<lambda>(_, st'). Inr st')"

text \<open>\<open>.unwrap()\<close> on the result of an operation.\<close>

definition unwrap_op :: "('st, unit) op \<Rightarrow> 'st \<Rightarrow> 'st run" where
  "unwrap_op f st = rbind (f st) (\<lambda>(r, st'). case r of Inl _ \<Rightarrow> Inl UnwrapFailed | Inr _ \<Rightarrow> Inr st')"

definition interrupt_wait :: "'s hw \<Rightarrow> Interrupt \<Rightarrow> ('s, 'l) intr_sys \<Rightarrow> ('s, 'l) intr_sys run" where
  "interrupt_wait hw i st = (if i_level_triggered i then unwrap_op (manager_mask hw (i_gsi i) False) st else Inr st)"

definition interrupt_notify :: "'s hw \<Rightarrow> ('l \<Rightarrow> 'l) \<Rightarrow> Interrupt \<Rightarrow> ('s, 'l) intr_sys \<Rightarrow> ('s, 'l) intr_sys run" where
  "interrupt_notify hw lapic_eoi i st =
     rbind (if i_level_triggered i then unwrap_op (manager_mask hw (i_gsi i) True) st else Inr st)
       (unwrap_op (manager_eoi hw lapic_eoi (i_gsi i)))"

definition ACTIVE_HIGH :: u32 where "ACTIVE_HIGH = 1"
definition LEVEL_TRIGGERED :: u32 where "LEVEL_TRIGGERED = 2"

definition level_config :: "u32 \<Rightarrow> bool" where
  "level_config config \<longleftrightarrow> config AND LEVEL_TRIGGERED = LEVEL_TRIGGERED"

definition trig_mode :: "u32 \<Rightarrow> TriggerMode" where
  "trig_mode config = (if level_config config then Level else Edge)"

definition polarity :: "u32 \<Rightarrow> Polarity" where
  "polarity config = (if config AND ACTIVE_HIGH = ACTIVE_HIGH then High else Low)"

text \<open>
  The system call: \<open>res\<close> is the result of looking up the resource handle, and \<open>inserted\<close> the
  result of entering the object into the table of handles. On every error after
  its creation the object is dropped.
\<close>

definition intr_new :: "'s hw \<Rightarrow> u32 resource \<Rightarrow> bool \<Rightarrow> Error + u32 resource \<Rightarrow> Error + Handle \<Rightarrow> u32 \<Rightarrow> u32
    \<Rightarrow> (('s, 'l) intr_sys, Handle \<times> Interrupt) op" where
  "intr_new hw gsi_resource alloc_ok res inserted gsi config st =
     (let cpu = select_cpu st
      in case (case res of Inl e \<Rightarrow> Inl e | Inr r \<Rightarrow> interrupt_new alloc_ok gsi_resource r gsi cpu (level_config config)) of
           Inl e \<Rightarrow> Inr (Inl e, st)
         | Inr intr \<Rightarrow>
             rbind (try_bind (manager_config hw gsi (trig_mode config) (polarity config)) (\<lambda>_.
                    try_bind (register hw gsi cpu intr) (\<lambda>_.
                    try_bind (manager_mask hw gsi False) (\<lambda>_ st. Inr (inserted, st)))) st) (\<lambda>(r, st').
               case r of Inl e \<Rightarrow> rbind (interrupt_drop hw intr st') (\<lambda>st''. Inr (Inl e, st''))
               | Inr h \<Rightarrow> Inr (Inr (h, intr), st')))"


text \<open>A CPU can take an interrupt: it has an APIC identifier and a free vector.\<close>

definition vector_available :: "('s, 'l) intr_sys \<Rightarrow> nat \<Rightarrow> bool" where
  "vector_available st cpu \<longleftrightarrow> is_lapic_id st cpu \<noteq> None \<and> cpu < length (is_managers st)
     \<and> (\<exists>v. rm_free (mg_map (is_managers st ! cpu)) (v, v + 1))"

text \<open>The manager of a CPU after a vector has been freed.\<close>

definition freed :: "u8 \<Rightarrow> Manager \<Rightarrow> Manager" where
  "freed v mg = mg\<lparr>mg_slots := (mg_slots mg)[unat v := None], mg_map := snd (rm_remove v (mg_map mg)), mg_count := mg_count mg - 1\<rparr>"

section \<open>The invariant\<close>

text \<open>
  \<open>live\<close> are the interrupt objects and \<open>msis\<close> the blocks of message-signalled interrupts in
  use; \<open>rt\<close> is the routing of the I/O APICs.
\<close>

definition vec_of :: "(u32 \<Rightarrow> route_fields option) \<Rightarrow> u32 \<Rightarrow> u8" where
  "vec_of rt g = f_vec (the (rt g))"

definition manager_ok :: "(u32 \<Rightarrow> route_fields option) \<Rightarrow> Interrupt set \<Rightarrow> Msi set \<Rightarrow> nat \<Rightarrow> Manager \<Rightarrow> bool" where
  "manager_ok rt live msis cpu mg \<longleftrightarrow>
     rm_inv (mg_map mg) \<and> rm_range (mg_map mg) = ALLOC_VEC \<and> length (mg_slots mg) = 256
   \<and> (\<forall>i \<in> live. i_cpu i = cpu \<longrightarrow>
        map_of (rm_inner (mg_map mg)) (vec_of rt (i_gsi i)) = Some ((vec_of rt (i_gsi i), vec_of rt (i_gsi i) + 1), ())
      \<and> mg_slots mg ! unat (vec_of rt (i_gsi i)) = Some i)
   \<and> (\<forall>x \<in> msis. msi_cpu x = cpu \<longrightarrow>
        map_of (rm_inner (mg_map mg)) (fst (msi_vecs x)) = Some (msi_vecs x, ())
      \<and> (\<forall>i \<in> live. i_cpu i = cpu \<longrightarrow> vec_of rt (i_gsi i) \<noteq> fst (msi_vecs x)))"

definition routes_ok :: "(u32 \<Rightarrow> route_fields option) \<Rightarrow> Interrupt set \<Rightarrow> bool" where
  "routes_ok rt live \<longleftrightarrow>
     inj_on i_gsi live
   \<and> (\<forall>i \<in> live. rt (i_gsi i) \<noteq> None \<and> alloc_vec (vec_of rt (i_gsi i)))
   \<and> (\<forall>g f. rt g = Some f \<longrightarrow> alloc_vec (f_vec f) \<longrightarrow> g \<in> i_gsi ` live)"

definition intr_inv :: "'s hw \<Rightarrow> ('s \<Rightarrow> u32 \<Rightarrow> u32) \<Rightarrow> (u32 \<Rightarrow> route_fields option) \<Rightarrow> ('s, 'l) intr_sys \<Rightarrow> Interrupt set \<Rightarrow> Msi set \<Rightarrow> bool" where
  "intr_inv hw reg rt st live msis \<longleftrightarrow>
     routed hw reg rt (is_ioapics st) \<and> routes_ok rt live
   \<and> (\<forall>cpu < length (is_managers st). manager_ok rt live msis cpu (is_managers st ! cpu))
   \<and> (\<forall>i \<in> live. i_cpu i < length (is_managers st))
   \<and> (\<forall>x \<in> msis. msi_cpu x < length (is_managers st)) \<and> inj_on (\<lambda>x. (msi_cpu x, fst (msi_vecs x))) msis
   \<and> (\<forall>cpu a. is_lapic_id st cpu = Some a \<longrightarrow> unat a < 0x8000)"

lemma intr_inv_cong:
  assumes "intr_inv hw reg rt st live msis" and "routed hw reg rt' (is_ioapics st')"
    and "is_managers st' = is_managers st" and "is_lapic_id st' = is_lapic_id st"
    and "\<And>g. map_option f_vec (rt' g) = map_option f_vec (rt g)"
  shows "intr_inv hw reg rt' st' live msis"
proof -
  have dom: "rt' g = None \<longleftrightarrow> rt g = None" for g using assms(5) [of g] by (metis option.map_disc_iff)
  have live: "rt (i_gsi i) \<noteq> None" if "i \<in> live" for i using assms(1) that by (simp add: intr_inv_def routes_ok_def)
  have vec: "vec_of rt' g = vec_of rt g" if "rt g \<noteq> None" for g
    using assms(5) [of g] that by (auto simp: vec_of_def)
  have before: "\<exists>f. rt g = Some f \<and> f_vec f = f_vec f'" if "rt' g = Some f'" for g f'
    using assms(5) [of g] that by (cases "rt g") auto
  have ok: "routes_ok rt live" using assms(1) by (simp add: intr_inv_def)
  have "g \<in> i_gsi ` live" if "rt' g = Some f'" "alloc_vec (f_vec f')" for g f'
    using before [OF that(1)] that(2) ok unfolding routes_ok_def by metis
  then have "routes_ok rt' live"
    using ok live dom vec by (simp add: routes_ok_def)
  moreover have "manager_ok rt' live msis cpu mg = manager_ok rt live msis cpu mg" for cpu mg
    using live vec by (auto simp: manager_ok_def)
  ultimately show ?thesis using assms by (simp add: intr_inv_def)
qed


text \<open>One manager and its objects change; the other managers do not notice.\<close>

lemma intr_inv_manager:
  assumes "intr_inv hw reg rt st live msis" and "routed hw reg rt' (is_ioapics st')"
    and "is_managers st' = (is_managers st)[cpu := mg]" and "is_lapic_id st' = is_lapic_id st" and "cpu < length (is_managers st)"
    and "routes_ok rt' live'" and "manager_ok rt' live' msis' cpu mg"
    and live: "\<And>i. i_cpu i \<noteq> cpu \<Longrightarrow> i \<in> live' \<longleftrightarrow> i \<in> live"
    and vec: "\<And>i. i \<in> live \<Longrightarrow> i_cpu i \<noteq> cpu \<Longrightarrow> vec_of rt' (i_gsi i) = vec_of rt (i_gsi i)"
    and msis: "\<And>x. msi_cpu x \<noteq> cpu \<Longrightarrow> x \<in> msis' \<longleftrightarrow> x \<in> msis"
    and inj: "inj_on (\<lambda>x. (msi_cpu x, fst (msi_vecs x))) msis'"
  shows "intr_inv hw reg rt' st' live' msis'"
proof -
  have "manager_ok rt' live' msis' c (is_managers st ! c)" if "c < length (is_managers st)" "c \<noteq> cpu" for c
  proof -
    have "manager_ok rt live msis c (is_managers st ! c)" using assms(1) that by (simp add: intr_inv_def)
    then show ?thesis using live vec msis that(2) unfolding manager_ok_def by auto
  qed
  moreover have "i_cpu i < length (is_managers st)" if "i \<in> live'" for i
    using that live [of i] assms(1,5) by (cases "i_cpu i = cpu") (auto simp: intr_inv_def)
  moreover have "msi_cpu x < length (is_managers st)" if "x \<in> msis'" for x
    using that msis [of x] assms(1,5) by (cases "msi_cpu x = cpu") (auto simp: intr_inv_def)
  ultimately show ?thesis
    using assms(1-7) inj by (auto simp: intr_inv_def nth_list_update)
qed

lemma alloc_vec_free: "rm_range m = ALLOC_VEC \<Longrightarrow> rm_free m (v, v + 1) \<Longrightarrow> alloc_vec v"
  by (auto simp: rm_free_def free_between_def alloc_vec_def)

lemma not_alloc_vec_0: "\<not> alloc_vec 0"
  by (simp add: alloc_vec_def ALLOC_VEC_def)

text \<open>A vector that was free is taken for a new object.\<close>

lemma routes_ok_insert:
  assumes "routes_ok rt live" and "i_gsi i \<notin> i_gsi ` live" and "alloc_vec (f_vec f)"
  shows "routes_ok (rt(i_gsi i \<mapsto> f)) (insert i live)"
proof -
  have "g \<in> i_gsi ` insert i live" if "(rt(i_gsi i \<mapsto> f)) g = Some f'" "alloc_vec (f_vec f')" for g f'
    using that assms(1) by (cases "g = i_gsi i") (auto simp: routes_ok_def)
  moreover have "j \<in> live \<Longrightarrow> i_gsi j \<noteq> i_gsi i" for j using assms(2) by (metis imageI)
  ultimately show ?thesis using assms by (auto simp: routes_ok_def vec_of_def)
qed

lemma routes_ok_remove:
  assumes "routes_ok rt live" and "i \<in> live"
  shows "routes_ok (rt(i_gsi i \<mapsto> no_route)) (live - {i})"
proof -
  have ne: "i_gsi j \<noteq> i_gsi i" if "j \<in> live - {i}" for j
    using assms that by (auto simp: routes_ok_def inj_on_def)
  have "g \<in> i_gsi ` (live - {i})" if h: "(rt(i_gsi i \<mapsto> no_route)) g = Some f'" "alloc_vec (f_vec f')" for g f'
  proof -
    have g: "g \<noteq> i_gsi i" using h by (auto simp: no_route_def not_alloc_vec_0)
    then have "g \<in> i_gsi ` live" using h assms(1) unfolding routes_ok_def by simp
    with g show ?thesis by blast
  qed
  moreover have "inj_on i_gsi (live - {i})" using assms(1) by (auto simp: routes_ok_def intro: inj_on_subset)
  ultimately show ?thesis using assms(1) ne by (simp add: routes_ok_def vec_of_def)
qed

lemma manager_ok_insert:
  assumes ok: "manager_ok rt live msis cpu mg" and i: "i_cpu i = cpu" "i_gsi i \<notin> i_gsi ` live" "f_vec f = v"
    and m: "rm_inv m" "rm_range m = ALLOC_VEC" "map_of (rm_inner m) = (map_of (rm_inner (mg_map mg)))(v \<mapsto> ((v, v + 1), ()))"
      "map_of (rm_inner (mg_map mg)) v = None"
  shows "manager_ok (rt(i_gsi i \<mapsto> f)) (insert i live) msis cpu (mg\<lparr>mg_map := m, mg_count := n, mg_slots := (mg_slots mg)[unat v := Some i]\<rparr>)"
proof -
  have ne: "i_gsi j \<noteq> i_gsi i" if "j \<in> live" for j using i(2) that by (metis imageI)
  have "vec_of rt (i_gsi j) \<noteq> v" if "j \<in> live" "i_cpu j = cpu" for j
    using ok that m(4) by (auto simp: manager_ok_def)
  moreover have "fst (msi_vecs x) \<noteq> v" if "x \<in> msis" "msi_cpu x = cpu" for x
    using ok that m(4) by (auto simp: manager_ok_def)
  moreover have "unat v < 256" using unat_lt_pow [of v] by simp
  ultimately show ?thesis
    using ok i m ne by (auto simp: manager_ok_def vec_of_def nth_list_update word_unat_eq_iff [symmetric])
qed

lemma manager_ok_remove:
  assumes ok: "manager_ok rt live msis cpu mg" and i: "i \<in> live" "i_cpu i = cpu" and inj: "inj_on i_gsi live"
  shows "manager_ok (rt(i_gsi i \<mapsto> no_route)) (live - {i}) msis cpu
    (mg\<lparr>mg_slots := (mg_slots mg)[unat (vec_of rt (i_gsi i)) := None], mg_map := snd (rm_remove (vec_of rt (i_gsi i)) (mg_map mg)), mg_count := n\<rparr>)"
proof -
  let ?v = "vec_of rt (i_gsi i)"
  have ne: "i_gsi j \<noteq> i_gsi i" if "j \<in> live - {i}" for j
    using inj i(1) that by (auto simp: inj_on_def)
  have "mg_slots mg ! unat (vec_of rt (i_gsi k)) = Some k" if "k \<in> live" "i_cpu k = cpu" for k
    using ok that by (simp add: manager_ok_def)
  note slots = this
  then have vec: "vec_of rt (i_gsi j) \<noteq> ?v" if "j \<in> live - {i}" "i_cpu j = cpu" for j
    using that i by (metis DiffE insertCI option.inject)
  have slot: "(mg_slots mg)[unat ?v := None] ! unat (vec_of rt (i_gsi j)) = Some j" if "j \<in> live - {i}" "i_cpu j = cpu" for j
  proof -
    have "unat ?v \<noteq> unat (vec_of rt (i_gsi j))" using vec [OF that] by (metis word_unat_eq_iff)
    then show ?thesis using slots [of j] that by simp
  qed
  have msi: "fst (msi_vecs x) \<noteq> ?v" if "x \<in> msis" "msi_cpu x = cpu" for x
    using ok that i unfolding manager_ok_def by metis
  have map: "map_of (rm_inner (snd (rm_remove ?v (mg_map mg)))) = (map_of (rm_inner (mg_map mg)))(?v := None)"
    by (auto simp: rm_remove_def remove_if_def bt_get_remove fun_eq_iff split: option.splits)
  have range: "rm_range (snd (rm_remove ?v (mg_map mg))) = rm_range (mg_map mg)"
    by (simp add: rm_remove_def remove_if_def split: option.splits)
  have inv: "rm_inv (snd (rm_remove ?v (mg_map mg)))"
    using ok by (simp add: manager_ok_def rm_remove_def rm_inv_remove)
  have "vec_of (rt(i_gsi i \<mapsto> no_route)) (i_gsi j) = vec_of rt (i_gsi j)" if "j \<in> live - {i}" for j
    using ne [OF that] by (simp add: vec_of_def)
  then show ?thesis
    using ok i vec slot msi map range inv unfolding manager_ok_def by auto
qed

lemma manager_ok_insert_msi:
  assumes ok: "manager_ok rt live msis cpu mg" and x: "msi_vecs x = (v, w)" "msi_cpu x = cpu"
    and m: "rm_inv m" "rm_range m = ALLOC_VEC" "map_of (rm_inner m) = (map_of (rm_inner (mg_map mg)))(v \<mapsto> ((v, w), ()))"
      "map_of (rm_inner (mg_map mg)) v = None"
  shows "manager_ok rt live (insert x msis) cpu (mg\<lparr>mg_map := m, mg_count := n\<rparr>)"
proof -
  have "vec_of rt (i_gsi j) \<noteq> v" if "j \<in> live" "i_cpu j = cpu" for j
    using ok that m(4) by (auto simp: manager_ok_def)
  moreover have "fst (msi_vecs y) \<noteq> v" if "y \<in> msis" "msi_cpu y = cpu" for y
    using ok that m(4) by (auto simp: manager_ok_def)
  ultimately show ?thesis
    using ok x m by (auto simp: manager_ok_def)
qed

lemma manager_ok_remove_msi:
  assumes ok: "manager_ok rt live msis cpu mg" and x: "x \<in> msis" "msi_cpu x = cpu"
    and inj: "inj_on (\<lambda>x. (msi_cpu x, fst (msi_vecs x))) msis"
  shows "manager_ok rt live (msis - {x}) cpu (mg\<lparr>mg_map := snd (rm_remove (fst (msi_vecs x)) (mg_map mg))\<rparr>)"
proof -
  let ?v = "fst (msi_vecs x)"
  have vec: "vec_of rt (i_gsi j) \<noteq> ?v" if "j \<in> live" "i_cpu j = cpu" for j
    using ok that x by (auto simp: manager_ok_def)
  have msi: "fst (msi_vecs y) \<noteq> ?v" if "y \<in> msis - {x}" "msi_cpu y = cpu" for y
    using inj x that by (auto simp: inj_on_def)
  have map: "map_of (rm_inner (snd (rm_remove ?v (mg_map mg)))) = (map_of (rm_inner (mg_map mg)))(?v := None)"
    by (auto simp: rm_remove_def remove_if_def bt_get_remove fun_eq_iff split: option.splits)
  have range: "rm_range (snd (rm_remove ?v (mg_map mg))) = rm_range (mg_map mg)"
    by (simp add: rm_remove_def remove_if_def split: option.splits)
  have inv: "rm_inv (snd (rm_remove ?v (mg_map mg)))"
    using ok by (simp add: manager_ok_def rm_remove_def rm_inv_remove)
  show ?thesis
    using ok vec msi map range inv unfolding manager_ok_def by auto
qed

lemma msi_size: "filter_opt P (checked_next_power_of_two n) = Some k \<Longrightarrow> 0 < k"
  by (auto simp: checked_next_power_of_two_def split: if_splits)

context ioapic_hw
begin

lemma on_get_entry:
  assumes "intr_inv hw reg rt st live msis"
  shows "rt g = None \<Longrightarrow> on_ioapics (get_entry hw g) st = Inr (Inl EINVAL, st)"
    and "rt g = Some f \<Longrightarrow> \<exists>e m. on_ioapics (get_entry hw g) st = Inr (Inr e, st\<lparr>is_ioapics := m\<rparr>) \<and> ie_vec hw e = f_vec f
          \<and> intr_inv hw reg rt (st\<lparr>is_ioapics := m\<rparr>) live msis"
proof -
  have rt: "routed hw reg rt (is_ioapics st)" using assms by (simp add: intr_inv_def)
  show "on_ioapics (get_entry hw g) st = Inr (Inl EINVAL, st)" if "rt g = None"
    using entry_absent [OF rt that] by (simp add: on_ioapics_def get_entry_def try_bind_def ok_or_def)
  show "\<exists>e m. on_ioapics (get_entry hw g) st = Inr (Inr e, st\<lparr>is_ioapics := m\<rparr>) \<and> ie_vec hw e = f_vec f
          \<and> intr_inv hw reg rt (st\<lparr>is_ioapics := m\<rparr>) live msis" if f: "rt g = Some f"
  proof -
    obtain e m where "get_entry hw g (is_ioapics st) = Inr (Inr e, m)" "entry_fields hw e = f" "routed hw reg rt m"
      using get_entry_ok [OF rt f] by blast
    moreover then have "ie_vec hw e = f_vec f" by (auto simp: entry_fields_def)
    ultimately show ?thesis
      using intr_inv_cong [OF assms, of rt "st\<lparr>is_ioapics := m\<rparr>"] by (auto simp: on_ioapics_def)
  qed
qed

lemma deregister_unused:
  assumes inv: "intr_inv hw reg rt st live msis" and "g \<notin> i_gsi ` live"
  shows "\<exists>e st'. deregister hw g cpu st = Inr (Inl e, st') \<and> intr_inv hw reg rt st' live msis"
proof (cases "rt g")
  case None
  then show ?thesis using on_get_entry(1) [OF inv None] inv by (simp add: deregister_def try_bind_def)
next
  case (Some f)
  have "\<not> alloc_vec (f_vec f)" using inv Some assms(2) by (auto simp: intr_inv_def routes_ok_def)
  then show ?thesis
    using on_get_entry(2) [OF inv Some] by (auto simp: deregister_def try_bind_def fail_def)
qed


lemma register_unused:
  assumes inv: "intr_inv hw reg rt st live msis" and "i_gsi i \<notin> i_gsi ` live" and f: "rt (i_gsi i) = Some f"
  shows "(\<exists>e st'. register hw (i_gsi i) (i_cpu i) i st = Inr (Inl e, st') \<and> intr_inv hw reg rt st' live msis
        \<and> \<not> vector_available st (i_cpu i))
    \<or> (\<exists>f' st'. register hw (i_gsi i) (i_cpu i) i st = Inr (Inr (), st') \<and> intr_inv hw reg (rt(i_gsi i \<mapsto> f')) st' (insert i live) msis)"
proof -
  let ?g = "i_gsi i" and ?cpu = "i_cpu i"
  obtain e m where get: "on_ioapics (get_entry hw ?g) st = Inr (Inr e, st\<lparr>is_ioapics := m\<rparr>)" "ie_vec hw e = f_vec f"
    and inv': "intr_inv hw reg rt (st\<lparr>is_ioapics := m\<rparr>) live msis"
    using on_get_entry(2) [OF inv f] by blast
  let ?st = "st\<lparr>is_ioapics := m\<rparr>"
  have na: "\<not> alloc_vec (f_vec f)" using inv f assms(2) by (auto simp: intr_inv_def routes_ok_def)
  show ?thesis
  proof (cases "is_lapic_id st ?cpu = None \<or> \<not> ?cpu < length (is_managers st)")
    case True
    then show ?thesis
      using get na inv' by (auto simp: register_def try_bind_def ok_or_def manager_get_def vector_available_def split: option.splits)
  next
    case False
    then obtain a where a: "is_lapic_id st ?cpu = Some a" and cpu: "?cpu < length (is_managers st)" by auto
    have small: "unat a < 0x8000" using inv a by (auto simp: intr_inv_def)
    let ?mg = "is_managers st ! ?cpu"
    have ok: "manager_ok rt live msis ?cpu ?mg" using inv cpu by (simp add: intr_inv_def)
    then have m: "rm_inv (mg_map ?mg)" "rm_range (mg_map ?mg) = ALLOC_VEC" by (simp_all add: manager_ok_def)
    from m(1) have "0 < (1 :: u8)" by simp
    from m(1) this show ?thesis
    proof (cases rule: allocate_with_value [where v = "()" and no_fit = ENOMEM])
      case full
      have "manager_set ?cpu (?mg\<lparr>mg_map := mg_map ?mg\<rparr>) ?st = ?st" by (simp add: manager_set_def)
      then show ?thesis
        using get na inv' a cpu full by (simp add: register_def try_bind_def ok_or_def manager_get_def allocate_vecs_def vector_available_def)
    next
      case (fits v m')
      let ?st1 = "set_slot ?cpu v (Some i) (manager_set ?cpu (?mg\<lparr>mg_map := m', mg_count := mg_count ?mg + 1\<rparr>) ?st)"
      have rtm: "routed hw reg rt m" using inv' by (simp add: intr_inv_def)
      let ?f = "f\<lparr>f_vec := v, f_deliv := 0, f_mask := True, f_dest := ucast a\<rparr>"
      obtain m2 where m2: "config_dest hw ?g v a m = Inr (Inr (), m2)" "routed hw reg (rt(?g \<mapsto> ?f)) m2"
        using config_dest_ok [OF rtm f small] by blast
      have reg: "register hw ?g ?cpu i st = Inr (Inr (), ?st1\<lparr>is_ioapics := m2\<rparr>)"
        using get na a cpu fits(1) m2
        by (simp add: register_def try_bind_def ok_or_def manager_get_def allocate_vecs_def on_ioapics_def set_slot_def manager_set_def)
      have "alloc_vec v" using alloc_vec_free [OF m(2) fits(2)] .
      then have routes: "routes_ok (rt(?g \<mapsto> ?f)) (insert i live)"
        using routes_ok_insert [OF _ assms(2), of rt ?f] inv by (simp add: intr_inv_def)
      have "intr_inv hw reg (rt(?g \<mapsto> ?f)) (?st1\<lparr>is_ioapics := m2\<rparr>) (insert i live) msis"
      proof (rule intr_inv_manager [OF inv _ _ _ cpu routes])
        show "manager_ok (rt(?g \<mapsto> ?f)) (insert i live) msis ?cpu
            (?mg\<lparr>mg_map := m', mg_count := mg_count ?mg + 1, mg_slots := (mg_slots ?mg)[unat v := Some i]\<rparr>)"
          using manager_ok_insert [OF ok refl assms(2), of ?f v m'] fits m by simp
        show "vec_of (rt(?g \<mapsto> ?f)) (i_gsi j) = vec_of rt (i_gsi j)" if "j \<in> live" for j
        proof -
          have "i_gsi j \<noteq> ?g" using assms(2) that by (metis imageI)
          then show ?thesis by (simp add: vec_of_def)
        qed
      qed (use m2 cpu inv in \<open>auto simp: set_slot_def manager_set_def intr_inv_def\<close>)
      then show ?thesis using reg by blast
    qed
  qed
qed


text \<open>Deregistering a GSI in use at any CPU: the entry of the GSI is cleared, and the vector that it held is freed at that CPU.\<close>

lemma deregister_used:
  assumes inv: "intr_inv hw reg rt st live msis" and i: "i \<in> live" and cpu: "cpu < length (is_managers st)"
  shows "\<exists>m. deregister hw (i_gsi i) cpu st
      = Inr (Inr (), st\<lparr>is_ioapics := m, is_managers := (is_managers st)[cpu := freed (vec_of rt (i_gsi i)) (is_managers st ! cpu)]\<rparr>)
    \<and> routed hw reg (rt(i_gsi i \<mapsto> no_route)) m"
proof -
  let ?g = "i_gsi i" and ?v = "vec_of rt (i_gsi i)"
  obtain f where f: "rt ?g = Some f" and v: "alloc_vec ?v" using inv i by (auto simp: intr_inv_def routes_ok_def)
  obtain e m where get: "on_ioapics (get_entry hw ?g) st = Inr (Inr e, st\<lparr>is_ioapics := m\<rparr>)" "ie_vec hw e = ?v"
    and inv': "intr_inv hw reg rt (st\<lparr>is_ioapics := m\<rparr>) live msis"
    using on_get_entry(2) [OF inv f] f by (auto simp: vec_of_def)
  have rtm: "routed hw reg rt m" using inv' by (simp add: intr_inv_def)
  obtain m2 where m2: "ioapic_deconfig hw ?g m = Inr (Inr (), m2)" "routed hw reg (rt(?g \<mapsto> no_route)) m2"
    using ioapic_deconfig_ok [OF rtm f] by blast
  have "deregister hw ?g cpu st = Inr (Inr (), st\<lparr>is_ioapics := m2, is_managers := (is_managers st)[cpu := freed ?v (is_managers st ! cpu)]\<rparr>)"
    using get v cpu m2(1)
    by (simp add: deregister_def try_bind_def ok_or_def manager_get_def on_ioapics_def set_slot_def manager_set_def Let_def freed_def)
  then show ?thesis using m2(2) by blast
qed

lemma drop_used:
  assumes inv: "intr_inv hw reg rt st live msis" and i: "i \<in> live" "i_gsi j = i_gsi i"
  shows "\<exists>st'. interrupt_drop hw j st = Inr st'"
proof (cases "i_cpu j < length (is_managers st)")
  case True
  then show ?thesis using deregister_used [OF inv i(1) True] i(2) by (auto simp: interrupt_drop_def)
next
  case False
  obtain f where f: "rt (i_gsi i) = Some f" using inv i by (auto simp: intr_inv_def routes_ok_def)
  have "alloc_vec (f_vec f)" using inv i(1) f by (auto simp: intr_inv_def routes_ok_def vec_of_def)
  then show ?thesis
    using on_get_entry(2) [OF inv f] i(2) False
    by (auto simp: interrupt_drop_def deregister_def try_bind_def ok_or_def manager_get_def Let_def)
qed

lemma deregister_live:
  assumes inv: "intr_inv hw reg rt st live msis" and i: "i \<in> live"
  shows "\<exists>st'. deregister hw (i_gsi i) (i_cpu i) st = Inr (Inr (), st') \<and> intr_inv hw reg (rt(i_gsi i \<mapsto> no_route)) st' (live - {i}) msis
    \<and> invoke (i_cpu i) (vec_of rt (i_gsi i)) st' = Inr None"
proof -
  let ?g = "i_gsi i" and ?cpu = "i_cpu i" and ?v = "vec_of rt (i_gsi i)"
  have routes: "routes_ok rt live" and cpu: "?cpu < length (is_managers st)"
    using inv i by (simp_all add: intr_inv_def)
  let ?mg = "is_managers st ! ?cpu"
  let ?mg' = "?mg\<lparr>mg_slots := (mg_slots ?mg)[unat ?v := None], mg_map := snd (rm_remove ?v (mg_map ?mg)), mg_count := mg_count ?mg - 1\<rparr>"
  obtain m2 where dereg: "deregister hw ?g ?cpu st = Inr (Inr (), st\<lparr>is_ioapics := m2, is_managers := (is_managers st)[?cpu := ?mg']\<rparr>)"
    and m2: "routed hw reg (rt(?g \<mapsto> no_route)) m2"
    using deregister_used [OF inv i cpu] by (auto simp: freed_def)
  let ?st' = "st\<lparr>is_ioapics := m2, is_managers := (is_managers st)[?cpu := ?mg']\<rparr>"
  have ok: "manager_ok rt live msis ?cpu ?mg" using inv cpu by (simp add: intr_inv_def)
  have "intr_inv hw reg (rt(?g \<mapsto> no_route)) ?st' (live - {i}) msis"
  proof (rule intr_inv_manager [OF inv _ _ _ cpu routes_ok_remove [OF routes i]])
    show "manager_ok (rt(?g \<mapsto> no_route)) (live - {i}) msis ?cpu ?mg'"
      using manager_ok_remove [OF ok i refl] routes by (simp add: routes_ok_def)
    show "vec_of (rt(?g \<mapsto> no_route)) (i_gsi j) = vec_of rt (i_gsi j)" if "j \<in> live" "i_cpu j \<noteq> ?cpu" for j
    proof -
      have "i_gsi j \<noteq> ?g" using routes i that by (auto simp: routes_ok_def inj_on_def)
      then show ?thesis by (simp add: vec_of_def)
    qed
  qed (use m2 inv in \<open>auto simp: intr_inv_def\<close>)
  moreover have "invoke ?cpu ?v ?st' = Inr None"
    using cpu ok unat_lt_pow [of ?v] by (simp add: invoke_def manager_get_def manager_ok_def)
  ultimately show ?thesis using dereg by blast
qed

text \<open>Operations that do not touch the vectors.\<close>

lemma manager_mask_ok:
  assumes inv: "intr_inv hw reg rt st live msis" and f: "rt g = Some f"
  shows "\<exists>st' rt'. manager_mask hw g b st = Inr (Inr (), st') \<and> intr_inv hw reg rt' st' live msis"
proof -
  have rtm: "routed hw reg rt (is_ioapics st)" using inv by (simp add: intr_inv_def)
  obtain m where m: "ioapic_mask hw g b (is_ioapics st) = Inr (Inr (), m)" "routed hw reg (rt(g \<mapsto> f\<lparr>f_mask := b\<rparr>)) m"
    using ioapic_mask_ok [OF rtm f] by blast
  then have "intr_inv hw reg (rt(g \<mapsto> f\<lparr>f_mask := b\<rparr>)) (st\<lparr>is_ioapics := m\<rparr>) live msis"
    using f by (intro intr_inv_cong [OF inv]) auto
  then show ?thesis using m by (auto simp: manager_mask_def on_ioapics_def)
qed

lemma manager_eoi_ok:
  assumes inv: "intr_inv hw reg rt st live msis" and f: "rt g = Some f"
  shows "\<exists>st'. manager_eoi hw le g st = Inr (Inr (), st') \<and> intr_inv hw reg rt st' live msis"
proof -
  have rtm: "routed hw reg rt (is_ioapics st)" using inv by (simp add: intr_inv_def)
  obtain m where m: "ioapic_eoi hw le g (is_lapic st, is_ioapics st) = Inr (Inr (), (le (is_lapic st), m))" "routed hw reg rt m"
    using ioapic_eoi_ok [OF rtm f, of le "is_lapic st"] by blast
  then have "intr_inv hw reg rt (st\<lparr>is_lapic := le (is_lapic st), is_ioapics := m\<rparr>) live msis"
    by (intro intr_inv_cong [OF inv]) auto
  then show ?thesis using m by (auto simp: manager_eoi_def)
qed

lemma manager_config_ok:
  assumes inv: "intr_inv hw reg rt st live msis"
  shows "(\<exists>e st'. manager_config hw g t q st = Inr (Inl e, st') \<and> intr_inv hw reg rt st' live msis
        \<and> (rt g = None \<or> \<not> mode_allowed (is_ovr st) g t q))
    \<or> (\<exists>f m. manager_config hw g t q st = Inr (Inr (), st\<lparr>is_ioapics := m\<rparr>)
        \<and> intr_inv hw reg (rt(g \<mapsto> f)) (st\<lparr>is_ioapics := m\<rparr>) live msis \<and> map_option f_vec (rt g) = Some (f_vec f))"
proof -
  have rt: "routed hw reg rt (is_ioapics st)" using inv by (simp add: intr_inv_def)
  show ?thesis
  proof (cases "rt g")
    case None
    then show ?thesis
      using entry_absent [OF rt None] inv by (simp add: manager_config_def on_ioapics_def ioapic_config_def try_bind_def ok_or_def)
  next
    case (Some f)
    show ?thesis
    proof (cases "mode_allowed (is_ovr st) g t q")
      case False
      then show ?thesis
        using ioapic_config_refused [OF rt Some False] inv by (simp add: manager_config_def on_ioapics_def)
    next
      case True
      obtain m where m: "ioapic_config hw (is_ovr st) g t q (is_ioapics st) = Inr (Inr (), m)"
        "routed hw reg (rt(g \<mapsto> f\<lparr>f_trigger := t, f_polarity := q, f_mask := True\<rparr>)) m"
        using ioapic_config_ok [OF rt Some True] by blast
      then have "intr_inv hw reg (rt(g \<mapsto> f\<lparr>f_trigger := t, f_polarity := q, f_mask := True\<rparr>)) (st\<lparr>is_ioapics := m\<rparr>) live msis"
        using Some by (intro intr_inv_cong [OF inv]) auto
      moreover have "manager_config hw g t q st = Inr (Inr (), st\<lparr>is_ioapics := m\<rparr>)"
        using m by (simp add: manager_config_def on_ioapics_def)
      moreover have "map_option f_vec (rt g) = Some (f_vec (f\<lparr>f_trigger := t, f_polarity := q, f_mask := True\<rparr>))" using Some by simp
      ultimately show ?thesis by blast
    qed
  qed
qed


lemma drop_unused:
  assumes "intr_inv hw reg rt st live msis" and "i_gsi i \<notin> i_gsi ` live"
  shows "\<exists>st'. interrupt_drop hw i st = Inr st' \<and> intr_inv hw reg rt st' live msis"
  using deregister_unused [OF assms, of "i_cpu i"] by (auto simp: interrupt_drop_def)

lemma drop_live:
  assumes "intr_inv hw reg rt st live msis" and "i \<in> live"
  shows "\<exists>st' rt'. interrupt_drop hw i st = Inr st' \<and> intr_inv hw reg rt' st' (live - {i}) msis"
  using deregister_live [OF assms] by (fastforce simp: interrupt_drop_def)

lemma intr_new_unused:
  assumes inv: "intr_inv hw reg rt st live msis" and g: "g \<notin> i_gsi ` live"
  shows "\<exists>r st' rt'. intr_new hw gres alloc_ok res inserted g config st = Inr (r, st')
    \<and> (case r of Inl _ \<Rightarrow> intr_inv hw reg rt' st' live msis
       | Inr (h, i) \<Rightarrow> i_gsi i = g \<and> inserted = Inr h \<and> intr_inv hw reg rt' st' (insert i live) msis)
    \<and> ((\<exists>r'. res = Inr r' \<and> magic_eq r' gres \<and> fst (r_range r') \<le> g \<and> g < snd (r_range r')) \<and> alloc_ok \<and> rt g \<noteq> None
       \<and> mode_allowed (is_ovr st) g (trig_mode config) (polarity config)
       \<and> vector_available st (select_cpu st) \<longrightarrow> isl r = isl inserted)"
proof -
  let ?level = "level_config config" and ?t = "trig_mode config" and ?q = "polarity config"
  let ?obj = "case res of Inl e \<Rightarrow> Inl e | Inr r \<Rightarrow> interrupt_new alloc_ok gres r g (select_cpu st) ?level"
  let ?steps = "\<lambda>i. try_bind (manager_config hw g ?t ?q) (\<lambda>_. try_bind (register hw g (select_cpu st) i) (\<lambda>_.
      try_bind (manager_mask hw g False) (\<lambda>_ st. Inr (inserted, st)))) st"
  show ?thesis
  proof (cases ?obj)
    case (Inl e)
    then have "intr_new hw gres alloc_ok res inserted g config st = Inr (Inl e, st)" by (simp add: intr_new_def Let_def)
    moreover have "\<not> ((\<exists>r'. res = Inr r' \<and> magic_eq r' gres \<and> fst (r_range r') \<le> g \<and> g < snd (r_range r')) \<and> alloc_ok)"
      using Inl by (auto simp: interrupt_new_def)
    ultimately show ?thesis using inv by auto
  next
    case (Inr i)
    then have i: "i_gsi i = g" "i_cpu i = select_cpu st"
      by (auto simp: interrupt_new_def split: sum.splits if_splits)
    have new: "intr_new hw gres alloc_ok res inserted g config st = rbind (?steps i) (\<lambda>(r, st').
        case r of Inl e \<Rightarrow> rbind (interrupt_drop hw i st') (\<lambda>st''. Inr (Inl e, st'')) | Inr h \<Rightarrow> Inr (Inr (h, i), st'))"
      using Inr by (simp add: intr_new_def Let_def)
    have unused: ?thesis if "?steps i = Inr (Inl e, st1)" "intr_inv hw reg rt1 st1 live msis"
      "rt g = None \<or> \<not> mode_allowed (is_ovr st) g ?t ?q \<or> \<not> vector_available st (select_cpu st)" for e st1 rt1
      using drop_unused [OF that(2), of i] g i new that(1,3) by auto
    from manager_config_ok [OF inv, of g ?t ?q]
    consider (refused) e st1 where "manager_config hw g ?t ?q st = Inr (Inl e, st1)" "intr_inv hw reg rt st1 live msis"
        "rt g = None \<or> \<not> mode_allowed (is_ovr st) g ?t ?q"
      | (configured) f m1 where "manager_config hw g ?t ?q st = Inr (Inr (), st\<lparr>is_ioapics := m1\<rparr>)"
        "intr_inv hw reg (rt(g \<mapsto> f)) (st\<lparr>is_ioapics := m1\<rparr>) live msis"
      by blast
    then show ?thesis
    proof cases
      case (refused e st1)
      then show ?thesis by (intro unused) (auto simp: try_bind_def)
    next
      case (configured f m1)
      note config = configured(1) and inv1 = configured(2)
      let ?st1 = "st\<lparr>is_ioapics := m1\<rparr>"
      have avail: "vector_available ?st1 (i_cpu i) = vector_available st (select_cpu st)" using i by (simp add: vector_available_def)
      have "i_gsi i \<notin> i_gsi ` live" "(rt(g \<mapsto> f)) (i_gsi i) = Some f" using g i by simp_all
      from register_unused [OF inv1 this] show ?thesis
      proof (elim disjE exE conjE)
        fix e st2 assume "register hw (i_gsi i) (i_cpu i) i ?st1 = Inr (Inl e, st2)" "intr_inv hw reg (rt(g \<mapsto> f)) st2 live msis"
          "\<not> vector_available ?st1 (i_cpu i)"
        then show ?thesis using config i avail by (intro unused) (simp_all add: try_bind_def)
      next
        fix f' st2 assume reg: "register hw (i_gsi i) (i_cpu i) i ?st1 = Inr (Inr (), st2)"
          and inv2: "intr_inv hw reg ((rt(g \<mapsto> f))(i_gsi i \<mapsto> f')) st2 (insert i live) msis"
        have f': "((rt(g \<mapsto> f))(i_gsi i \<mapsto> f')) g = Some f'" using i by simp
        obtain st3 rt3 where mask: "manager_mask hw g False st2 = Inr (Inr (), st3)" and inv3: "intr_inv hw reg rt3 st3 (insert i live) msis"
          using manager_mask_ok [OF inv2 f', of False] by blast
        have set_up: "?steps i = Inr (inserted, st3)" using config reg mask i by (simp add: try_bind_def)
        show ?thesis
        proof (cases inserted)
          case (Inl e)
          obtain st4 rt4 where "interrupt_drop hw i st3 = Inr st4" "intr_inv hw reg rt4 st4 (insert i live - {i}) msis"
            using drop_live [OF inv3, of i] by blast
          moreover have "insert i live - {i} = live" using g i by auto
          ultimately show ?thesis using new set_up Inl by auto
        next
          case (Inr h)
          then show ?thesis using new set_up inv3 i by auto
        qed
      qed
    qed
  qed
qed


lemma allocate_msi_ok:
  assumes inv: "intr_inv hw reg rt st live msis"
  shows "\<exists>r st'. allocate_msi n cpu st = Inr (r, st')
    \<and> (case r of Inl _ \<Rightarrow> intr_inv hw reg rt st' live msis | Inr x \<Rightarrow> x \<notin> msis \<and> intr_inv hw reg rt st' live (insert x msis))"
proof (cases "filter_opt (\<lambda>n. n \<le> MAX_NUM_VEC) (checked_next_power_of_two n) = None
    \<or> \<not> cpu < length (is_managers st) \<or> is_lapic_id st cpu = None")
  case True
  then have "\<exists>e. allocate_msi n cpu st = Inr (Inl e, st)"
    by (cases "filter_opt (\<lambda>n. n \<le> MAX_NUM_VEC) (checked_next_power_of_two n)"; cases "cpu < length (is_managers st)"; cases "is_lapic_id st cpu")
      (simp_all add: allocate_msi_def filter_opt_def try_bind_def ok_or_def manager_get_def)
  then show ?thesis using inv by auto
next
  case False
  then obtain k a where k: "filter_opt (\<lambda>n. n \<le> MAX_NUM_VEC) (checked_next_power_of_two n) = Some k"
    and cpu: "cpu < length (is_managers st)" and a: "is_lapic_id st cpu = Some a" by auto
  let ?mg = "is_managers st ! cpu"
  have pos: "0 < k" by (rule msi_size [OF k])
  have ok: "manager_ok rt live msis cpu ?mg" using inv cpu by (simp add: intr_inv_def)
  then have m: "rm_inv (mg_map ?mg)" "rm_range (mg_map ?mg) = ALLOC_VEC" by (simp_all add: manager_ok_def)
  from m(1) pos show ?thesis
  proof (cases rule: allocate_with_value [where v = "()" and no_fit = ENOMEM])
    case full
    have "manager_set cpu (?mg\<lparr>mg_map := mg_map ?mg\<rparr>) st = st" by (simp add: manager_set_def)
    then show ?thesis
      using inv k cpu a full by (auto simp: allocate_msi_def filter_opt_def try_bind_def ok_or_def manager_get_def allocate_vecs_def)
  next
    case (fits v m')
    let ?x = "\<lparr>target_address = ucast LAPIC_BASE OR push_bit 12 a, target_data = ucast v, msi_vecs = (v, v + k), msi_cpu = cpu\<rparr>"
    let ?st' = "manager_set cpu (?mg\<lparr>mg_map := m', mg_count := mg_count ?mg + ucast k\<rparr>) st"
    have "v < v + k" using fits(2) by (simp add: rm_free_def free_between_def)
    then have "add_chk v k = Inr (v + k)" using word_less_add [OF pos, of v] by (simp add: add_chk_def)
    then have alloc: "allocate_msi n cpu st = Inr (Inr ?x, ?st')"
      using k cpu a fits(1) by (simp add: allocate_msi_def filter_opt_def try_bind_def ok_or_def manager_get_def allocate_vecs_def)
    have fresh: "fst (msi_vecs y) \<noteq> v" if "y \<in> msis" "msi_cpu y = cpu" for y
      using ok that fits(5) by (auto simp: manager_ok_def)
    have "intr_inv hw reg rt ?st' live (insert ?x msis)"
    proof (rule intr_inv_manager [OF inv _ _ _ cpu])
      show "manager_ok rt live (insert ?x msis) cpu (?mg\<lparr>mg_map := m', mg_count := mg_count ?mg + ucast k\<rparr>)"
        using manager_ok_insert_msi [OF ok, of ?x v "v + k" m'] fits m by simp
      show "inj_on (\<lambda>x. (msi_cpu x, fst (msi_vecs x))) (insert ?x msis)"
        using inv fresh by (auto simp: intr_inv_def)
    qed (use inv in \<open>auto simp: intr_inv_def manager_set_def\<close>)
    moreover have "?x \<notin> msis" using fresh [of ?x] by auto
    ultimately show ?thesis using alloc by auto
  qed
qed

lemma deallocate_msi_ok:
  assumes inv: "intr_inv hw reg rt st live msis" and x: "x \<in> msis"
  shows "\<exists>st'. deallocate_msi x st = Inr (Inr (), st') \<and> intr_inv hw reg rt st' live (msis - {x})"
proof -
  let ?cpu = "msi_cpu x"
  let ?mg = "is_managers st ! ?cpu"
  let ?mg' = "?mg\<lparr>mg_map := snd (rm_remove (fst (msi_vecs x)) (mg_map ?mg))\<rparr>"
  have cpu: "?cpu < length (is_managers st)" and ok: "manager_ok rt live msis ?cpu ?mg"
    and inj: "inj_on (\<lambda>x. (msi_cpu x, fst (msi_vecs x))) msis"
    using inv x by (auto simp: intr_inv_def)
  have "intr_inv hw reg rt (manager_set ?cpu ?mg' st) live (msis - {x})"
    by (rule intr_inv_manager [OF inv _ _ _ cpu _ manager_ok_remove_msi [OF ok x refl inj]])
      (use inv in \<open>auto simp: intr_inv_def manager_set_def intro: inj_on_subset [OF inj]\<close>)
  then show ?thesis
    using cpu by (simp add: deallocate_msi_def try_bind_def ok_or_def manager_get_def)
qed

lemma live_route:
  assumes "intr_inv hw reg rt st live msis" and "i \<in> live"
  obtains f where "rt (i_gsi i) = Some f"
  using assms by (auto simp: intr_inv_def routes_ok_def)

lemma unwrap_mask_ok:
  assumes "intr_inv hw reg rt st live msis" and "i \<in> live"
  shows "\<exists>st' rt'. unwrap_op (manager_mask hw (i_gsi i) b) st = Inr st' \<and> intr_inv hw reg rt' st' live msis"
proof -
  obtain f where f: "rt (i_gsi i) = Some f" by (rule live_route [OF assms])
  show ?thesis using manager_mask_ok [OF assms(1) f, of b] by (auto simp: unwrap_op_def)
qed

lemma wait_live:
  assumes "intr_inv hw reg rt st live msis" and "i \<in> live"
  shows "\<exists>st' rt'. interrupt_wait hw i st = Inr st' \<and> intr_inv hw reg rt' st' live msis"
  using unwrap_mask_ok [OF assms, of False] assms(1) by (auto simp: interrupt_wait_def)

lemma notify_live:
  assumes inv: "intr_inv hw reg rt st live msis" and i: "i \<in> live"
  shows "\<exists>st' rt'. interrupt_notify hw le i st = Inr st' \<and> intr_inv hw reg rt' st' live msis"
proof -
  obtain st1 rt1 where st1: "(if i_level_triggered i then unwrap_op (manager_mask hw (i_gsi i) True) st else Inr st) = Inr st1"
    and inv1: "intr_inv hw reg rt1 st1 live msis"
    using unwrap_mask_ok [OF assms, of True] inv by (cases "i_level_triggered i") auto
  obtain f where f: "rt1 (i_gsi i) = Some f" by (rule live_route [OF inv1 i])
  show ?thesis
    using manager_eoi_ok [OF inv1 f, of le] unfolding interrupt_notify_def st1 by (auto simp: unwrap_op_def)
qed

end

section \<open>Steps of the system\<close>

text \<open>
  The system calls and the handlers, in any order, for interrupt objects of which at most
  one is created per GSI; the chips may change the bits they maintain at any time.
\<close>

inductive intr_step :: "'s hw \<Rightarrow> ('s \<Rightarrow> u32 \<Rightarrow> u32) \<Rightarrow> ('l \<Rightarrow> 'l) \<Rightarrow> u32 resource
    \<Rightarrow> ('s, 'l) intr_sys \<times> Interrupt set \<times> Msi set \<Rightarrow> ('s, 'l) intr_sys \<times> Interrupt set \<times> Msi set \<Rightarrow> bool"
  for hw reg lapic_eoi gres where
  new: "g \<notin> i_gsi ` live \<Longrightarrow> intr_new hw gres alloc_ok res inserted g config st = Inr (Inr (h, i), st')
    \<Longrightarrow> intr_step hw reg lapic_eoi gres (st, live, msis) (st', insert i live, msis)"
| new_error: "g \<notin> i_gsi ` live \<Longrightarrow> intr_new hw gres alloc_ok res inserted g config st = Inr (Inl e, st')
    \<Longrightarrow> intr_step hw reg lapic_eoi gres (st, live, msis) (st', live, msis)"
| drop: "i \<in> live \<Longrightarrow> interrupt_drop hw i st = Inr st'
    \<Longrightarrow> intr_step hw reg lapic_eoi gres (st, live, msis) (st', live - {i}, msis)"
| wait: "i \<in> live \<Longrightarrow> interrupt_wait hw i st = Inr st'
    \<Longrightarrow> intr_step hw reg lapic_eoi gres (st, live, msis) (st', live, msis)"
| notify: "i \<in> live \<Longrightarrow> interrupt_notify hw lapic_eoi i st = Inr st'
    \<Longrightarrow> intr_step hw reg lapic_eoi gres (st, live, msis) (st', live, msis)"
| msi_new: "allocate_msi n cpu st = Inr (Inr x, st')
    \<Longrightarrow> intr_step hw reg lapic_eoi gres (st, live, msis) (st', live, insert x msis)"
| msi_error: "allocate_msi n cpu st = Inr (Inl e, st')
    \<Longrightarrow> intr_step hw reg lapic_eoi gres (st, live, msis) (st', live, msis)"
| msi_drop: "x \<in> msis \<Longrightarrow> deallocate_msi x st = Inr (r, st')
    \<Longrightarrow> intr_step hw reg lapic_eoi gres (st, live, msis) (st', live, msis - {x})"
| hardware: "chips_ok m \<Longrightarrow> (\<And>g. rel_option same_route (route reg m g) (route reg (is_ioapics st) g))
    \<Longrightarrow> intr_step hw reg lapic_eoi gres (st, live, msis) (st\<lparr>is_ioapics := m\<rparr>, live, msis)"

text \<open>After start-up no vector is in use, and no entry points to a vector that can be allocated.\<close>

definition boot_state :: "'s hw \<Rightarrow> ('s \<Rightarrow> u32 \<Rightarrow> u32) \<Rightarrow> ('s, 'l) intr_sys \<Rightarrow> bool" where
  "boot_state hw reg st \<longleftrightarrow>
     (\<exists>n. is_managers st = replicate n manager_new) \<and> chips_ok (is_ioapics st)
   \<and> (\<forall>g e. route reg (is_ioapics st) g = Some e \<longrightarrow> \<not> alloc_vec (ie_vec hw e))
   \<and> (\<forall>cpu a. is_lapic_id st cpu = Some a \<longrightarrow> unat a < 0x8000)"

context ioapic_hw
begin

lemma boot_state_inv:
  assumes "boot_state hw reg st"
  shows "intr_inv hw reg (\<lambda>g. map_option (entry_fields hw) (route reg (is_ioapics st) g)) st {} {}"
proof -
  have "f_vec (entry_fields hw e) = ie_vec hw e" for e by (simp add: entry_fields_def)
  moreover have "manager_ok rt {} {} cpu manager_new" for rt cpu
    by (simp add: manager_ok_def manager_new_def rm_inv_new ALLOC_VEC_def rm_new_def rm_inv_def)
  ultimately show ?thesis
    using assms by (auto simp: boot_state_def intr_inv_def routed_def routes_ok_def)
qed

lemma intr_step_inv:
  assumes "intr_step hw reg le gres (st, live, msis) (st', live', msis')" and inv: "intr_inv hw reg rt st live msis"
  shows "\<exists>rt'. intr_inv hw reg rt' st' live' msis'"
  using assms(1)
proof cases
  case (new g alloc_ok res inserted config h i)
  then show ?thesis using intr_new_unused [OF inv new(3), of gres alloc_ok res inserted config] by fastforce
next
  case (new_error g alloc_ok res inserted config e)
  then show ?thesis using intr_new_unused [OF inv new_error(3), of gres alloc_ok res inserted config] by fastforce
next
  case (drop i)
  then show ?thesis using drop_live [OF inv drop(3)] by auto
next
  case (wait i)
  then show ?thesis using wait_live [OF inv wait(3)] by auto
next
  case (notify i)
  then show ?thesis using notify_live [OF inv notify(3), of le] by auto
next
  case (msi_new n cpu x)
  then show ?thesis using allocate_msi_ok [OF inv, of n cpu] by auto
next
  case (msi_error n cpu e)
  then show ?thesis using allocate_msi_ok [OF inv, of n cpu] by auto
next
  case (msi_drop x r)
  then show ?thesis using deallocate_msi_ok [OF inv msi_drop(3)] by auto
next
  case (hardware m)
  have "map_option (entry_fields hw) (route reg m g) = map_option (entry_fields hw) (route reg (is_ioapics st) g)" for g
    using hardware(5) [of g] by (cases rule: option.rel_cases) (auto dest: same_route_fields)
  then have "routed hw reg rt m" using inv hardware(4) by (simp add: intr_inv_def routed_def)
  then have "intr_inv hw reg rt (st\<lparr>is_ioapics := m\<rparr>) live msis" by (intro intr_inv_cong [OF inv]) auto
  then show ?thesis using hardware by auto
qed

lemma reachable_inv:
  assumes "(intr_step hw reg le gres)\<^sup>*\<^sup>* (st0, {}, {}) s" and "boot_state hw reg st0"
  shows "\<exists>rt. intr_inv hw reg rt (fst s) (fst (snd s)) (snd (snd s))"
  using assms(1)
proof (induction rule: rtranclp_induct)
  case base
  then show ?case using boot_state_inv [OF assms(2)] by auto
next
  case (step s1 s2)
  then show ?case
    using intr_step_inv [of le gres "fst s1" "fst (snd s1)" "snd (snd s1)" "fst s2" "fst (snd s2)" "snd (snd s2)"] by auto
qed

lemma inv_invoke:
  assumes inv: "intr_inv hw reg rt st live msis" and i: "i \<in> live"
  shows "\<exists>e m'. get_entry hw (i_gsi i) (is_ioapics st) = Inr (Inr e, m') \<and> ie_vec hw e = vec_of rt (i_gsi i)
    \<and> alloc_vec (ie_vec hw e) \<and> invoke (i_cpu i) (ie_vec hw e) st = Inr (Some i)"
proof -
  obtain f where f: "rt (i_gsi i) = Some f" by (rule live_route [OF inv i])
  have rtm: "routed hw reg rt (is_ioapics st)" using inv by (simp add: intr_inv_def)
  obtain e m' where e: "get_entry hw (i_gsi i) (is_ioapics st) = Inr (Inr e, m')" "entry_fields hw e = f"
    using get_entry_ok [OF rtm f] by blast
  then have v: "ie_vec hw e = vec_of rt (i_gsi i)" using f by (auto simp: vec_of_def entry_fields_def)
  have "alloc_vec (vec_of rt (i_gsi i))" using inv i by (simp add: intr_inv_def routes_ok_def)
  moreover have "i_cpu i < length (is_managers st)" using inv i by (simp add: intr_inv_def)
  moreover then have "manager_ok rt live msis (i_cpu i) (is_managers st ! i_cpu i)" using inv by (simp add: intr_inv_def)
  ultimately show ?thesis
    using e(1) v i by (auto simp: invoke_def manager_get_def manager_ok_def)
qed

lemma inv_msis:
  assumes inv: "intr_inv hw reg rt st live msis" and x: "x \<in> msis"
  shows "fst (msi_vecs x) < snd (msi_vecs x)"
    and "i \<in> live \<Longrightarrow> i_cpu i = msi_cpu x \<Longrightarrow> vec_of rt (i_gsi i) < fst (msi_vecs x) \<or> snd (msi_vecs x) \<le> vec_of rt (i_gsi i)"
    and "y \<in> msis \<Longrightarrow> y \<noteq> x \<Longrightarrow> msi_cpu y = msi_cpu x \<Longrightarrow> snd (msi_vecs y) \<le> fst (msi_vecs x) \<or> snd (msi_vecs x) \<le> fst (msi_vecs y)"
proof -
  let ?mg = "is_managers st ! msi_cpu x"
  have ok: "manager_ok rt live msis (msi_cpu x) ?mg" using inv x by (simp add: intr_inv_def)
  then have m: "rm_inv (mg_map ?mg)" by (simp add: manager_ok_def)
  have mem: "(fst (msi_vecs y), (msi_vecs y, ())) \<in> set (rm_inner (mg_map ?mg))" if "y \<in> msis" "msi_cpu y = msi_cpu x" for y
    using ok that by (auto simp: manager_ok_def dest: map_of_SomeD)
  show "fst (msi_vecs x) < snd (msi_vecs x)" using rm_invD(2) [OF m mem [OF x refl]] by simp
  show "snd (msi_vecs y) \<le> fst (msi_vecs x) \<or> snd (msi_vecs x) \<le> fst (msi_vecs y)" if "y \<in> msis" "y \<noteq> x" "msi_cpu y = msi_cpu x"
  proof -
    have "fst (msi_vecs y) \<noteq> fst (msi_vecs x)" using inv x that by (auto simp: intr_inv_def inj_on_def)
    then show ?thesis using rm_invD(3) [OF m mem [OF that(1,3)] mem [OF x refl]] by simp
  qed
  show "vec_of rt (i_gsi i) < fst (msi_vecs x) \<or> snd (msi_vecs x) \<le> vec_of rt (i_gsi i)" if i: "i \<in> live" "i_cpu i = msi_cpu x"
  proof -
    let ?v = "vec_of rt (i_gsi i)"
    have "(?v, ((?v, ?v + 1), ())) \<in> set (rm_inner (mg_map ?mg))" "?v \<noteq> fst (msi_vecs x)"
      using ok i x by (auto simp: manager_ok_def dest: map_of_SomeD)
    then show ?thesis
      using rm_invD(2) [OF m \<open>(?v, _) \<in> _\<close>] rm_invD(3) [OF m \<open>(?v, _) \<in> _\<close> mem [OF x refl]] by (auto simp: not_less)
  qed
qed


text \<open>
  A second object for a GSI in use: its registration is refused, and dropping it
  deregisters the GSI at the CPU that was selected for the second object.
\<close>

lemma on_ioapics_managers: "on_ioapics f st = Inr (r, st') \<Longrightarrow> \<exists>m. st' = st\<lparr>is_ioapics := m\<rparr>"
  by (auto simp: on_ioapics_def rbind_Inr_conv)

lemma steps_refused:
  assumes inv: "intr_inv hw reg rt st live msis" and i: "i \<in> live"
  shows "\<exists>e m f. try_bind (manager_config hw (i_gsi i) t q) (\<lambda>_. try_bind (register hw (i_gsi i) cpu j) k) st = Inr (Inl e, st\<lparr>is_ioapics := m\<rparr>)
    \<and> (mode_allowed (is_ovr st) (i_gsi i) t q \<longrightarrow> e = EEXIST) \<and> f_vec f = vec_of rt (i_gsi i)
    \<and> intr_inv hw reg (rt(i_gsi i \<mapsto> f)) (st\<lparr>is_ioapics := m\<rparr>) live msis"
proof -
  let ?g = "i_gsi i"
  obtain f0 where f0: "rt ?g = Some f0" by (rule live_route [OF inv i])
  from manager_config_ok [OF inv, of ?g t q]
  consider (refused) e st1 where "manager_config hw ?g t q st = Inr (Inl e, st1)" "intr_inv hw reg rt st1 live msis" "\<not> mode_allowed (is_ovr st) ?g t q"
    | (configured) f m1 where "manager_config hw ?g t q st = Inr (Inr (), st\<lparr>is_ioapics := m1\<rparr>)"
      "intr_inv hw reg (rt(?g \<mapsto> f)) (st\<lparr>is_ioapics := m1\<rparr>) live msis" "f_vec f = f_vec f0"
    using f0 by auto
  then show ?thesis
  proof cases
    case (refused e st1)
    obtain m where "st1 = st\<lparr>is_ioapics := m\<rparr>" using refused(1) on_ioapics_managers by (fastforce simp: manager_config_def)
    moreover have "rt(?g \<mapsto> f0) = rt" using f0 by (simp add: fun_upd_idem)
    ultimately show ?thesis using refused f0 by (intro exI [of _ e] exI [of _ m] exI [of _ f0]) (simp add: try_bind_def vec_of_def)
  next
    case (configured f m1)
    have "(rt(?g \<mapsto> f)) ?g = Some f" by simp
    from on_get_entry(2) [OF configured(2) this]
    obtain e m2 where get: "on_ioapics (get_entry hw ?g) (st\<lparr>is_ioapics := m1\<rparr>) = Inr (Inr e, st\<lparr>is_ioapics := m1, is_ioapics := m2\<rparr>)"
      and e: "ie_vec hw e = f_vec f" and "intr_inv hw reg (rt(?g \<mapsto> f)) (st\<lparr>is_ioapics := m1, is_ioapics := m2\<rparr>) live msis"
      by blast
    then have inv2: "intr_inv hw reg (rt(?g \<mapsto> f)) (st\<lparr>is_ioapics := m2\<rparr>) live msis" by simp
    have "vec_of (rt(?g \<mapsto> f)) ?g = f_vec f" by (simp add: vec_of_def)
    then have "alloc_vec (f_vec f)" using inv2 i by (auto simp: intr_inv_def routes_ok_def)
    then have "register hw ?g cpu j (st\<lparr>is_ioapics := m1\<rparr>) = Inr (Inl EEXIST, st\<lparr>is_ioapics := m2\<rparr>)"
      using get e by (simp add: register_def try_bind_def fail_def)
    then show ?thesis using configured f0 inv2
      by (intro exI [of _ EEXIST] exI [of _ m2] exI [of _ f]) (simp add: try_bind_def vec_of_def)
  qed
qed

lemma intr_new_used:
  assumes inv: "intr_inv hw reg rt st live msis" and i: "i \<in> live"
  shows "\<exists>r. intr_new hw gres alloc_ok res inserted (i_gsi i) config st = Inr r"
proof (cases "case res of Inl e \<Rightarrow> Inl e | Inr r \<Rightarrow> interrupt_new alloc_ok gres r (i_gsi i) (select_cpu st) (level_config config)")
  case (Inr j)
  then have j: "i_gsi j = i_gsi i" by (auto simp: interrupt_new_def split: sum.splits if_splits)
  obtain e m f where "try_bind (manager_config hw (i_gsi i) (trig_mode config) (polarity config)) (\<lambda>_.
      try_bind (register hw (i_gsi i) (select_cpu st) j) (\<lambda>_. try_bind (manager_mask hw (i_gsi i) False) (\<lambda>_ st. Inr (inserted, st)))) st
      = Inr (Inl e, st\<lparr>is_ioapics := m\<rparr>)"
    and inv1: "intr_inv hw reg (rt(i_gsi i \<mapsto> f)) (st\<lparr>is_ioapics := m\<rparr>) live msis"
    using steps_refused [OF inv i] by blast
  then show ?thesis using drop_used [OF inv1 i j] Inr by (auto simp: intr_new_def Let_def)
qed (simp add: intr_new_def Let_def)

lemma intr_new_again:
  assumes inv: "intr_inv hw reg rt st live msis" and i: "i \<in> live" "select_cpu st < length (is_managers st)"
    and res: "magic_eq res gres" "fst (r_range res) \<le> i_gsi i" "i_gsi i < snd (r_range res)"
  shows "\<exists>e m. intr_new hw gres True (Inr res) inserted (i_gsi i) config st
      = Inr (Inl e, st\<lparr>is_ioapics := m, is_managers := (is_managers st)[select_cpu st := freed (vec_of rt (i_gsi i)) (is_managers st ! select_cpu st)]\<rparr>)
    \<and> (mode_allowed (is_ovr st) (i_gsi i) (trig_mode config) (polarity config) \<longrightarrow> e = EEXIST)
    \<and> routed hw reg (rt(i_gsi i \<mapsto> no_route)) m"
proof -
  let ?g = "i_gsi i" and ?cpu = "select_cpu st"
  let ?new = "\<lparr>i_gsi = ?g, i_cpu = ?cpu, i_level_triggered = level_config config\<rparr>"
  obtain e m f where steps: "try_bind (manager_config hw ?g (trig_mode config) (polarity config)) (\<lambda>_.
      try_bind (register hw ?g ?cpu ?new) (\<lambda>_. try_bind (manager_mask hw ?g False) (\<lambda>_ st. Inr (inserted, st)))) st
      = Inr (Inl e, st\<lparr>is_ioapics := m\<rparr>)"
    and e: "mode_allowed (is_ovr st) ?g (trig_mode config) (polarity config) \<longrightarrow> e = EEXIST" and f: "f_vec f = vec_of rt ?g"
    and inv1: "intr_inv hw reg (rt(?g \<mapsto> f)) (st\<lparr>is_ioapics := m\<rparr>) live msis"
    using steps_refused [OF inv i(1)] by blast
  have "vec_of (rt(?g \<mapsto> f)) ?g = vec_of rt ?g" using f by (simp add: vec_of_def)
  then obtain m2 where "deregister hw ?g ?cpu (st\<lparr>is_ioapics := m\<rparr>)
      = Inr (Inr (), st\<lparr>is_ioapics := m2, is_managers := (is_managers st)[?cpu := freed (vec_of rt ?g) (is_managers st ! ?cpu)]\<rparr>)"
    "routed hw reg (rt(?g \<mapsto> no_route)) m2"
    using deregister_used [OF inv1 i(1), of ?cpu] i(2) by auto
  then show ?thesis using steps e res
    by (intro exI [of _ e] exI [of _ m2]) (simp add: intr_new_def interrupt_new_def interrupt_drop_def Let_def)
qed

end

section \<open>Properties\<close>



text \<open>
  C32. One object per GSI is not enforced by the code. When \<open>intr_new\<close> is called for a GSI that
  already has an object, with permission and memory, it fails, with \<open>EEXIST\<close> if the mode is allowed, but it
  cancels the existing object: the redirection entry of the GSI is cleared and masked. The handler of the vector that the entry held
  is removed at the CPU that \<open>select_cpu\<close> picks, be it the CPU of the object or another one where the vector belongs to another
  object; every other handler stays.
\<close>

theorem second_registration_cancels_first:
  assumes "ioapic_hw hw reg" and "intr_inv hw reg rt st live msis"
    and "i \<in> live" and "select_cpu st < length (is_managers st)" and "magic_eq res gres" and "fst (r_range res) \<le> i_gsi i" and "i_gsi i < snd (r_range res)"
  shows "invoke (i_cpu i) (vec_of rt (i_gsi i)) st = Inr (Some i)
    \<and> (\<exists>e st' e' m'. intr_new hw gres True (Inr res) inserted (i_gsi i) config st = Inr (Inl e, st')
      \<and> (mode_allowed (is_ovr st) (i_gsi i) (trig_mode config) (polarity config) \<longrightarrow> e = EEXIST)
      \<and> get_entry hw (i_gsi i) (is_ioapics st') = Inr (Inr e', m') \<and> ie_vec hw e' = 0 \<and> ie_mask hw e'
      \<and> (\<forall>cpu v. invoke cpu v st' = (if cpu = select_cpu st \<and> v = vec_of rt (i_gsi i) then Inr None else invoke cpu v st)))"
proof -
  note hw = assms(1) and inv = assms(2)
  let ?v = "vec_of rt (i_gsi i)" and ?cpu = "select_cpu st"
  let ?st = "\<lambda>m. st\<lparr>is_ioapics := m, is_managers := (is_managers st)[?cpu := freed ?v (is_managers st ! ?cpu)]\<rparr>"
  obtain e m where new: "intr_new hw gres True (Inr res) inserted (i_gsi i) config st = Inr (Inl e, ?st m)"
    and e: "mode_allowed (is_ovr st) (i_gsi i) (trig_mode config) (polarity config) \<longrightarrow> e = EEXIST"
    and r: "routed hw reg (rt(i_gsi i \<mapsto> no_route)) m"
    using ioapic_hw.intr_new_again [OF hw inv assms(3-7), of inserted config] by blast
  have "(rt(i_gsi i \<mapsto> no_route)) (i_gsi i) = Some no_route" by simp
  from ioapic_hw.get_entry_ok [OF hw r this]
  obtain e' m' where e': "get_entry hw (i_gsi i) m = Inr (Inr e', m')" "entry_fields hw e' = no_route" by blast
  then have vec: "ie_vec hw e' = 0" "ie_mask hw e'" by (auto simp: entry_fields_def no_route_def)
  have "length (mg_slots (is_managers st ! ?cpu)) = 256" using inv assms(4) by (simp add: intr_inv_def manager_ok_def)
  then have inv': "invoke cpu v (?st m) = (if cpu = ?cpu \<and> v = ?v then Inr None else invoke cpu v st)" for cpu v
    using unat_lt_pow [of ?v] assms(4)
    by (auto simp: invoke_def manager_get_def freed_def nth_list_update word_unat_eq_iff)
  show ?thesis
    using new e e'(1) vec inv' ioapic_hw.inv_invoke [OF hw inv assms(3)]
    by (intro conjI exI [of _ e] exI [of _ "?st m"] exI [of _ e'] exI [of _ m']) auto
qed

text \<open>One CPU and the sample chips.\<close>

definition sample_sys :: "(u32 \<times> (u32 \<Rightarrow> u32), unit) intr_sys" where
  "sample_sys = \<lparr>is_managers = [manager_new], is_ioapics = sample_chips, is_ovr = [],
     is_lapic_id = (\<lambda>cpu. if cpu = 0 then Some 1 else None), is_lapic = ()\<rparr>"

definition sample_gsis :: "u32 resource" where
  "sample_gsis = new_root 7 (16, 24)"


lemma usize_max_pos: "(0 :: usize) < - 1"
  using word_neq_0_conv [of "- 1 :: usize"] by simp



lemma sample_mode: "mode_allowed [] 20 (trig_mode 2) (polarity 2)"
  by (simp add: mode_allowed_def legacy_irq_def)




text \<open>A state with one object, for GSI 20 with vector 0x40.\<close>

definition sample_object :: Interrupt where
  "sample_object = \<lparr>i_gsi = 20, i_cpu = 0, i_level_triggered = True\<rparr>"

definition sample_used :: "(u32 \<times> (u32 \<Rightarrow> u32), unit) intr_sys" where
  "sample_used = sample_sys\<lparr>
     is_ioapics := sample_chips\<lparr>rm_inner := [(16, ((16, 24), sample_chip\<lparr>io_dev := (0, \<lambda>r. if r = 0x18 then 0x40 else 0)\<rparr>))]\<rparr>,
     is_managers := [manager_new\<lparr>mg_map := (rm_new ALLOC_VEC)\<lparr>rm_inner := [(0x40, ((0x40, 0x41), ()))]\<rparr>,
       mg_slots := (replicate 256 None)[0x40 := Some sample_object]\<rparr>]\<rparr>"


lemma sample_used_chip:
  "get_contained g (is_ioapics sample_used)
     = (if 16 \<le> g \<and> g < 24 then Some ((16, 24), sample_chip\<lparr>io_dev := (0, \<lambda>r. if r = 0x18 then 0x40 else 0)\<rparr>) else None)"
  by (simp add: get_contained_def sample_used_def sample_chips_def bt_to_def filter_opt_def last_of_def)

lemma sample_used_route:
  "route (\<lambda>s. snd s) (is_ioapics sample_used) g = (if 16 \<le> g \<and> g < 24 then Some (if g = 20 then 0x40 else 0) else None)"
proof -
  have "red_entry (\<lambda>s. snd s) (0 :: u32, \<lambda>r. if r = 0x18 then 0x40 else 0) (ucast (g - 16)) = (if g = 20 then 0x40 else 0)"
    if "16 \<le> g" "g < 24"
  proof -
    have u: "unat (ucast (g - 16) :: u8) = unat g - 16"
      using that by (simp add: unsigned_ucast_eq take_bit_nat_eq_self unat_sub word_le_nat_alt word_less_nat_alt)
    have "reg_index (IoRedirTable (ucast (g - 16))) = 0x18 \<longleftrightarrow> unat (ucast (g - 16) :: u8) = 4"
      using unat_redir [of "ucast (g - 16)"] by (simp only: word_unat_eq_iff [of "reg_index _"]) simp
    also have "\<dots> \<longleftrightarrow> g = 20" using that unfolding u by (auto simp: word_unat_eq_iff [of g] word_le_nat_alt)
    finally have lo: "reg_index (IoRedirTable (ucast (g - 16))) = 0x18 \<longleftrightarrow> g = 20" .
    have hi: "reg_index (IoRedirTable (ucast (g - 16))) + 1 \<noteq> 0x18"
      using redir_next [of "ucast (g - 16)" 4] by simp
    show ?thesis unfolding red_entry_def using lo hi by (simp del: reg_index.simps)
  qed
  then show ?thesis by (simp add: route_def chip_mut_pin_def sample_used_chip)
qed

lemma sample_used_fields:
  "entry_fields regs_hw (if g = 20 then 0x40 else 0) = no_route\<lparr>f_mask := False, f_vec := (if g = 20 then 0x40 else 0)\<rparr>"
  by (simp add: entry_fields_def ie_vec_def ie_trigger_mode_def ie_polarity_def ie_mask_def ie_dest_def no_route_def regs_hw_def)

lemma sample_used_inv:
  fixes rt :: "u32 \<Rightarrow> route_fields option"
  defines "rt \<equiv> \<lambda>g. if 16 \<le> g \<and> g < 24 then Some (no_route\<lparr>f_mask := False, f_vec := (if g = 20 then 0x40 else 0)\<rparr>) else None"
  shows "intr_inv regs_hw (\<lambda>s. snd s) rt sample_used {sample_object} {}" and "vec_of rt 20 = 0x40"
proof -
  have "chips_ok (is_ioapics sample_used)" by (simp add: chips_ok_def rm_inv_def sample_used_def sample_chips_def)
  moreover have "map_option (entry_fields regs_hw) (route (\<lambda>s. snd s) (is_ioapics sample_used) g) = rt g" for g
    unfolding sample_used_route rt_def if_distrib [of "map_option _"] option.map sample_used_fields ..
  ultimately have "routed regs_hw (\<lambda>s. snd s) rt (is_ioapics sample_used)" by (simp add: routed_def)
  moreover have "routes_ok rt {sample_object}"
    by (auto simp: routes_ok_def rt_def sample_object_def vec_of_def no_route_def alloc_vec_def ALLOC_VEC_def split: if_splits)
  moreover have "manager_ok rt {sample_object} {} 0 (is_managers sample_used ! 0)"
    by (simp add: manager_ok_def sample_used_def rm_inv_def rm_new_def ALLOC_VEC_def manager_new_def sample_object_def vec_of_def rt_def)
  moreover have "length (is_managers sample_used) = 1" "is_lapic_id sample_used = is_lapic_id sample_sys"
    by (simp_all add: sample_used_def)
  ultimately show "intr_inv regs_hw (\<lambda>s. snd s) rt sample_used {sample_object} {}"
    by (auto simp: intr_inv_def sample_object_def sample_sys_def)
  show "vec_of rt 20 = 0x40" by (simp add: vec_of_def rt_def)
qed

lemma second_registration_cancels_first_witness:
  "invoke 0 0x40 sample_used = Inr (Some sample_object)
   \<and> (\<exists>st'. intr_new regs_hw sample_gsis True (Inr sample_gsis) (Inr (Handle 5)) 20 2 sample_used = Inr (Inl EEXIST, st')
        \<and> invoke 0 0x40 st' = Inr None)"
proof -
  have i: "i_gsi sample_object = 20" "i_cpu sample_object = 0" by (simp_all add: sample_object_def)
  have len: "length (is_managers sample_used) = 1" by (simp add: sample_used_def)
  have "select_cpu sample_used = i_cpu sample_object"
    by (simp add: i select_cpu_def sample_used_def manager_new_def enumerate_eq_zip usize_max_pos)
  moreover have "magic_eq sample_gsis sample_gsis" "fst (r_range sample_gsis) \<le> i_gsi sample_object" "i_gsi sample_object < snd (r_range sample_gsis)"
    by (simp_all add: i sample_gsis_def new_root_def res_new_def magic_eq_def)
  moreover have "mode_allowed (is_ovr sample_used) (i_gsi sample_object) (trig_mode 2) (polarity 2)"
    using sample_mode by (simp add: i sample_used_def sample_sys_def)
  ultimately show ?thesis
    using second_registration_cancels_first [OF regs.ioapic_hw_axioms sample_used_inv(1) singletonI, of sample_gsis sample_gsis "Inr (Handle 5)" 2]
      sample_used_inv(2) len unfolding i by auto
qed

end
