(* ===== verification/Deque.thy ===== *)
theory Deque
  imports Prelude "HOL-Library.Multiset"
begin

text \<open>
  The work-stealing deque of the scheduler, \<open>h2o/kernel/src/sched/imp/deque.rs\<close>: the queue
  of a \<open>Worker\<close>, which its owner pushes to and pops from, and from which any number of
  \<open>Stealer\<close>s take tasks at the same time.

  The operations are cut into steps at their accesses to memory that another thread may
  write; accesses to memory that only the owner writes (the back index, the slots and the
  buffer, when the owner reads them) belong to the step before. The steps of the threads
  interleave in any order, and each step sees the effects of the steps before it:
  the memory orderings are not modelled beyond that. Indices are integers; the code
  takes their differences with wrap-around, which is the same as long as fewer than
  \<open>2^63\<close> tasks are queued. A buffer that has been replaced stays readable for the threads that
  have it, as the crate \<open>crossbeam-epoch\<close> guarantees to pinned threads: buffers are
  numbered, and never reused.
\<close>

section \<open>Buffers\<close>

definition MIN_CAP :: nat where "MIN_CAP = 64"
definition MAX_BATCH :: nat where "MAX_BATCH = 32"

record 'a buffer =
  b_cap :: nat
  b_slots :: "int \<Rightarrow> 'a option"

definition buffer_alloc :: "nat \<Rightarrow> 'a buffer" where
  "buffer_alloc cap = \<lparr>b_cap = cap, b_slots = (\<lambda>_. None)\<rparr>"

definition buffer_at :: "'a buffer \<Rightarrow> int \<Rightarrow> int" where
  "buffer_at buf index = index mod int (b_cap buf)"

definition buffer_write :: "'a buffer \<Rightarrow> int \<Rightarrow> 'a option \<Rightarrow> 'a buffer" where
  "buffer_write buf index task = buf\<lparr>b_slots := (b_slots buf)(buffer_at buf index := task)\<rparr>"

definition buffer_read :: "'a buffer \<Rightarrow> int \<Rightarrow> 'a option" where
  "buffer_read buf index = b_slots buf (buffer_at buf index)"

section \<open>The shared queue\<close>

datatype flavor = Fifo | Lifo

record 'a inner =
  q_front :: int
  q_back :: int
  q_buffer :: nat
  q_bufs :: "'a buffer list"

definition cur :: "'a inner \<Rightarrow> 'a buffer" where
  "cur q = q_bufs q ! q_buffer q"

definition new_inner :: "'a inner" where
  "new_inner = \<lparr>q_front = 0, q_back = 0, q_buffer = 0, q_bufs = [buffer_alloc MIN_CAP]\<rparr>"

text \<open>Dropping the queue drops the tasks from the front index on, up to the back index.\<close>

partial_function (option) drop_tasks :: "'a buffer \<Rightarrow> int \<Rightarrow> int \<Rightarrow> 'a option list option" where
  "drop_tasks buf i b =
     (if i \<noteq> b then Option.bind (drop_tasks buf (i + 1) b) (\<lambda>ts. Some (buffer_read buf i # ts)) else Some [])"

declare drop_tasks.simps [code]

definition inner_drop :: "'a inner \<Rightarrow> 'a option list option" where
  "inner_drop q = drop_tasks (cur q) (q_front q) (q_back q)"

section \<open>The owner\<close>

text \<open>
  The points at which the owner may be interrupted.
  \<^item> \<open>PushGrow task\<close>: the queue has been found full; \<open>PushSwap task f\<close>: the front index \<open>f\<close> to copy
    from has been loaded.
  \<^item> \<open>PushWrite task\<close>: there is room for the task; \<open>PushStore task\<close>: the task has been written.
  \<^item> \<open>ReserveGrow c n\<close>, \<open>ReserveSwap c f n\<close>: the buffer will be replaced by one of capacity \<open>c\<close>.
  \<^item> \<open>Batch n\<close>: the owner is inside of a \<open>steal_batch\<close> from another queue into this one, with room for \<open>n\<close> tasks.
  \<^item> \<open>PopGo len\<close>: the queue has been found to have \<open>len\<close> tasks; \<open>FifoUndo f\<close>: the front index went past
    the back index; \<open>LifoLoad\<close>, \<open>LifoCas f t\<close>, \<open>LifoRestore\<close>: the back index has been decremented.
  \<^item> \<open>Shrink\<close>, \<open>ShrinkSwap f\<close>: a task has been taken and the buffer will be replaced by one of half the capacity.
\<close>

datatype 'a wpc =
    WIdle
  | PushGrow 'a
  | PushSwap 'a int
  | PushWrite 'a
  | PushStore 'a
  | ReserveGrow nat nat
  | ReserveSwap nat int nat
  | Batch nat
  | PopGo int
  | FifoUndo int
  | LifoLoad
  | LifoCas int "'a option"
  | LifoRestore
  | Shrink
  | ShrinkSwap int

text \<open>Copying the tasks with the indices from \<open>i\<close> to \<open>b - 1\<close>: the loop ends at \<open>i = b\<close> only.\<close>

partial_function (option) copy_tasks :: "'a buffer \<Rightarrow> int \<Rightarrow> int \<Rightarrow> 'a buffer \<Rightarrow> 'a buffer option" where
  "copy_tasks old i b new =
     (if i \<noteq> b then copy_tasks old (i + 1) b (buffer_write new i (buffer_read old i)) else Some new)"

declare copy_tasks.simps [code]

definition resize :: "nat \<Rightarrow> int \<Rightarrow> 'a inner \<Rightarrow> 'a inner option" where
  "resize new_cap f q =
     map_option (\<lambda>new. q\<lparr>q_buffer := length (q_bufs q), q_bufs := q_bufs q @ [new]\<rparr>)
       (copy_tasks (cur q) f (q_back q) (buffer_alloc new_cap))"

text \<open>\<open>reserve\<close>: the capacity is doubled until the batch fits.\<close>

partial_function (option) reserve_cap :: "nat \<Rightarrow> int \<Rightarrow> nat \<Rightarrow> nat option" where
  "reserve_cap new_cap len n =
     (if int new_cap - len < int n then reserve_cap (2 * new_cap) len n else Some new_cap)"

declare reserve_cap.simps [code]

definition reserve :: "nat \<Rightarrow> 'a inner \<Rightarrow> 'a wpc option" where
  "reserve n q =
     (if 0 < n then
        let len = q_back q - q_front q; cap = b_cap (cur q)
        in if int cap - len < int n
           then map_option (\<lambda>new_cap. ReserveGrow new_cap n) (reserve_cap (cap * 2) len n)
           else Some (Batch n)
      else Some (Batch n))"

definition worker_is_empty :: "'a inner \<Rightarrow> bool" where
  "worker_is_empty q \<longleftrightarrow> q_back q - q_front q \<le> 0"

definition queue_len :: "'a inner \<Rightarrow> int" where
  "queue_len q = max (q_back q - q_front q) 0"

text \<open>\<open>push\<close>: the front index is loaded, the task is written, the back index is stored.\<close>

definition push_load :: "'a \<Rightarrow> 'a inner \<Rightarrow> 'a wpc" where
  "push_load task q =
     (let len = q_back q - q_front q in if int (b_cap (cur q)) \<le> len then PushGrow task else PushWrite task)"

definition slot_write :: "int \<Rightarrow> 'a option \<Rightarrow> 'a inner \<Rightarrow> 'a inner" where
  "slot_write i task q = q\<lparr>q_bufs := (q_bufs q)[q_buffer q := buffer_write (cur q) i task]\<rparr>"

definition push_store :: "nat \<Rightarrow> 'a inner \<Rightarrow> 'a inner" where
  "push_store n q = q\<lparr>q_back := q_back q + int n\<rparr>"

text \<open>\<open>pop\<close>: the front index is loaded.\<close>

definition pop_load :: "'a inner \<Rightarrow> 'a wpc" where
  "pop_load q = (let len = q_back q - q_front q in if len \<le> 0 then WIdle else PopGo len)"

text \<open>The last component is the task that is taken, if any.\<close>

definition pop_fifo :: "int \<Rightarrow> 'a inner \<Rightarrow> 'a inner \<times> 'a wpc \<times> 'a option list" where
  "pop_fifo len q =
     (let f = q_front q; new_f = f + 1; q' = q\<lparr>q_front := new_f\<rparr>; cap = b_cap (cur q)
      in if q_back q - new_f < 0 then (q', FifoUndo f, [])
         else (q', if MIN_CAP < cap \<and> len \<le> int cap div 4 then Shrink else WIdle, [buffer_read (cur q) f]))"

definition pop_lifo_store :: "'a inner \<Rightarrow> 'a inner" where
  "pop_lifo_store q = q\<lparr>q_back := q_back q - 1\<rparr>"

definition pop_lifo_load :: "'a inner \<Rightarrow> 'a wpc \<times> 'a option list" where
  "pop_lifo_load q =
     (let b = q_back q; f = q_front q; len = b - f; cap = b_cap (cur q); task = buffer_read (cur q) b
      in if len < 0 then (LifoRestore, [])
         else if len = 0 then (LifoCas f task, [])
         else (if MIN_CAP < cap \<and> len < int cap div 4 then Shrink else WIdle, [task]))"

definition front_cas :: "int \<Rightarrow> 'a option list \<Rightarrow> 'a inner \<Rightarrow> 'a inner \<times> 'a option list" where
  "front_cas f ts q = (if q_front q = f then (q\<lparr>q_front := f + int (length ts)\<rparr>, ts) else (q, []))"

text \<open>
  What the owner does next. \<open>Push\<close>, \<open>Pop\<close> and \<open>Reserve\<close> start an operation; inside of a batch the owner
  writes tasks behind the back index, in any order, and publishes \<open>m\<close> of them or none;
  \<open>Go\<close> continues the operation. The result has the tasks that become visible and the tasks that
  the owner takes.
\<close>

datatype 'a wcmd = Push 'a | Pop | Reserve nat | BatchWrite nat 'a | BatchStore nat | Go

fun owner_go :: "flavor \<Rightarrow> 'a wpc \<Rightarrow> 'a inner \<Rightarrow> ('a inner \<times> 'a wpc \<times> 'a option list \<times> 'a option list) option" where
  "owner_go fl (PushGrow x) q = Some (q, PushSwap x (q_front q), [], [])"
| "owner_go fl (PushSwap x f) q =
     map_option (\<lambda>q'. (q', PushWrite x, [], [])) (resize (2 * b_cap (cur q)) f q)"
| "owner_go fl (PushWrite x) q = Some (slot_write (q_back q) (Some x) q, PushStore x, [], [])"
| "owner_go fl (PushStore x) q = Some (push_store 1 q, WIdle, [Some x], [])"
| "owner_go fl (ReserveGrow c n) q = Some (q, ReserveSwap c (q_front q) n, [], [])"
| "owner_go fl (ReserveSwap c f n) q = map_option (\<lambda>q'. (q', Batch n, [], [])) (resize c f q)"
| "owner_go fl (PopGo len) q =
     (case fl of
        Fifo \<Rightarrow> (case pop_fifo len q of (q', pc, ts) \<Rightarrow> Some (q', pc, [], ts))
      | Lifo \<Rightarrow> Some (pop_lifo_store q, LifoLoad, [], []))"
| "owner_go fl (FifoUndo f) q = Some (q\<lparr>q_front := f\<rparr>, WIdle, [], [])"
| "owner_go fl LifoLoad q = (case pop_lifo_load q of (pc, ts) \<Rightarrow> Some (q, pc, [], ts))"
| "owner_go fl (LifoCas f t) q = (case front_cas f [t] q of (q', ts) \<Rightarrow> Some (q', LifoRestore, [], ts))"
| "owner_go fl LifoRestore q = Some (push_store 1 q, WIdle, [], [])"
| "owner_go fl Shrink q = Some (q, ShrinkSwap (q_front q), [], [])"
| "owner_go fl (ShrinkSwap f) q =
     map_option (\<lambda>q'. (q', WIdle, [], [])) (resize (b_cap (cur q) div 2) f q)"
| "owner_go fl WIdle q = None"
| "owner_go fl (Batch n) q = None"

definition batch_write :: "nat \<Rightarrow> 'a \<Rightarrow> nat \<Rightarrow> 'a inner \<Rightarrow> 'a inner option" where
  "batch_write i x n q = (if i < n then Some (slot_write (q_back q + int i) (Some x) q) else None)"

definition batch_store :: "nat \<Rightarrow> nat \<Rightarrow> 'a inner \<Rightarrow> ('a inner \<times> 'a option list) option" where
  "batch_store m n q =
     (let ts = map (\<lambda>i. buffer_read (cur q) (q_back q + int i)) [0..<m]
      in if m \<le> n \<and> None \<notin> set ts then Some (push_store m q, ts) else None)"

fun wstep :: "flavor \<Rightarrow> 'a wcmd \<Rightarrow> 'a wpc \<Rightarrow> 'a inner \<Rightarrow> ('a inner \<times> 'a wpc \<times> 'a option list \<times> 'a option list) option" where
  "wstep fl (Push x) pc q = (case pc of WIdle \<Rightarrow> Some (q, push_load x q, [], []) | _ \<Rightarrow> None)"
| "wstep fl Pop pc q = (case pc of WIdle \<Rightarrow> Some (q, pop_load q, [], []) | _ \<Rightarrow> None)"
| "wstep fl (Reserve n) pc q =
     (case pc of WIdle \<Rightarrow> map_option (\<lambda>pc. (q, pc, [], [])) (reserve n q) | _ \<Rightarrow> None)"
| "wstep fl (BatchWrite i x) pc q =
     (case pc of Batch n \<Rightarrow> map_option (\<lambda>q'. (q', Batch n, [], [])) (batch_write i x n q) | _ \<Rightarrow> None)"
| "wstep fl (BatchStore m) pc q =
     (case pc of Batch n \<Rightarrow> map_option (\<lambda>(q', ts). (q', WIdle, ts, [])) (batch_store m n q) | _ \<Rightarrow> None)"
| "wstep fl Go pc q = owner_go fl pc q"

section \<open>Stealers\<close>

datatype steal_op = Steal | StealBatch | StealBatchPop

text \<open>
  The points at which a stealer may be interrupted.
  \<^item> \<open>SCheck op f\<close>: the front index has been loaded.
  \<^item> \<open>SBuffer op f n m\<close>: the queue has been found not to be empty; \<open>n\<close> tasks will be taken at once, and up
    to \<open>m\<close> more one after the other.
  \<^item> \<open>SRead op f n m k ts\<close>: the buffer \<open>k\<close> has been loaded and the tasks \<open>ts\<close> have been read from it.
  \<^item> \<open>SCas f m k ts\<close>: the front index will be exchanged, in order to take the tasks \<open>ts\<close>.
  \<^item> \<open>SNext f m k\<close>: up to \<open>m\<close> more tasks, from \<open>f\<close> on; \<open>SNextRead f m k\<close>: the queue has been found not to be empty;
    \<open>SNextCompare f m k t\<close>: the task \<open>t\<close> has been read.
\<close>

datatype 'a spc =
    SIdle
  | SCheck steal_op int
  | SBuffer steal_op int nat nat
  | SRead steal_op int nat nat nat "'a option list"
  | SCas int nat nat "'a option list"
  | SNext int nat nat
  | SNextRead int nat nat
  | SNextCompare int nat nat "'a option"

text \<open>The size of a batch, as tasks that are taken at once and tasks that are taken later.\<close>

definition batch_size :: "steal_op \<Rightarrow> flavor \<Rightarrow> int \<Rightarrow> nat \<times> nat" where
  "batch_size op fl len =
     (case op of
        Steal \<Rightarrow> (1, 0)
      | StealBatch \<Rightarrow>
          let batch_size = min ((nat len + 1) div 2) MAX_BATCH
          in (case fl of Fifo \<Rightarrow> (batch_size, 0) | Lifo \<Rightarrow> (1, batch_size - 1))
      | StealBatchPop \<Rightarrow>
          let batch_size = min ((nat len - 1) div 2) (MAX_BATCH - 1)
          in (case fl of Fifo \<Rightarrow> (batch_size + 1, 0) | Lifo \<Rightarrow> (1, batch_size)))"

definition steal_check :: "flavor \<Rightarrow> steal_op \<Rightarrow> int \<Rightarrow> 'a inner \<Rightarrow> 'a spc" where
  "steal_check fl op f q =
     (let len = q_back q - f
      in if len \<le> 0 then SIdle else case batch_size op fl len of (n, m) \<Rightarrow> SBuffer op f n m)"

definition steal_read :: "int \<Rightarrow> nat \<Rightarrow> 'a option list \<Rightarrow> 'a inner \<Rightarrow> 'a option list" where
  "steal_read f k ts q = ts @ [buffer_read (q_bufs q ! k) (f + int (length ts))]"

text \<open>The buffer is compared, except before the first task of \<open>steal_batch_and_pop\<close> from a LIFO queue.\<close>

definition steal_compare :: "flavor \<Rightarrow> steal_op \<Rightarrow> int \<Rightarrow> nat \<Rightarrow> nat \<Rightarrow> 'a option list \<Rightarrow> 'a inner \<Rightarrow> 'a spc" where
  "steal_compare fl op f m k ts q =
     (if \<not> (op = StealBatchPop \<and> fl = Lifo) \<and> q_buffer q \<noteq> k then SIdle else SCas f m k ts)"

definition next_check :: "int \<Rightarrow> nat \<Rightarrow> nat \<Rightarrow> 'a inner \<Rightarrow> 'a spc" where
  "next_check f m k q = (if m = 0 then SIdle else if q_back q - f \<le> 0 then SIdle else SNextRead f (m - 1) k)"

definition next_compare :: "int \<Rightarrow> nat \<Rightarrow> nat \<Rightarrow> 'a option \<Rightarrow> 'a inner \<Rightarrow> 'a spc" where
  "next_compare f m k t q = (if q_buffer q \<noteq> k then SIdle else SCas f m k [t])"

text \<open>The last component has the tasks that the stealer takes.\<close>

fun sstep :: "flavor \<Rightarrow> steal_op \<Rightarrow> 'a spc \<Rightarrow> 'a inner \<Rightarrow> 'a inner \<times> 'a spc \<times> 'a option list" where
  "sstep fl op SIdle q = (q, SCheck op (q_front q), [])"
| "sstep fl _ (SCheck op f) q = (q, steal_check fl op f q, [])"
| "sstep fl _ (SBuffer op f n m) q = (q, SRead op f n m (q_buffer q) [], [])"
| "sstep fl _ (SRead op f n m k ts) q =
     (q, if length ts < n then SRead op f n m k (steal_read f k ts q) else steal_compare fl op f m k ts q, [])"
| "sstep fl _ (SCas f m k ts) q =
     (case front_cas f ts q of (q', got) \<Rightarrow>
        (q', if q_front q = f then SNext (f + int (length ts)) m k else SIdle, got))"
| "sstep fl _ (SNext f m k) q = (q, next_check f m k q, [])"
| "sstep fl _ (SNextRead f m k) q = (q, SNextCompare f m k (buffer_read (q_bufs q ! k) f), [])"
| "sstep fl _ (SNextCompare f m k t) q = (q, next_compare f m k t q, [])"

section \<open>Where the tasks of a batch go\<close>

text \<open>
  The tasks \<open>ts\<close> that \<open>steal_batch\<close> takes from a queue of flavor \<open>src\<close>, in the order of their indices, are written
  behind the back index of the destination. From a FIFO queue the \<open>i\<close>-th of \<open>n\<close> tasks is written at its place; from a
  LIFO queue the tasks are written in the order in which they are taken, and exchanged afterwards if necessary.
\<close>

definition batch_place :: "flavor \<Rightarrow> nat \<Rightarrow> nat \<Rightarrow> nat" where
  "batch_place dest n i = (case dest of Fifo \<Rightarrow> i | Lifo \<Rightarrow> n - 1 - i)"

fun write_batch :: "(nat \<Rightarrow> nat) \<Rightarrow> int \<Rightarrow> nat \<Rightarrow> 'a option list \<Rightarrow> 'a buffer \<Rightarrow> 'a buffer" where
  "write_batch pl dest_b i [] buf = buf"
| "write_batch pl dest_b i (t # ts) buf = write_batch pl dest_b (i + 1) ts (buffer_write buf (dest_b + int (pl i)) t)"

text \<open>The loop that exchanges the first and the last of the \<open>n\<close> tasks before \<open>dest_b\<close>, and so on: \<open>k\<close> iterations from \<open>i\<close>.\<close>

fun reverse_batch :: "nat \<Rightarrow> nat \<Rightarrow> nat \<Rightarrow> int \<Rightarrow> 'a buffer \<Rightarrow> 'a buffer" where
  "reverse_batch 0 i n dest_b buf = buf"
| "reverse_batch (Suc k) i n dest_b buf =
     (let i1 = dest_b - (int n - int i); i2 = dest_b - (int i + 1);
          t1 = buffer_read buf i1; t2 = buffer_read buf i2
      in reverse_batch k (i + 1) n dest_b (buffer_write (buffer_write buf i1 t2) i2 t1))"

definition deliver :: "flavor \<Rightarrow> flavor \<Rightarrow> int \<Rightarrow> 'a option list \<Rightarrow> 'a buffer \<Rightarrow> 'a buffer" where
  "deliver src dest dest_b ts buf =
     (let n = length ts
      in case src of
           Fifo \<Rightarrow> write_batch (batch_place dest n) dest_b 0 ts buf
         | Lifo \<Rightarrow>
             let buf' = write_batch (\<lambda>i. i) dest_b 0 ts buf
             in if dest = Fifo then reverse_batch (n div 2) 0 n (dest_b + int n) buf' else buf')"

text \<open>\<open>steal_batch_and_pop\<close> returns one of the tasks: the first from a FIFO queue, the last from a LIFO queue.\<close>

definition popped :: "flavor \<Rightarrow> 'a list \<Rightarrow> 'a \<times> 'a list" where
  "popped src ts = (case src of Fifo \<Rightarrow> (hd ts, tl ts) | Lifo \<Rightarrow> (last ts, butlast ts))"

section \<open>Results of steals\<close>

datatype 'a steal = Empty | Success 'a | Retry

definition is_success :: "'a steal \<Rightarrow> bool" where
  "is_success s = (case s of Success _ \<Rightarrow> True | _ \<Rightarrow> False)"

definition success :: "'a steal \<Rightarrow> 'a option" where
  "success s = (case s of Success res \<Rightarrow> Some res | _ \<Rightarrow> None)"

definition or_else :: "'a steal \<Rightarrow> (unit \<Rightarrow> 'a steal) \<Rightarrow> 'a steal" where
  "or_else s f =
     (case s of
        Empty \<Rightarrow> f ()
      | Success _ \<Rightarrow> s
      | Retry \<Rightarrow> (case f () of Success res \<Rightarrow> Success res | _ \<Rightarrow> Retry))"

fun from_iter_loop :: "bool \<Rightarrow> 'a steal list \<Rightarrow> 'a steal" where
  "from_iter_loop retry [] = (if retry then Retry else Empty)"
| "from_iter_loop retry (s # iter) =
     (case s of Empty \<Rightarrow> from_iter_loop retry iter | Success _ \<Rightarrow> s | Retry \<Rightarrow> from_iter_loop True iter)"

definition from_iter :: "'a steal list \<Rightarrow> 'a steal" where
  "from_iter iter = from_iter_loop False iter"

section \<open>Interleaving\<close>

text \<open>The queue with its owner, its stealers, and the tasks that became visible and were taken so far.\<close>

record 'a sys =
  s_queue :: "'a inner"
  s_owner :: "'a wpc"
  s_stealers :: "nat \<Rightarrow> 'a spc"
  s_pushed :: "'a option list"
  s_taken :: "'a option list"

definition new_sys :: "'a sys" where
  "new_sys = \<lparr>s_queue = new_inner, s_owner = WIdle, s_stealers = (\<lambda>_. SIdle), s_pushed = [], s_taken = []\<rparr>"

inductive step :: "flavor \<Rightarrow> 'a sys \<Rightarrow> 'a sys \<Rightarrow> bool" for fl where
  owner: "wstep fl c (s_owner s) (s_queue s) = Some (q, pc, ps, ts) \<Longrightarrow>
    step fl s (s\<lparr>s_queue := q, s_owner := pc, s_pushed := s_pushed s @ ps, s_taken := s_taken s @ ts\<rparr>)"
| stealer: "sstep fl op (s_stealers s i) (s_queue s) = (q, pc, ts) \<Longrightarrow>
    step fl s (s\<lparr>s_queue := q, s_stealers := (s_stealers s)(i := pc), s_taken := s_taken s @ ts\<rparr>)"

inductive reachable :: "flavor \<Rightarrow> 'a sys \<Rightarrow> bool" for fl where
  init: "reachable fl new_sys"
| more: "reachable fl s \<Longrightarrow> step fl s s' \<Longrightarrow> reachable fl s'"

text \<open>One interleaving, as a list of the threads that take a step.\<close>

datatype 'a turn = Owner "'a wcmd" | Stealer nat steal_op

fun schedule :: "flavor \<Rightarrow> 'a turn list \<Rightarrow> 'a sys \<Rightarrow> 'a sys option" where
  "schedule fl [] s = Some s"
| "schedule fl (Owner c # sched) s =
     (case wstep fl c (s_owner s) (s_queue s) of
        None \<Rightarrow> None
      | Some (q, pc, ps, ts) \<Rightarrow>
          schedule fl sched (s\<lparr>s_queue := q, s_owner := pc, s_pushed := s_pushed s @ ps, s_taken := s_taken s @ ts\<rparr>))"
| "schedule fl (Stealer i op # sched) s =
     (case sstep fl op (s_stealers s i) (s_queue s) of (q, pc, ts) \<Rightarrow>
        schedule fl sched (s\<lparr>s_queue := q, s_stealers := (s_stealers s)(i := pc), s_taken := s_taken s @ ts\<rparr>))"

lemma schedule_reachable: "reachable fl s \<Longrightarrow> schedule fl sched s = Some s' \<Longrightarrow> reachable fl s'"
proof (induction sched arbitrary: s)
  case (Cons t sched)
  note next_step = reachable.more [OF Cons.prems(1)]
  show ?case
    using Cons.prems(2) Cons.IH [OF next_step [OF step.owner]] Cons.IH [OF next_step [OF step.stealer]]
    by (cases t) (auto split: option.splits prod.splits)
qed simp

end
