(* ===== verification/Deque_Inv.thy ===== *)
theory Deque_Inv
  imports Deque
begin

text \<open>
  The invariant of the work-stealing queue of theory \<open>Deque\<close>, and what it gives for every
  interleaving of the owner and the stealers.
\<close>

section \<open>Buffers\<close>

lemma buffer_write_cap [simp]: "b_cap (buffer_write buf i t) = b_cap buf"
  by (simp add: buffer_write_def)

lemma buffer_alloc_cap [simp]: "b_cap (buffer_alloc c) = c"
  by (simp add: buffer_alloc_def)

lemma buffer_read_write_same [simp]: "buffer_read (buffer_write buf i t) i = t"
  by (simp add: buffer_read_def buffer_write_def buffer_at_def)

lemma mod_eq_close:
  fixes i j c :: int
  assumes "i mod c = j mod c" "i < j + c" "j < i + c"
  shows "i = j"
proof -
  obtain k where k: "i - j = c * k" using assms(1) by (auto simp: mod_eq_dvd_iff dvd_def)
  have "0 < c" using assms(2,3) by linarith
  have "c * k < c * 1" "c * (- 1) < c * k" using k assms(2,3) by linarith+
  then have "k < 1" "- 1 < k" using mult_less_cancel_left_pos [OF \<open>0 < c\<close>] by blast+
  then have "k = 0" by linarith
  then show ?thesis using k by simp
qed

lemma buffer_read_write_other:
  assumes "i \<noteq> j" "i < j + int (b_cap buf)" "j < i + int (b_cap buf)"
  shows "buffer_read (buffer_write buf j t) i = buffer_read buf i"
  using assms mod_eq_close [of i "int (b_cap buf)" j]
  by (auto simp: buffer_read_def buffer_write_def buffer_at_def)

lemma copy_tasks_correct:
  assumes "i \<le> b" "b - f \<le> int (b_cap new)" "f \<le> i"
    and "\<And>j. f \<le> j \<Longrightarrow> j < i \<Longrightarrow> buffer_read new j = buffer_read old j"
  shows "\<exists>new'. copy_tasks old i b new = Some new' \<and> b_cap new' = b_cap new
    \<and> (\<forall>j. f \<le> j \<and> j < b \<longrightarrow> buffer_read new' j = buffer_read old j)"
  using assms
proof (induction "nat (b - i)" arbitrary: i new)
  case 0
  then show ?case by (subst copy_tasks.simps) auto
next
  case (Suc n)
  let ?new = "buffer_write new i (buffer_read old i)"
  have "\<exists>new'. copy_tasks old (i + 1) b ?new = Some new' \<and> b_cap new' = b_cap ?new
    \<and> (\<forall>j. f \<le> j \<and> j < b \<longrightarrow> buffer_read new' j = buffer_read old j)"
  proof (rule Suc.hyps(1))
    fix j assume "f \<le> j" "j < i + 1"
    then show "buffer_read ?new j = buffer_read old j"
      using Suc.prems Suc.hyps(2) by (cases "j = i") (auto simp: buffer_read_write_other)
  qed (use Suc in auto)
  moreover have "i \<noteq> b" using Suc.hyps(2) by auto
  ultimately show ?case by (subst copy_tasks.simps) simp
qed

text \<open>With a capacity of a power of two, the slot is the low bits of the index.\<close>

lemma buffer_at_and: "b_cap buf = 2 ^ k \<Longrightarrow> buffer_at buf i = take_bit k i"
  by (simp add: buffer_at_def take_bit_eq_mod)

section \<open>The contents of the queue\<close>

definition content :: "'a inner \<Rightarrow> int \<Rightarrow> 'a option" where
  "content q i = buffer_read (cur q) i"

lemma cur_index_update [simp]: "cur (q\<lparr>q_front := f\<rparr>) = cur q" "cur (q\<lparr>q_back := b\<rparr>) = cur q"
  by (simp_all add: cur_def)

lemma content_index_update [simp]: "content (q\<lparr>q_front := f\<rparr>) = content q" "content (q\<lparr>q_back := b\<rparr>) = content q"
  by (simp_all add: content_def fun_eq_iff)

text \<open>During a pop from a LIFO queue the last task still belongs to the queue while it is undecided who gets it.\<close>

fun lifo_pending :: "'a wpc \<Rightarrow> int" where
  "lifo_pending LifoLoad = 1"
| "lifo_pending (LifoCas f t) = 1"
| "lifo_pending LifoRestore = 1"
| "lifo_pending _ = 0"

definition bk :: "'a inner \<Rightarrow> 'a wpc \<Rightarrow> int" where
  "bk q pc = q_back q + lifo_pending pc"

definition contents :: "'a inner \<Rightarrow> 'a wpc \<Rightarrow> 'a option list" where
  "contents q pc = map (content q) [q_front q..bk q pc - 1]"

definition queue_inv :: "'a inner \<Rightarrow> 'a wpc \<Rightarrow> bool" where
  "queue_inv q pc \<longleftrightarrow> q_buffer q < length (q_bufs q) \<and> 0 < b_cap (cur q)
     \<and> bk q pc - q_front q \<le> int (b_cap (cur q))
     \<and> (\<forall>i. q_front q \<le> i \<and> i < bk q pc \<longrightarrow> content q i \<noteq> None)"

text \<open>What holds at the points of the owner.\<close>

fun owner_inv :: "flavor \<Rightarrow> 'a inner \<Rightarrow> 'a wpc \<Rightarrow> bool" where
  "owner_inv fl q WIdle \<longleftrightarrow> q_front q \<le> q_back q"
| "owner_inv fl q (PushGrow x) \<longleftrightarrow> q_front q \<le> q_back q"
| "owner_inv fl q (PushSwap x f) \<longleftrightarrow> f \<le> q_front q \<and> q_front q \<le> q_back q \<and> q_back q - f \<le> int (b_cap (cur q))"
| "owner_inv fl q (PushWrite x) \<longleftrightarrow> q_front q \<le> q_back q \<and> q_back q - q_front q < int (b_cap (cur q))"
| "owner_inv fl q (PushStore x) \<longleftrightarrow> q_front q \<le> q_back q \<and> q_back q - q_front q < int (b_cap (cur q))
     \<and> content q (q_back q) = Some x"
| "owner_inv fl q (ReserveGrow c n) \<longleftrightarrow> q_front q \<le> q_back q \<and> 0 < c \<and> q_back q - q_front q + int n \<le> int c"
| "owner_inv fl q (ReserveSwap c f n) \<longleftrightarrow> f \<le> q_front q \<and> q_front q \<le> q_back q \<and> 0 < c \<and> q_back q - f + int n \<le> int c"
| "owner_inv fl q (Batch n) \<longleftrightarrow> q_front q \<le> q_back q \<and> q_back q - q_front q + int n \<le> int (b_cap (cur q))"
| "owner_inv fl q (PopGo len) \<longleftrightarrow> q_front q \<le> q_back q \<and> q_back q - q_front q \<le> len"
| "owner_inv fl q (FifoUndo f) \<longleftrightarrow> fl = Fifo \<and> q_front q = f + 1 \<and> f = q_back q"
| "owner_inv fl q LifoLoad \<longleftrightarrow> fl = Lifo \<and> q_front q \<le> q_back q + 1"
| "owner_inv fl q (LifoCas f t) \<longleftrightarrow> fl = Lifo \<and> f = q_back q \<and> q_back q \<le> q_front q \<and> q_front q \<le> q_back q + 1
     \<and> t = content q (q_back q)"
| "owner_inv fl q LifoRestore \<longleftrightarrow> fl = Lifo \<and> q_front q = q_back q + 1"
| "owner_inv fl q Shrink \<longleftrightarrow> q_front q \<le> q_back q \<and> 1 < b_cap (cur q) \<and> q_back q - q_front q \<le> int (b_cap (cur q) div 2)"
| "owner_inv fl q (ShrinkSwap f) \<longleftrightarrow> f \<le> q_front q \<and> q_front q \<le> q_back q \<and> 1 < b_cap (cur q)
     \<and> q_back q - f \<le> int (b_cap (cur q) div 2)"

text \<open>
  A stealer that will take the \<open>n\<close> tasks from \<open>f\<close> on: a FIFO queue has these indices or had them;
  a LIFO queue has \<open>f\<close> as long as its front index is \<open>f\<close>.
\<close>

definition claim :: "flavor \<Rightarrow> 'a inner \<Rightarrow> 'a wpc \<Rightarrow> int \<Rightarrow> nat \<Rightarrow> bool" where
  "claim fl q pc f n \<longleftrightarrow> 1 \<le> n \<and>
     (case fl of Fifo \<Rightarrow> f + int n \<le> q_back q
      | Lifo \<Rightarrow> n = 1 \<and> f \<le> q_front q \<and> (q_front q = f \<longrightarrow> f < bk q pc))"

definition reads :: "'a inner \<Rightarrow> int \<Rightarrow> 'a option list \<Rightarrow> bool" where
  "reads q f ts \<longleftrightarrow> (\<forall>j<length ts. q_front q \<le> f + int j \<longrightarrow> ts ! j = content q (f + int j))"

fun stealer_inv :: "flavor \<Rightarrow> 'a inner \<Rightarrow> 'a wpc \<Rightarrow> 'a spc \<Rightarrow> bool" where
  "stealer_inv fl q pc SIdle \<longleftrightarrow> True"
| "stealer_inv fl q pc (SCheck op f) \<longleftrightarrow> (fl = Lifo \<longrightarrow> f \<le> q_front q)"
| "stealer_inv fl q pc (SBuffer op f n m) \<longleftrightarrow> claim fl q pc f n \<and> (fl = Fifo \<longrightarrow> m = 0)"
| "stealer_inv fl q pc (SRead op f n m k ts) \<longleftrightarrow> claim fl q pc f n \<and> (fl = Fifo \<longrightarrow> m = 0) \<and> k < length (q_bufs q)
     \<and> length ts \<le> n \<and> reads q f ts
     \<and> (\<forall>j<n. q_front q \<le> f + int j \<longrightarrow> buffer_read (q_bufs q ! k) (f + int j) = content q (f + int j))"
| "stealer_inv fl q pc (SCas f m k ts) \<longleftrightarrow> claim fl q pc f (length ts) \<and> (fl = Fifo \<longrightarrow> m = 0) \<and> k < length (q_bufs q)
     \<and> reads q f ts"
| "stealer_inv fl q pc (SNext f m k) \<longleftrightarrow> (fl = Lifo \<longrightarrow> f \<le> q_front q) \<and> (fl = Fifo \<longrightarrow> m = 0) \<and> k < length (q_bufs q)"
| "stealer_inv fl q pc (SNextRead f m k) \<longleftrightarrow> fl = Lifo \<and> claim fl q pc f 1 \<and> k < length (q_bufs q)"
| "stealer_inv fl q pc (SNextCompare f m k t) \<longleftrightarrow> fl = Lifo \<and> claim fl q pc f 1 \<and> k < length (q_bufs q)
     \<and> (k = q_buffer q \<longrightarrow> q_front q \<le> f \<longrightarrow> t = content q f)"

text \<open>How the queue may change under a stealer.\<close>

definition evolve :: "flavor \<Rightarrow> 'a inner \<Rightarrow> 'a wpc \<Rightarrow> 'a inner \<Rightarrow> 'a wpc \<Rightarrow> bool" where
  "evolve fl q pc q' pc' \<longleftrightarrow>
     length (q_bufs q) \<le> length (q_bufs q')
     \<and> (q_buffer q' = q_buffer q \<or> length (q_bufs q) \<le> q_buffer q')
     \<and> (fl = Fifo \<longrightarrow> q_back q \<le> q_back q')
     \<and> (fl = Lifo \<longrightarrow> q_front q \<le> q_front q' \<and> (q_front q' = q_front q \<longrightarrow> q_front q < bk q pc \<longrightarrow> q_front q < bk q' pc'))
     \<and> (\<forall>i. q_front q' \<le> i \<and> i < bk q pc \<longrightarrow> q_front q \<le> i \<and> content q' i = content q i
          \<and> (\<forall>k<length (q_bufs q). buffer_read (q_bufs q' ! k) i = buffer_read (q_bufs q ! k) i))"

lemma bk_le: "q_back q \<le> bk q pc"
  by (cases pc) (auto simp: bk_def)

lemma claim_bk: "claim fl q pc f n \<Longrightarrow> q_front q \<le> f + int j \<Longrightarrow> j < n \<Longrightarrow> f + int j < bk q pc"
  using bk_le [of q pc] by (auto simp: claim_def split: flavor.splits)

lemma claim_evolve: "claim fl q pc f n \<Longrightarrow> evolve fl q pc q' pc' \<Longrightarrow> claim fl q' pc' f n"
  by (auto simp: claim_def evolve_def split: flavor.splits)

lemma claim_front:
  assumes "claim fl q pc f n" "evolve fl q pc q' pc'" "q_front q' \<le> f + int j" "j < n"
  shows "q_front q \<le> f + int j" "f + int j < bk q pc"
proof -
  have "f + int j < bk q pc"
  proof (cases fl)
    case Fifo
    then show ?thesis using assms bk_le [of q pc] by (simp add: claim_def)
  next
    case Lifo
    then have "q_front q \<le> f + int j" using assms by (simp add: evolve_def)
    then show ?thesis using assms(1,4) claim_bk by blast
  qed
  then show "f + int j < bk q pc" "q_front q \<le> f + int j" using assms by (auto simp: evolve_def)
qed

lemma reads_evolve:
  assumes "reads q f ts" "claim fl q pc f n" "length ts \<le> n" "evolve fl q pc q' pc'"
  shows "reads q' f ts"
  unfolding reads_def
proof (intro allI impI)
  fix j assume "j < length ts" "q_front q' \<le> f + int j"
  then show "ts ! j = content q' (f + int j)"
    using claim_front [OF assms(2,4)] assms by (simp add: reads_def evolve_def)
qed

lemma stealer_inv_evolve:
  assumes "stealer_inv fl q pc s" "evolve fl q pc q' pc'"
  shows "stealer_inv fl q' pc' s"
proof -
  have len: "k < length (q_bufs q) \<Longrightarrow> k < length (q_bufs q')" for k using assms(2) by (simp add: evolve_def)
  have front: "fl = Lifo \<Longrightarrow> q_front q \<le> q_front q'" using assms(2) by (simp add: evolve_def)
  note ev = claim_evolve [OF _ assms(2)] reads_evolve [OF _ _ _ assms(2)] claim_front [OF _ assms(2)]
  show ?thesis
  proof (cases s)
    case (SRead op f n m k ts)
    then have cl: "claim fl q pc f n" and rd: "reads q f ts" "length ts \<le> n" and k: "k < length (q_bufs q)"
      and rest: "\<And>j. j < n \<Longrightarrow> q_front q \<le> f + int j \<Longrightarrow> buffer_read (q_bufs q ! k) (f + int j) = content q (f + int j)"
      using assms(1) by auto
    have "buffer_read (q_bufs q' ! k) (f + int j) = content q' (f + int j)" if "j < n" "q_front q' \<le> f + int j" for j
      using ev(3,4) [OF cl that(2,1)] rest [of j] k that assms(2) by (simp add: evolve_def)
    then show ?thesis using ev(1) [OF cl] ev(2) [OF rd(1) cl rd(2)] assms(1) len [OF k] SRead by simp
  next
    case (SNextCompare f m k t)
    then have cl: "claim fl q pc f 1" and k: "k < length (q_bufs q)" and "k = q_buffer q \<Longrightarrow> q_front q \<le> f \<Longrightarrow> t = content q f"
      using assms(1) by auto
    then have "t = content q' f" if "k = q_buffer q'" "q_front q' \<le> f"
      using ev(3,4) [OF cl, of 0] that assms(2) by (auto simp: evolve_def)
    then show ?thesis using ev(1) [OF cl] assms(1) len [OF k] SNextCompare by simp
  next
    case (SCas f m k ts)
    then show ?thesis using assms(1) ev(1) ev(2) [of f ts "length ts"] len by simp
  next
    case (SCheck op f)
    then show ?thesis using assms(1) front by auto
  next
    case (SNext f m k)
    then show ?thesis using assms(1) front len by auto
  qed (use assms(1) ev(1) len in auto)
qed

section \<open>Steps of the owner\<close>

text \<open>An owner's step appends tasks to the queue, or takes tasks from the front (FIFO) or from the back (LIFO).\<close>

definition owner_effect :: "flavor \<Rightarrow> 'a option list \<Rightarrow> 'a option list \<Rightarrow> 'a option list \<Rightarrow> 'a option list \<Rightarrow> bool" where
  "owner_effect fl L ps ts L' \<longleftrightarrow>
     ts = [] \<and> L' = L @ ps \<or> ps = [] \<and> (case fl of Fifo \<Rightarrow> L = ts @ L' | Lifo \<Rightarrow> L = L' @ ts)"

definition owner_ok :: "flavor \<Rightarrow> 'a inner \<Rightarrow> 'a wpc \<Rightarrow> 'a inner \<Rightarrow> 'a wpc \<Rightarrow> 'a option list \<Rightarrow> 'a option list \<Rightarrow> bool" where
  "owner_ok fl q pc q' pc' ps ts \<longleftrightarrow> queue_inv q' pc' \<and> owner_inv fl q' pc' \<and> evolve fl q pc q' pc'
     \<and> owner_effect fl (contents q pc) ps ts (contents q' pc')"

lemma owner_effect_id [simp]: "owner_effect fl L [] [] L"
  by (simp add: owner_effect_def)

lemma contents_cong:
  assumes "q_front q' = q_front q" "bk q' pc' = bk q pc"
    and "\<And>i. q_front q \<le> i \<Longrightarrow> i < bk q pc \<Longrightarrow> content q' i = content q i"
  shows "contents q' pc' = contents q pc"
  using assms by (simp add: contents_def)

text \<open>Steps that only move on.\<close>

lemma owner_ok_refl:
  assumes "queue_inv q pc" "lifo_pending pc' = lifo_pending pc" "owner_inv fl q pc'"
  shows "owner_ok fl q pc q pc' [] []"
proof -
  have "bk q pc' = bk q pc" using assms(2) by (simp add: bk_def)
  then show ?thesis using assms by (auto simp: owner_ok_def queue_inv_def evolve_def contents_def)
qed

text \<open>Replacing the buffer.\<close>

lemma resize_correct:
  assumes "queue_inv q pc" "lifo_pending pc = 0" "f \<le> q_front q" "q_front q \<le> q_back q" "q_back q - f \<le> int c" "0 < c"
  obtains q' where "resize c f q = Some q'" "q_front q' = q_front q" "q_back q' = q_back q" "b_cap (cur q') = c"
    "\<And>pc' ps. lifo_pending pc' = 0 \<Longrightarrow> owner_inv fl q' pc' \<Longrightarrow> owner_ok fl q pc q' pc' [] []"
proof -
  obtain new where new: "copy_tasks (cur q) f (q_back q) (buffer_alloc c) = Some new" "b_cap new = c"
    "\<And>j. f \<le> j \<Longrightarrow> j < q_back q \<Longrightarrow> buffer_read new j = buffer_read (cur q) j"
    using copy_tasks_correct [of f "q_back q" f "buffer_alloc c" "cur q"] assms by auto
  define q' where "q' = q\<lparr>q_buffer := length (q_bufs q), q_bufs := q_bufs q @ [new]\<rparr>"
  have sel: "q_front q' = q_front q" "q_back q' = q_back q" "cur q' = new" "q_buffer q' = length (q_bufs q)"
    "q_bufs q' = q_bufs q @ [new]"
    by (simp_all add: q'_def cur_def)
  have same: "content q' i = content q i" if "q_front q \<le> i" "i < q_back q" for i
    using new(3) [of i] that assms(3) by (simp add: content_def sel)
  show thesis
  proof (rule that)
    show "resize c f q = Some q'" by (simp add: resize_def new q'_def)
    show "b_cap (cur q') = c" using sel new by simp
    fix pc' assume pc': "lifo_pending pc' = 0" "owner_inv fl q' pc'"
    have bk: "bk q pc = q_back q" "bk q' pc' = q_back q" using assms(2) pc' by (simp_all add: bk_def sel)
    have "queue_inv q' pc'"
      using assms same by (auto simp: queue_inv_def bk sel new)
    moreover have "evolve fl q pc q' pc'"
      using same by (auto simp: evolve_def bk sel nth_append)
    moreover have "contents q' pc' = contents q pc"
      by (rule contents_cong) (auto simp: bk sel same)
    ultimately show "owner_ok fl q pc q' pc' [] []" using pc' by (simp add: owner_ok_def)
  qed (simp_all add: sel)
qed

text \<open>Writing a slot behind the back index.\<close>

lemma slot_write_correct:
  assumes "queue_inv q pc" "lifo_pending pc = 0" "q_back q \<le> i" "i - q_front q < int (b_cap (cur q))"
    and "q' = slot_write i t q" "lifo_pending pc' = 0" "owner_inv fl q' pc'"
  shows "owner_ok fl q pc q' pc' [] []"
proof -
  have len: "q_buffer q < length (q_bufs q)" using assms(1) by (simp add: queue_inv_def)
  have sel: "q_front q' = q_front q" "q_back q' = q_back q" "q_buffer q' = q_buffer q" "length (q_bufs q') = length (q_bufs q)"
    "cur q' = buffer_write (cur q) i t" "q_bufs q' = (q_bufs q)[q_buffer q := buffer_write (cur q) i t]"
    using len by (simp_all add: assms(5) slot_write_def cur_def)
  have rd: "buffer_read (buffer_write (cur q) i t) j = buffer_read (cur q) j" if "q_front q \<le> j" "j < q_back q" for j
    using that assms(3,4) by (intro buffer_read_write_other) auto
  then have same: "content q' j = content q j" if "q_front q \<le> j" "j < q_back q" for j
    using that by (simp add: content_def sel)
  have old: "buffer_read (q_bufs q' ! k) j = buffer_read (q_bufs q ! k) j"
    if "q_front q \<le> j" "j < q_back q" "k < length (q_bufs q)" for j k
    using rd [OF that(1,2)] that(3) by (cases "k = q_buffer q") (simp_all add: sel cur_def)
  have bk: "bk q pc = q_back q" "bk q' pc' = q_back q" using assms(2,6) by (simp_all add: bk_def sel)
  have "queue_inv q' pc'" using assms(1) same by (auto simp: queue_inv_def bk sel)
  moreover have "evolve fl q pc q' pc'" using same old by (auto simp: evolve_def bk sel)
  moreover have "contents q' pc' = contents q pc" by (rule contents_cong) (auto simp: bk sel same)
  ultimately show ?thesis using assms(7) by (simp add: owner_ok_def)
qed

text \<open>Making tasks visible.\<close>

lemma upto_append: "a \<le> b \<Longrightarrow> b \<le> c \<Longrightarrow> [a..c - 1] = [a..b - 1] @ [b..c - (1::int)]"
  using upto_split2 [of a "b - 1" "c - 1"] by (cases "a = b") auto

lemma upto_nat: "[b..b + int n - 1] = map (\<lambda>i. b + int i) [0..<n]"
  by (induction n) (simp_all add: upto_rec2)

lemma push_store_correct:
  assumes "queue_inv q pc" "lifo_pending pc = 0" "q_front q \<le> q_back q" "q_back q - q_front q + int n \<le> int (b_cap (cur q))"
    and "ps = map (\<lambda>i. content q (q_back q + int i)) [0..<n]" "None \<notin> set ps"
  shows "owner_ok fl q pc (push_store n q) WIdle ps []"
proof -
  let ?q = "push_store n q"
  have sel: "q_front ?q = q_front q" "q_back ?q = q_back q + int n" "q_buffer ?q = q_buffer q" "q_bufs ?q = q_bufs q" "cur ?q = cur q"
    "content ?q = content q"
    by (simp_all add: push_store_def cur_def content_def fun_eq_iff)
  have bk: "bk q pc = q_back q" "bk ?q WIdle = q_back q + int n" using assms(2) by (simp_all add: bk_def sel)
  have new: "content q i \<noteq> None" if "q_back q \<le> i" "i < q_back q + int n" for i
  proof -
    define k where "k = nat (i - q_back q)"
    then have "k < n" "q_back q + int k = i" using that by simp_all
    then have "k < length ps" "ps ! k = content q i" by (simp_all add: assms(5))
    then have "content q i \<in> set ps" by (metis nth_mem)
    then show ?thesis using assms(6) by metis
  qed
  have "content q i \<noteq> None" if "q_front q \<le> i" "i < q_back q + int n" for i
    using new that assms(1) by (cases "i < q_back q") (auto simp: queue_inv_def bk)
  then have "queue_inv ?q WIdle" using assms by (auto simp: queue_inv_def bk sel)
  moreover have "evolve fl q pc ?q WIdle" by (auto simp: evolve_def bk sel)
  moreover have "contents ?q WIdle = contents q pc @ ps"
    using upto_append [of "q_front q" "q_back q" "q_back q + int n"] assms(3)
    by (simp add: contents_def bk sel assms(5) upto_nat)
  ultimately show ?thesis using assms(3) by (simp add: owner_ok_def sel owner_effect_def)
qed

text \<open>Taking a task.\<close>

lemma pop_fifo_correct:
  assumes "queue_inv q (PopGo len)" "owner_inv Fifo q (PopGo len)" "pop_fifo len q = (q', pc', ts)"
  shows "owner_ok Fifo q (PopGo len) q' pc' [] ts"
proof (cases "q_front q = q_back q")
  case True
  then have "q' = q\<lparr>q_front := q_front q + 1\<rparr>" "pc' = FifoUndo (q_front q)" "ts = []"
    using assms(3) by (simp_all add: pop_fifo_def Let_def)
  then show ?thesis using assms(1,2) True
    by (auto simp: owner_ok_def queue_inv_def bk_def evolve_def contents_def)
next
  case False
  then have "q_front q + 1 \<le> q_back q" using assms(2) by simp
  then have q': "q' = q\<lparr>q_front := q_front q + 1\<rparr>" and ts: "ts = [content q (q_front q)]"
    and pc': "pc' = (if MIN_CAP < b_cap (cur q) \<and> len \<le> int (b_cap (cur q)) div 4 then Shrink else WIdle)"
    using assms(3) by (simp_all add: pop_fifo_def Let_def content_def)
  have bk: "bk q (PopGo len) = q_back q" "bk q' pc' = q_back q" by (simp_all add: bk_def q' pc')
  have sel: "q_front q' = q_front q + 1" "q_back q' = q_back q" "cur q' = cur q" "content q' = content q" "q_bufs q' = q_bufs q"
    "q_buffer q' = q_buffer q"
    by (simp_all add: q' cur_def content_def fun_eq_iff)
  have "contents q (PopGo len) = ts @ contents q' pc'"
    using upto_rec1 [of "q_front q" "q_back q - 1"] \<open>q_front q + 1 \<le> q_back q\<close> by (simp add: contents_def bk sel ts)
  moreover have "queue_inv q' pc'" using assms(1) by (auto simp: queue_inv_def bk sel)
  moreover have "owner_inv Fifo q' pc'"
    using assms(2) \<open>q_front q + 1 \<le> q_back q\<close> by (auto simp: pc' sel MIN_CAP_def)
  ultimately show ?thesis by (simp add: owner_ok_def owner_effect_def evolve_def bk sel)
qed

lemma pop_lifo_store_correct:
  assumes "queue_inv q (PopGo len)" "owner_inv Lifo q (PopGo len)"
  shows "owner_ok Lifo q (PopGo len) (pop_lifo_store q) LifoLoad [] []"
  using assms by (auto simp: owner_ok_def queue_inv_def bk_def evolve_def contents_def pop_lifo_store_def)

lemma pop_lifo_load_correct:
  assumes "queue_inv q LifoLoad" "owner_inv fl q LifoLoad" "pop_lifo_load q = (pc', ts)"
  shows "owner_ok fl q LifoLoad q pc' [] ts"
proof (cases "q_front q < q_back q")
  case False
  then show ?thesis using assms
    by (intro owner_ok_refl [THEN back_subst [of "\<lambda>ts. owner_ok fl q LifoLoad q pc' [] ts"]])
      (auto simp: pop_lifo_load_def Let_def content_def split: if_splits)
next
  case True
  then have ts: "ts = [content q (q_back q)]"
    and pc': "pc' = (if MIN_CAP < b_cap (cur q) \<and> q_back q - q_front q < int (b_cap (cur q)) div 4 then Shrink else WIdle)"
    using assms(3) by (simp_all add: pop_lifo_load_def Let_def content_def)
  have bk: "bk q LifoLoad = q_back q + 1" "bk q pc' = q_back q" by (simp_all add: bk_def pc')
  have "contents q LifoLoad = contents q pc' @ ts"
    using upto_rec2 [of "q_front q" "q_back q"] True by (simp add: contents_def bk ts)
  moreover have "owner_inv fl q pc'" using True by (auto simp: pc' MIN_CAP_def)
  moreover have "fl = Lifo" using assms(2) by simp
  ultimately show ?thesis using assms(1) True
    by (auto simp: owner_ok_def owner_effect_def evolve_def queue_inv_def bk)
qed

text \<open>Exchanging the front index.\<close>

lemma front_cas_contents:
  assumes "queue_inv q pc" "q_front q = f" "reads q f ts" "f + int (length ts) \<le> bk q pc"
  shows "contents q pc = ts @ contents (q\<lparr>q_front := f + int (length ts)\<rparr>) pc"
proof -
  let ?n = "length ts"
  have "ts = map (\<lambda>i. content q (f + int i)) [0..<?n]"
    using assms(2,3) by (auto simp: reads_def intro: nth_equalityI)
  then have "map (content q) [f..f + int ?n - 1] = ts" by (simp add: upto_nat comp_def)
  then show ?thesis using upto_append [of f "f + int ?n" "bk q pc"] assms
    by (simp add: contents_def bk_def)
qed

lemma front_advance:
  assumes "queue_inv q pc" "q_front q \<le> f" "f \<le> bk q pc" "q_front q < f" "owner_inv fl q pc"
  shows "queue_inv (q\<lparr>q_front := f\<rparr>) pc" "evolve fl q pc (q\<lparr>q_front := f\<rparr>) pc" "owner_inv fl (q\<lparr>q_front := f\<rparr>) pc"
proof -
  show "queue_inv (q\<lparr>q_front := f\<rparr>) pc" "evolve fl q pc (q\<lparr>q_front := f\<rparr>) pc"
    using assms by (auto simp: queue_inv_def evolve_def bk_def)
  show "owner_inv fl (q\<lparr>q_front := f\<rparr>) pc"
    using assms by (cases pc) (auto simp: bk_def)
qed

lemma lifo_cas_correct:
  assumes "queue_inv q (LifoCas f t)" "owner_inv fl q (LifoCas f t)" "front_cas f [t] q = (q', ts)"
  shows "owner_ok fl q (LifoCas f t) q' LifoRestore [] ts"
proof (cases "q_front q = f")
  case True
  then have q': "q' = q\<lparr>q_front := f + 1\<rparr>" "ts = [t]" using assms(3) by (simp_all add: front_cas_def)
  have "reads q f [t]" "f + 1 \<le> bk q (LifoCas f t)" using assms(2) True by (auto simp: reads_def bk_def)
  then have "contents q (LifoCas f t) = [t] @ contents q' (LifoCas f t)"
    using front_cas_contents [OF assms(1) True, of "[t]"] by (simp add: q')
  moreover have "contents q' (LifoCas f t) = []" "contents q' LifoRestore = []"
    using assms(2) True by (simp_all add: contents_def bk_def q')
  ultimately show ?thesis using assms(1,2) True
    by (auto simp: owner_ok_def queue_inv_def evolve_def bk_def q' owner_effect_def split: flavor.splits)
next
  case False
  then have "q' = q" "ts = []" using assms(3) by (simp_all add: front_cas_def)
  then show ?thesis using owner_ok_refl [OF assms(1), of LifoRestore fl] assms(2) False by auto
qed

lemma push_store_pc_correct:
  assumes "queue_inv q (PushStore x)" "owner_inv fl q (PushStore x)"
  shows "owner_ok fl q (PushStore x) (push_store 1 q) WIdle [Some x] []"
  using assms by (intro push_store_correct) auto

lemma lifo_restore_correct:
  assumes "queue_inv q LifoRestore" "owner_inv fl q LifoRestore"
  shows "owner_ok fl q LifoRestore (push_store 1 q) WIdle [] []"
  using assms by (auto simp: owner_ok_def queue_inv_def bk_def evolve_def contents_def push_store_def)

lemma fifo_undo_correct:
  assumes "queue_inv q (FifoUndo f)" "owner_inv fl q (FifoUndo f)"
  shows "owner_ok fl q (FifoUndo f) (q\<lparr>q_front := f\<rparr>) WIdle [] []"
  using assms by (auto simp: owner_ok_def queue_inv_def bk_def evolve_def contents_def)

text \<open>The number of steps that the owner's operation still needs, at most.\<close>

fun owner_rank :: "'a wpc \<Rightarrow> nat" where
  "owner_rank WIdle = 0"
| "owner_rank (PushGrow x) = 4"
| "owner_rank (PushSwap x f) = 3"
| "owner_rank (PushWrite x) = 2"
| "owner_rank (PushStore x) = 1"
| "owner_rank (ReserveGrow c n) = 2"
| "owner_rank (ReserveSwap c f n) = 1"
| "owner_rank (Batch n) = 0"
| "owner_rank (PopGo len) = 4"
| "owner_rank (FifoUndo f) = 1"
| "owner_rank LifoLoad = 3"
| "owner_rank (LifoCas f t) = 2"
| "owner_rank LifoRestore = 1"
| "owner_rank Shrink = 2"
| "owner_rank (ShrinkSwap f) = 1"

definition owner_go_ok :: "flavor \<Rightarrow> 'a inner \<Rightarrow> 'a wpc \<Rightarrow> bool" where
  "owner_go_ok fl q pc \<longleftrightarrow> (\<exists>q' pc' ps ts. owner_go fl pc q = Some (q', pc', ps, ts)
     \<and> owner_ok fl q pc q' pc' ps ts \<and> owner_rank pc' < owner_rank pc)"

lemma owner_go_okI:
  "owner_go fl pc q = Some (q', pc', ps, ts) \<Longrightarrow> owner_ok fl q pc q' pc' ps ts \<Longrightarrow> owner_rank pc' < owner_rank pc \<Longrightarrow>
    owner_go_ok fl q pc"
  by (auto simp: owner_go_ok_def)

lemma pop_rank:
  "pop_fifo len q = (q', pc', ts) \<Longrightarrow> owner_rank pc' \<le> 2" "pop_lifo_load q = (pc', ts) \<Longrightarrow> owner_rank pc' \<le> 2"
  by (auto simp: pop_fifo_def pop_lifo_load_def Let_def split: if_splits)

lemma owner_go_correct:
  assumes "queue_inv q pc" "owner_inv fl q pc" "0 < owner_rank pc"
  shows "owner_go_ok fl q pc"
proof (cases pc)
  case (PushGrow x)
  show ?thesis unfolding PushGrow
    by (rule owner_go_okI) (use assms PushGrow in \<open>auto intro!: owner_ok_refl simp: queue_inv_def bk_def\<close>)
next
  case (PushSwap x f)
  obtain q' where q': "resize (2 * b_cap (cur q)) f q = Some q'" "q_front q' = q_front q" "q_back q' = q_back q"
    "b_cap (cur q') = 2 * b_cap (cur q)"
    "\<And>pc'. lifo_pending pc' = 0 \<Longrightarrow> owner_inv fl q' pc' \<Longrightarrow> owner_ok fl q pc q' pc' [] []"
    using resize_correct [of q pc f "2 * b_cap (cur q)" fl] assms PushSwap by (auto simp: queue_inv_def)
  have "owner_inv fl q' (PushWrite x)" using assms PushSwap by (auto simp: q' queue_inv_def)
  then show ?thesis using q'(1) q'(5) [of "PushWrite x"] unfolding PushSwap by (intro owner_go_okI [where pc' = "PushWrite x" and ps = "[]" and ts = "[]"]) simp_all
next
  case (PushWrite x)
  have *: "owner_inv fl (slot_write (q_back q) (Some x) q) (PushStore x)"
    using assms PushWrite by (simp add: slot_write_def cur_def content_def queue_inv_def)
  show ?thesis unfolding PushWrite
    by (rule owner_go_okI) (use assms PushWrite * in \<open>auto intro!: slot_write_correct\<close>)
next
  case (PushStore x)
  then show ?thesis using push_store_pc_correct [of q x fl] assms by (intro owner_go_okI) auto
next
  case (ReserveGrow c n)
  show ?thesis unfolding ReserveGrow
    by (rule owner_go_okI) (use assms ReserveGrow in \<open>auto intro!: owner_ok_refl\<close>)
next
  case (ReserveSwap c f n)
  obtain q' where q': "resize c f q = Some q'" "q_front q' = q_front q" "q_back q' = q_back q" "b_cap (cur q') = c"
    "\<And>pc'. lifo_pending pc' = 0 \<Longrightarrow> owner_inv fl q' pc' \<Longrightarrow> owner_ok fl q pc q' pc' [] []"
    using resize_correct [of q pc f c fl] assms ReserveSwap by auto
  have "owner_inv fl q' (Batch n)" using assms ReserveSwap by (auto simp: q')
  then show ?thesis using q'(1) q'(5) [of "Batch n"] unfolding ReserveSwap by (intro owner_go_okI [where pc' = "Batch n" and ps = "[]" and ts = "[]"]) simp_all
next
  case (PopGo len)
  show ?thesis
  proof (cases fl)
    case Fifo
    obtain q' pc' ts where *: "pop_fifo len q = (q', pc', ts)" by (cases "pop_fifo len q")
    then show ?thesis using pop_fifo_correct [of q len] pop_rank(1) [OF *] assms PopGo Fifo
      by (intro owner_go_okI [of fl pc q q' pc' "[]" ts]) auto
  next
    case Lifo
    then show ?thesis using pop_lifo_store_correct [of q len] assms PopGo by (intro owner_go_okI) auto
  qed
next
  case (FifoUndo f)
  then show ?thesis using fifo_undo_correct [of q f fl] assms by (intro owner_go_okI) auto
next
  case LifoLoad
  obtain pc' ts where *: "pop_lifo_load q = (pc', ts)" by (cases "pop_lifo_load q")
  then show ?thesis using pop_lifo_load_correct [of q fl] pop_rank(2) [OF *] assms LifoLoad
    by (intro owner_go_okI [of fl pc q q pc' "[]" ts]) auto
next
  case (LifoCas f t)
  obtain q' ts where "front_cas f [t] q = (q', ts)" by (cases "front_cas f [t] q")
  then show ?thesis using lifo_cas_correct [of q f t fl q' ts] assms LifoCas by (intro owner_go_okI) auto
next
  case LifoRestore
  then show ?thesis using lifo_restore_correct [of q fl] assms by (intro owner_go_okI) auto
next
  case Shrink
  show ?thesis unfolding Shrink by (rule owner_go_okI) (use assms Shrink in \<open>auto intro!: owner_ok_refl\<close>)
next
  case (ShrinkSwap f)
  obtain q' where q': "resize (b_cap (cur q) div 2) f q = Some q'" "q_front q' = q_front q" "q_back q' = q_back q"
    "\<And>pc'. lifo_pending pc' = 0 \<Longrightarrow> owner_inv fl q' pc' \<Longrightarrow> owner_ok fl q pc q' pc' [] []"
    using resize_correct [of q pc f "b_cap (cur q) div 2" fl] assms ShrinkSwap by auto
  have "owner_inv fl q' WIdle" using assms ShrinkSwap by (auto simp: q')
  then show ?thesis using q'(1) q'(4) [of WIdle] unfolding ShrinkSwap by (intro owner_go_okI [where pc' = "WIdle" and ps = "[]" and ts = "[]"]) simp_all
qed (use assms(3) in auto)

lemma reserve_cap_correct:
  "0 < c \<Longrightarrow> \<exists>j. reserve_cap c len n = Some (c * 2 ^ j) \<and> int n \<le> int (c * 2 ^ j) - len"
proof (induction "nat (int n + len - int c)" arbitrary: c rule: less_induct)
  case less
  show ?case
  proof (cases "int c - len < int n")
    case True
    then obtain j where "reserve_cap (2 * c) len n = Some (2 * c * 2 ^ j)" "int n \<le> int (2 * c * 2 ^ j) - len"
      using less.hyps [of "2 * c"] less.prems by auto
    then show ?thesis using True by (intro exI [of _ "Suc j"]) (subst reserve_cap.simps, simp add: mult.commute mult.left_commute)
  next
    case False
    then show ?thesis by (intro exI [of _ 0]) (subst reserve_cap.simps, simp)
  qed
qed

lemma reserve_correct:
  assumes "queue_inv q WIdle" "owner_inv fl q WIdle"
  shows "\<exists>pc'. reserve n q = Some pc' \<and> owner_ok fl q WIdle q pc' [] [] \<and> owner_rank pc' \<le> 2"
proof -
  let ?len = "q_back q - q_front q"
  obtain j where j: "reserve_cap (b_cap (cur q) * 2) ?len n = Some (b_cap (cur q) * 2 * 2 ^ j)"
    "int n \<le> int (b_cap (cur q) * 2 * 2 ^ j) - ?len"
    using reserve_cap_correct [of "b_cap (cur q) * 2" ?len n] assms(1) by (auto simp: queue_inv_def)
  show ?thesis
  proof (cases "0 < n \<and> int (b_cap (cur q)) - ?len < int n")
    case True
    then have "reserve n q = Some (ReserveGrow (b_cap (cur q) * 2 * 2 ^ j) n)" by (simp add: reserve_def Let_def j)
    moreover have "owner_inv fl q (ReserveGrow (b_cap (cur q) * 2 * 2 ^ j) n)" using assms j by (auto simp: queue_inv_def)
    ultimately show ?thesis using owner_ok_refl [OF assms(1)] by auto
  next
    case False
    then have "reserve n q = Some (Batch n)" by (auto simp: reserve_def Let_def)
    moreover have "owner_inv fl q (Batch n)" using assms False by (auto simp: queue_inv_def bk_def)
    ultimately show ?thesis using owner_ok_refl [OF assms(1)] by auto
  qed
qed

lemma wstep_correct:
  assumes "queue_inv q pc" "owner_inv fl q pc" "wstep fl c pc q = Some (q', pc', ps, ts)"
  shows "owner_ok fl q pc q' pc' ps ts"
proof (cases c)
  case (Push x)
  then have *: "pc = WIdle" "q' = q" "pc' = push_load x q" "ps = []" "ts = []" using assms(3) by (auto split: wpc.splits)
  then have "owner_inv fl q pc'" using assms(2) by (simp add: push_load_def Let_def)
  then show ?thesis using owner_ok_refl [OF assms(1), of pc' fl] * by (simp add: push_load_def Let_def split: if_splits)
next
  case Pop
  then have *: "pc = WIdle" "q' = q" "pc' = pop_load q" "ps = []" "ts = []" using assms(3) by (auto split: wpc.splits)
  then have "owner_inv fl q pc'" using assms(2) by (simp add: pop_load_def Let_def)
  then show ?thesis using owner_ok_refl [OF assms(1), of pc' fl] * by (simp add: pop_load_def Let_def split: if_splits)
next
  case (Reserve n)
  then show ?thesis using assms reserve_correct [of q fl n] by (auto split: wpc.splits)
next
  case (BatchWrite i x)
  then obtain n where *: "pc = Batch n" "i < n" "q' = slot_write (q_back q + int i) (Some x) q" "pc' = Batch n" "ps = []" "ts = []"
    using assms(3) by (auto simp: batch_write_def split: wpc.splits if_splits)
  have "owner_inv fl q' (Batch n)" using assms(1,2) * by (simp add: slot_write_def cur_def queue_inv_def)
  then show ?thesis using slot_write_correct [OF assms(1) _ _ _ *(3), of "Batch n" fl] assms(2) * by simp
next
  case (BatchStore m)
  then obtain n where *: "pc = Batch n" "m \<le> n" "q' = push_store m q" "pc' = WIdle" "ts = []"
    "ps = map (\<lambda>i. content q (q_back q + int i)) [0..<m]" "None \<notin> set ps"
    using assms(3) by (auto simp: batch_store_def Let_def content_def split: wpc.splits if_splits)
  then show ?thesis using push_store_correct [OF assms(1) _ _ _ *(6,7), of fl] assms(2) by simp
next
  case Go
  then have "owner_go fl pc q = Some (q', pc', ps, ts)" using assms(3) by simp
  moreover from this have "0 < owner_rank pc" by (cases pc) auto
  ultimately show ?thesis using owner_go_correct [OF assms(1,2)] by (auto simp: owner_go_ok_def)
qed

section \<open>Steps of a stealer\<close>

definition stealer_ok :: "flavor \<Rightarrow> 'a inner \<Rightarrow> 'a wpc \<Rightarrow> 'a inner \<Rightarrow> 'a spc \<Rightarrow> 'a option list \<Rightarrow> bool" where
  "stealer_ok fl q pc q' s' ts \<longleftrightarrow> queue_inv q' pc \<and> owner_inv fl q' pc \<and> evolve fl q pc q' pc
     \<and> contents q pc = ts @ contents q' pc \<and> stealer_inv fl q' pc s'"

lemma evolve_refl [simp]: "evolve fl q pc q pc"
  by (simp add: evolve_def)

lemma stealer_ok_refl:
  "queue_inv q pc \<Longrightarrow> owner_inv fl q pc \<Longrightarrow> stealer_inv fl q pc s' \<Longrightarrow> stealer_ok fl q pc q s' []"
  by (simp add: stealer_ok_def)

lemma batch_size_range:
  assumes "batch_size op fl len = (n, m)" "0 < len"
  shows "1 \<le> n" "int n \<le> len" "n \<le> MAX_BATCH" "m < MAX_BATCH" "fl = Fifo \<Longrightarrow> m = 0" "fl = Lifo \<Longrightarrow> n = 1"
  using assms by (auto simp: batch_size_def MAX_BATCH_def Let_def split: steal_op.splits flavor.splits)

lemma back_claim:
  assumes "0 < q_back q - f" "fl = Lifo \<Longrightarrow> f \<le> q_front q" "1 \<le> n" "int n \<le> q_back q - f" "fl = Lifo \<Longrightarrow> n = 1"
  shows "claim fl q pc f n"
  using assms bk_le [of q pc] by (auto simp: claim_def split: flavor.splits)

lemma steal_check_inv:
  assumes "fl = Lifo \<Longrightarrow> f \<le> q_front q"
  shows "stealer_inv fl q pc (steal_check fl op f q)"
proof (cases "q_back q - f \<le> 0")
  case False
  obtain n m where nm: "batch_size op fl (q_back q - f) = (n, m)" by fastforce
  moreover have "claim fl q pc f n" using batch_size_range [OF nm] False assms by (intro back_claim) auto
  ultimately show ?thesis using batch_size_range(5) [OF nm] False by (simp add: steal_check_def)
qed (simp add: steal_check_def)

lemma steal_cas_correct:
  assumes "queue_inv q pc" "owner_inv fl q pc" "stealer_inv fl q pc (SCas f m k ts)" "q_front q = f"
  shows "stealer_ok fl q pc (q\<lparr>q_front := f + int (length ts)\<rparr>) (SNext (f + int (length ts)) m k) ts"
proof -
  have n: "ts \<noteq> []" using assms(3) by (auto simp: claim_def)
  then have le: "f + int (length ts) \<le> bk q pc"
    using claim_bk [of fl q pc f "length ts" "length ts - 1"] assms(3,4) by (cases ts) (simp_all add: of_nat_diff)
  have "contents q pc = ts @ contents (q\<lparr>q_front := f + int (length ts)\<rparr>) pc"
    using front_cas_contents [OF assms(1,4) _ le] assms(3) by simp
  then show ?thesis using front_advance [OF assms(1) _ le _ assms(2)] n assms(3,4) by (auto simp: stealer_ok_def)
qed

lemma steal_read_inv:
  assumes "stealer_inv fl q pc (SRead op f n m k ts)" "length ts < n"
  shows "stealer_inv fl q pc (SRead op f n m k (steal_read f k ts q))"
  using assms by (auto simp: steal_read_def reads_def nth_append less_Suc_eq)

lemma sstep_correct:
  assumes "queue_inv q pc" "owner_inv fl q pc" "stealer_inv fl q pc s" "sstep fl op s q = (q', s', ts)"
  shows "stealer_ok fl q pc q' s' ts"
proof (cases s)
  case SIdle
  then show ?thesis using assms by (auto intro!: stealer_ok_refl)
next
  case (SCheck op f)
  then show ?thesis using assms steal_check_inv [of fl f q pc op] by (auto intro!: stealer_ok_refl)
next
  case (SBuffer op f n m)
  then show ?thesis using assms(3,4) assms(1,2)
    by (auto intro!: stealer_ok_refl simp: reads_def content_def cur_def queue_inv_def)
next
  case (SRead op f n m k ts0)
  then have *: "q' = q" "ts = []"
    "s' = (if length ts0 < n then SRead op f n m k (steal_read f k ts0 q) else steal_compare fl op f m k ts0 q)"
    using assms(4) by auto
  have "stealer_inv fl q pc s'"
  proof (cases "length ts0 < n")
    case True
    then show ?thesis using steal_read_inv assms(3) SRead by (simp only: * if_True)
  next
    case False
    then show ?thesis using assms(3) SRead by (auto simp: * steal_compare_def)
  qed
  then show ?thesis using stealer_ok_refl [OF assms(1,2)] * by simp
next
  case (SCas f m k ts0)
  then show ?thesis using assms steal_cas_correct [OF assms(1,2), of f m k ts0]
    by (cases "q_front q = f") (auto simp: front_cas_def intro!: stealer_ok_refl)
next
  case (SNext f m k)
  moreover have "claim fl q pc f 1" if "0 < q_back q - f" using assms(3) SNext that by (intro back_claim) auto
  ultimately show ?thesis using assms
    by (cases fl) (auto intro!: stealer_ok_refl simp: next_check_def)
next
  case (SNextRead f m k)
  then show ?thesis using assms by (auto intro!: stealer_ok_refl simp: content_def cur_def)
next
  case (SNextCompare f m k t)
  then show ?thesis using assms by (auto intro!: stealer_ok_refl simp: next_compare_def reads_def)
qed

section \<open>All interleavings\<close>

definition sys_contents :: "'a sys \<Rightarrow> 'a option list" where
  "sys_contents s = contents (s_queue s) (s_owner s)"

definition sys_inv :: "flavor \<Rightarrow> 'a sys \<Rightarrow> bool" where
  "sys_inv fl s \<longleftrightarrow> queue_inv (s_queue s) (s_owner s) \<and> owner_inv fl (s_queue s) (s_owner s)
     \<and> (\<forall>i. stealer_inv fl (s_queue s) (s_owner s) (s_stealers s i))"

text \<open>
  The queue as a list: a step appends tasks at the back, or takes tasks from the front, or takes the last
  task, which only the owner of a LIFO queue does.
\<close>

inductive deque_spec :: "flavor \<Rightarrow> 'a list \<Rightarrow> 'a list \<Rightarrow> 'a list \<Rightarrow> 'a list \<Rightarrow> bool" for fl where
  push: "deque_spec fl L ps [] (L @ ps)"
| take_front: "deque_spec fl (ts @ L) [] ts L"
| take_back: "fl = Lifo \<Longrightarrow> deque_spec fl (L @ ts) [] ts L"

lemma owner_effect_spec: "owner_effect fl L ps ts L' \<Longrightarrow> deque_spec fl L ps ts L'"
  by (auto simp: owner_effect_def intro: deque_spec.intros split: flavor.splits)

lemma deque_spec_account: "deque_spec fl L ps ts L' \<Longrightarrow> mset L + mset ps = mset ts + mset L'"
  by (induction rule: deque_spec.induct) auto

lemma deque_spec_fifo: "deque_spec Fifo L ps ts L' \<Longrightarrow> L @ ps = ts @ L'"
  by (auto elim: deque_spec.cases)

lemma new_sys_inv: "sys_inv fl new_sys" "sys_contents new_sys = []"
  by (auto simp: sys_inv_def new_sys_def new_inner_def queue_inv_def cur_def bk_def MIN_CAP_def sys_contents_def contents_def)

lemma step_refines:
  assumes "sys_inv fl s" "step fl s s'"
  shows "sys_inv fl s' \<and> (\<exists>ps ts. s_pushed s' = s_pushed s @ ps \<and> s_taken s' = s_taken s @ ts
    \<and> deque_spec fl (sys_contents s) ps ts (sys_contents s'))"
  using assms(2)
proof (cases rule: step.cases)
  case (owner c q pc ps ts)
  have ok: "owner_ok fl (s_queue s) (s_owner s) q pc ps ts"
    using wstep_correct [OF _ _ owner(2)] assms(1) by (simp add: sys_inv_def)
  then have "sys_inv fl s'"
    using assms(1) stealer_inv_evolve owner(1) by (fastforce simp: sys_inv_def owner_ok_def)
  then show ?thesis using ok owner(1) owner_effect_spec by (fastforce simp: owner_ok_def sys_contents_def)
next
  case (stealer op i q pc ts)
  have ok: "stealer_ok fl (s_queue s) (s_owner s) q pc ts"
    using sstep_correct [OF _ _ _ stealer(2)] assms(1) by (simp add: sys_inv_def)
  then have "sys_inv fl s'"
    using assms(1) stealer_inv_evolve stealer(1) by (fastforce simp: sys_inv_def stealer_ok_def)
  then show ?thesis using ok stealer(1) deque_spec.take_front [of fl ts] by (fastforce simp: stealer_ok_def sys_contents_def)
qed

lemma deque_reachable_inv: "reachable fl s \<Longrightarrow> sys_inv fl s"
  by (induction rule: reachable.induct) (use new_sys_inv step_refines in blast)+

lemma reachable_account:
  "reachable fl s \<Longrightarrow> mset (s_pushed s) = mset (s_taken s) + mset (sys_contents s)"
proof (induction rule: reachable.induct)
  case init
  then show ?case by (simp add: new_sys_inv) (simp add: new_sys_def)
next
  case (more s s')
  then show ?case
    using step_refines [OF deque_reachable_inv] deque_spec_account by (fastforce simp: ac_simps)
qed

lemma reachable_fifo: "reachable Fifo s \<Longrightarrow> s_pushed s = s_taken s @ sys_contents s"
proof (induction rule: reachable.induct)
  case init
  then show ?case by (simp add: new_sys_inv) (simp add: new_sys_def)
next
  case (more s s')
  then obtain ps ts where "s_pushed s' = s_pushed s @ ps" "s_taken s' = s_taken s @ ts"
    "deque_spec Fifo (sys_contents s) ps ts (sys_contents s')"
    using step_refines [OF deque_reachable_inv] by blast
  then show ?case using more.IH deque_spec_fifo by fastforce
qed

lemma drop_tasks_contents: "i \<le> b \<Longrightarrow> drop_tasks buf i b = Some (map (buffer_read buf) [i..b - 1])"
proof (induction "nat (b - i)" arbitrary: i)
  case 0
  then show ?case by (subst drop_tasks.simps) simp
next
  case (Suc n)
  then have "drop_tasks buf (i + 1) b = Some (map (buffer_read buf) [i + 1..b - 1])" "i \<noteq> b" by auto
  then show ?case using Suc.prems by (subst drop_tasks.simps) (simp add: upto_rec1)
qed

lemma inner_drop_idle:
  assumes "reachable fl s" "s_owner s = WIdle"
  shows "inner_drop (s_queue s) = Some (sys_contents s)"
  using deque_reachable_inv [OF assms(1)] assms(2)
  by (simp add: sys_inv_def inner_drop_def drop_tasks_contents sys_contents_def contents_def bk_def content_def)

lemma sys_contents_some: "reachable fl s \<Longrightarrow> None \<notin> set (sys_contents s)"
  using deque_reachable_inv [of fl s] by (force simp: sys_inv_def sys_contents_def contents_def queue_inv_def)

lemma owner_go_pushed: "owner_go fl pc q = Some (q', pc', ps, ts) \<Longrightarrow> None \<notin> set ps"
  by (cases "(fl, pc, q)" rule: owner_go.cases)
    (auto split: flavor.splits prod.splits)

lemma wstep_pushed: "wstep fl c pc q = Some (q', pc', ps, ts) \<Longrightarrow> None \<notin> set ps"
  by (cases c) (auto simp: batch_store_def Let_def split: wpc.splits if_splits dest: owner_go_pushed)

lemma pushed_some: "reachable fl s \<Longrightarrow> None \<notin> set (s_pushed s)"
proof (induction rule: reachable.induct)
  case init
  then show ?case by (simp add: new_sys_def)
next
  case (more s s')
  from more.hyps(2) more.IH show ?case by (cases rule: step.cases) (auto dest: wstep_pushed)
qed

text \<open>The number of steps that a stealer's operation still needs, at most.\<close>

fun stealer_rank :: "'a spc \<Rightarrow> nat" where
  "stealer_rank SIdle = 0"
| "stealer_rank (SCheck op f) = 4 * MAX_BATCH + 4"
| "stealer_rank (SBuffer op f n m) = n + 4 * m + 4"
| "stealer_rank (SRead op f n m k ts) = (n - length ts) + 4 * m + 3"
| "stealer_rank (SCas f m k ts) = 4 * m + 2"
| "stealer_rank (SNext f m k) = 4 * m + 1"
| "stealer_rank (SNextRead f m k) = 4 * m + 4"
| "stealer_rank (SNextCompare f m k t) = 4 * m + 3"

lemma batch_size_rank: "batch_size op fl len = (n, m) \<Longrightarrow> 0 < len \<Longrightarrow> n + 4 * m < 4 * MAX_BATCH"
  by (auto simp: batch_size_def MAX_BATCH_def Let_def split: steal_op.splits flavor.splits)

lemma steal_ends:
  assumes "sstep fl op s q = (q', s', ts)" "s \<noteq> SIdle"
  shows "stealer_rank s' < stealer_rank s"
  using assms batch_size_rank [of _ fl]
  by (cases "(fl, op, s, q)" rule: sstep.cases)
    (auto simp: steal_check_def Let_def steal_compare_def next_check_def next_compare_def steal_read_def front_cas_def
      MAX_BATCH_def split: if_splits prod.splits dest!: batch_size_rank)

section \<open>Capacities\<close>

definition cap_ok :: "nat \<Rightarrow> bool" where
  "cap_ok c \<longleftrightarrow> MIN_CAP \<le> c \<and> (\<exists>k. c = 2 ^ k)"

fun cap_inv :: "nat \<Rightarrow> 'a wpc \<Rightarrow> bool" where
  "cap_inv c (ReserveGrow c' n) \<longleftrightarrow> cap_ok c \<and> cap_ok c'"
| "cap_inv c (ReserveSwap c' f n) \<longleftrightarrow> cap_ok c \<and> cap_ok c'"
| "cap_inv c Shrink \<longleftrightarrow> cap_ok c \<and> MIN_CAP < c"
| "cap_inv c (ShrinkSwap f) \<longleftrightarrow> cap_ok c \<and> MIN_CAP < c"
| "cap_inv c pc \<longleftrightarrow> cap_ok c"

lemma cap_ok_mult: "cap_ok c \<Longrightarrow> cap_ok (c * 2 ^ j)"
  by (auto simp: cap_ok_def power_add [symmetric] intro: le_trans)

lemma cap_ok_double: "cap_ok c \<Longrightarrow> cap_ok (2 * c)"
  using cap_ok_mult [of c 1] by (simp add: mult.commute)

lemma cap_ok_half: "cap_ok c \<Longrightarrow> MIN_CAP < c \<Longrightarrow> cap_ok (c div 2)"
proof -
  assume "cap_ok c" "MIN_CAP < c"
  then obtain k where k: "c = 2 ^ k" "2 ^ 6 < (2 :: nat) ^ k" by (auto simp: cap_ok_def MIN_CAP_def)
  then have "6 < k" using power_less_imp_less_exp [of "2 :: nat" 6 k] by simp
  then obtain k' where "k = Suc k'" "6 \<le> k'" by (cases k) auto
  then have "c div 2 = 2 ^ k'" "(2 :: nat) ^ 6 \<le> 2 ^ k'"
    using k(1) power_increasing [of 6 k' "2 :: nat"] by simp_all
  then show "cap_ok (c div 2)" by (auto simp: cap_ok_def MIN_CAP_def)
qed

lemma copy_tasks_cap: "copy_tasks old i b new = Some new' \<Longrightarrow> b_cap new' = b_cap new"
  by (erule copy_tasks.raw_induct [rotated, where P = "\<lambda>_ _ _ new new'. b_cap new' = b_cap new"])
    (fastforce split: if_splits)

lemma resize_cap: "resize c f q = Some q' \<Longrightarrow> b_cap (cur q') = c"
  using copy_tasks_cap [of "cur q" f "q_back q" "buffer_alloc c"] by (auto simp: resize_def cur_def)

lemma slot_write_cap [simp]: "b_cap (cur (slot_write i t q)) = b_cap (cur q)"
  by (cases "q_buffer q < length (q_bufs q)") (simp_all add: slot_write_def cur_def list_update_beyond)

lemma queue_update_cap [simp]:
  "cur (push_store n q) = cur q" "cur (pop_lifo_store q) = cur q" "cur (fst (front_cas f ts q)) = cur q"
  by (simp_all add: push_store_def pop_lifo_store_def front_cas_def)

lemma owner_go_cap:
  assumes "cap_inv (b_cap (cur q)) pc" "owner_go fl pc q = Some (q', pc', ps, ts)"
  shows "cap_inv (b_cap (cur q')) pc'"
  using assms queue_update_cap(3) [of _ _ q]
  by (cases "(fl, pc, q)" rule: owner_go.cases)
    (auto simp: pop_fifo_def pop_lifo_load_def Let_def front_cas_def resize_cap cap_ok_double cap_ok_half
      split: flavor.splits prod.splits if_splits)

lemma wstep_cap:
  assumes "queue_inv q pc" "cap_inv (b_cap (cur q)) pc" "wstep fl c pc q = Some (q', pc', ps, ts)"
  shows "cap_inv (b_cap (cur q')) pc'"
proof (cases c)
  case (Reserve n)
  then have *: "pc = WIdle" "q' = q" "reserve n q = Some pc'" using assms(3) by (auto split: wpc.splits)
  obtain j where "reserve_cap (b_cap (cur q) * 2) (q_back q - q_front q) n = Some (b_cap (cur q) * 2 * 2 ^ j)"
    using reserve_cap_correct [of "b_cap (cur q) * 2" "q_back q - q_front q" n] assms(1) by (auto simp: queue_inv_def)
  moreover have "cap_ok (b_cap (cur q) * 2 * 2 ^ j)" if "cap_ok (b_cap (cur q))"
    using that cap_ok_double cap_ok_mult by (metis mult.commute)
  ultimately show ?thesis using assms(2) * by (auto simp: reserve_def Let_def split: if_splits)
qed (use assms owner_go_cap in \<open>auto simp: push_load_def pop_load_def Let_def batch_write_def batch_store_def
    split: wpc.splits if_splits\<close>)

lemma sstep_cap: "sstep fl op s q = (q', s', ts) \<Longrightarrow> cur q' = cur q"
  by (cases "(fl, op, s, q)" rule: sstep.cases) (auto simp: front_cas_def split: if_splits)

lemma reachable_cap: "reachable fl s \<Longrightarrow> cap_inv (b_cap (cur (s_queue s))) (s_owner s)"
proof (induction rule: reachable.induct)
  case init
  then show ?case by (simp add: new_sys_def new_inner_def cur_def cap_ok_def MIN_CAP_def exI [of _ 6])
next
  case (more s s')
  have "queue_inv (s_queue s) (s_owner s)" using deque_reachable_inv [OF more.hyps(1)] by (simp add: sys_inv_def)
  with more.hyps(2) more.IH show ?case by (cases rule: step.cases) (auto dest: wstep_cap sstep_cap)
qed

lemma cap_inv_ok: "cap_inv c pc \<Longrightarrow> cap_ok c"
  by (cases pc) auto

lemma stealer_rank_le:
  "reachable fl s \<Longrightarrow> stealer_rank (s_stealers s i) \<le> 4 * MAX_BATCH + 4"
proof (induction rule: reachable.induct)
  case init
  then show ?case by (simp add: new_sys_def)
next
  case (more s s')
  from more.hyps(2) show ?case
  proof (cases rule: step.cases)
    case (stealer op j q pc ts)
    then show ?thesis using more.IH steal_ends [OF stealer(2)]
      by (cases "i = j"; cases "s_stealers s j = SIdle") auto
  qed (use more.IH in auto)
qed

section \<open>Batches\<close>

lemma write_batch_cap [simp]: "b_cap (write_batch pl b i ts buf) = b_cap buf"
  by (induction ts arbitrary: i buf) simp_all

lemma reverse_batch_cap [simp]: "b_cap (reverse_batch k i n b buf) = b_cap buf"
  by (induction k arbitrary: i buf) (simp_all add: Let_def)

text \<open>Slots that are not written keep their tasks.\<close>

lemma write_batch_other:
  assumes "\<And>j. j < length ts \<Longrightarrow> x \<noteq> b + int (pl (i + j)) \<and> x < b + int (pl (i + j)) + int (b_cap buf)
      \<and> b + int (pl (i + j)) < x + int (b_cap buf)"
  shows "buffer_read (write_batch pl b i ts buf) x = buffer_read buf x"
  using assms
proof (induction ts arbitrary: i buf)
  case (Cons t ts)
  have "buffer_read (write_batch pl b (i + 1) ts (buffer_write buf (b + int (pl i)) t)) x
      = buffer_read (buffer_write buf (b + int (pl i)) t) x"
    using Cons.prems [of "Suc j" for j] by (intro Cons.IH) auto
  then show ?case using Cons.prems [of 0] by (simp add: buffer_read_write_other)
qed simp

lemma write_batch_read:
  assumes "\<And>j. j < length ts \<Longrightarrow> pl (i + j) < b_cap buf"
    and "\<And>j k. j < k \<Longrightarrow> k < length ts \<Longrightarrow> pl (i + j) \<noteq> pl (i + k)" and "j < length ts"
  shows "buffer_read (write_batch pl b i ts buf) (b + int (pl (i + j))) = ts ! j"
  using assms
proof (induction ts arbitrary: i buf j)
  case (Cons t ts)
  show ?case
  proof (cases j)
    case 0
    have "buffer_read (write_batch pl b (i + 1) ts (buffer_write buf (b + int (pl i)) t)) (b + int (pl i))
      = buffer_read (buffer_write buf (b + int (pl i)) t) (b + int (pl i))"
    proof (rule write_batch_other)
      fix k assume "k < length ts"
      then show "b + int (pl i) \<noteq> b + int (pl (i + 1 + k))
        \<and> b + int (pl i) < b + int (pl (i + 1 + k)) + int (b_cap (buffer_write buf (b + int (pl i)) t))
        \<and> b + int (pl (i + 1 + k)) < b + int (pl i) + int (b_cap (buffer_write buf (b + int (pl i)) t))"
        using Cons.prems(1) [of 0] Cons.prems(1) [of "Suc k"] Cons.prems(2) [of 0 "Suc k"] by auto
    qed
    then show ?thesis using 0 by simp
  next
    case (Suc j')
    have "buffer_read (write_batch pl b (i + 1) ts (buffer_write buf (b + int (pl i)) t)) (b + int (pl (i + 1 + j'))) = ts ! j'"
      using Cons.prems(1) [of "Suc k" for k] Cons.prems(2) [of "Suc k" "Suc l" for k l] Cons.prems(3) Suc
      by (intro Cons.IH) auto
    then show ?thesis using Suc by simp
  qed
qed simp

text \<open>The exchange loop: the tasks outside of the middle part have been exchanged.\<close>

lemma reverse_batch_read:
  assumes "n \<le> b_cap buf" "2 * (i + k) \<le> n" "j < n"
  shows "buffer_read (reverse_batch k i n (base + int n) buf) (base + int j)
    = buffer_read buf (base + int (if i \<le> j \<and> j < i + k \<or> n - (i + k) \<le> j \<and> j < n - i then n - 1 - j else j))"
  using assms
proof (induction k arbitrary: i buf)
  case 0
  then show ?case by auto
next
  case (Suc k)
  let ?buf = "buffer_write (buffer_write buf (base + int i) (buffer_read buf (base + int (n - 1 - i))))
      (base + int (n - 1 - i)) (buffer_read buf (base + int i))"
  have ind: "base + int n - (int n - int i) = base + int i" "base + int n - (int i + 1) = base + int (n - 1 - i)"
    using Suc.prems by auto
  have rd: "buffer_read ?buf (base + int l) = buffer_read buf (base + int (if l = i \<or> l = n - 1 - i then n - 1 - l else l))"
    if "l < n" for l
  proof -
    have "l = n - 1 - i \<or> buffer_read ?buf (base + int l)
        = buffer_read (buffer_write buf (base + int i) (buffer_read buf (base + int (n - 1 - i)))) (base + int l)"
      using that Suc.prems by (auto intro!: buffer_read_write_other)
    moreover have "l = i \<or> buffer_read (buffer_write buf (base + int i) t) (base + int l) = buffer_read buf (base + int l)" for t
      using that Suc.prems by (auto intro!: buffer_read_write_other)
    ultimately show ?thesis using that Suc.prems by (auto simp: diff_diff_cancel)
  qed
  have step: "reverse_batch (Suc k) i n (base + int n) buf = reverse_batch k (i + 1) n (base + int n) ?buf"
    by (simp only: reverse_batch.simps Let_def ind)
  define outer where "outer \<longleftrightarrow> i + 1 \<le> j \<and> j < i + 1 + k \<or> n - (i + 1 + k) \<le> j \<and> j < n - (i + 1)"
  have ih: "buffer_read (reverse_batch k (i + 1) n (base + int n) ?buf) (base + int j)
    = buffer_read ?buf (base + int (if outer then n - 1 - j else j))"
    unfolding outer_def using Suc.prems by (intro Suc.IH) auto
  define d where "d = n - (2 * i + 2 * k + 2)"
  then have d: "n = 2 * i + 2 * k + 2 + d" using Suc.prems(2) by simp
  have sub: "n - (i + 1 + k) = i + 1 + k + d" "n - (i + Suc k) = i + 1 + k + d" "n - (i + 1) = i + 1 + 2 * k + d"
    "n - i = i + 2 + 2 * k + d" "n - 1 - i = i + 1 + 2 * k + d"
    by (simp_all add: d)
  have cond: "(i \<le> j \<and> j < i + Suc k \<or> n - (i + Suc k) \<le> j \<and> j < n - i) \<longleftrightarrow> outer \<or> j = i \<or> j = n - 1 - i"
    unfolding outer_def sub by auto
  have ne: "outer \<Longrightarrow> j \<noteq> i \<and> j \<noteq> n - 1 - i"
    unfolding outer_def sub by auto
  have ne': "outer \<Longrightarrow> n - 1 - j \<noteq> i \<and> n - 1 - j \<noteq> n - 1 - i"
    using ne Suc.prems(2,3) by auto
  have "n - 1 - j < n" using Suc.prems(3) by simp
  then show ?case using Suc.prems(3) rd [of j] rd [of "n - 1 - j"] ne ne'
    unfolding step ih cond by (cases outer; cases "j = i \<or> j = n - 1 - i") (simp_all only: if_True if_False simp_thms)
qed

text \<open>A batch arrives in the order of the source if the flavors are the same, and reversed otherwise; the tasks before it stay.\<close>

lemma deliver_tasks:
  assumes "length ts \<le> b_cap buf" "j < length ts"
  shows "buffer_read (deliver src dest b ts buf) (b + int j) = (if src = dest then ts else rev ts) ! j"
proof (cases src)
  case Fifo
  let ?n = "length ts" and ?pl = "batch_place dest (length ts)"
  have "?pl i < ?n" "?pl (?pl i) = i" if "i < ?n" for i
    using that by (auto simp: batch_place_def split: flavor.splits)
  then have "buffer_read (write_batch ?pl b 0 ts buf) (b + int (?pl (0 + ?pl j))) = ts ! ?pl j"
    using assms by (intro write_batch_read) (auto simp: batch_place_def split: flavor.splits intro: less_le_trans)
  then show ?thesis using Fifo assms \<open>\<And>i. i < ?n \<Longrightarrow> ?pl (?pl i) = i\<close>
    by (cases dest) (simp_all add: deliver_def batch_place_def rev_nth)
next
  case Lifo
  let ?n = "length ts" and ?buf = "write_batch (\<lambda>i. i) b 0 ts buf"
  have rd: "buffer_read ?buf (b + int i) = ts ! i" if "i < ?n" for i
    using write_batch_read [of ts "\<lambda>i. i" 0 buf i b] that assms(1) by simp
  show ?thesis
  proof (cases dest)
    case Fifo
    have "buffer_read (reverse_batch (?n div 2) 0 ?n (b + int ?n) ?buf) (b + int j)
      = buffer_read ?buf (b + int (if 0 \<le> j \<and> j < 0 + ?n div 2 \<or> ?n - (0 + ?n div 2) \<le> j \<and> j < ?n - 0 then ?n - 1 - j else j))"
      using assms by (intro reverse_batch_read) auto
    also have "\<dots> = ts ! (?n - 1 - j)"
    proof (cases "j < ?n div 2 \<or> ?n - ?n div 2 \<le> j")
      case True
      then have "0 \<le> j \<and> j < 0 + ?n div 2 \<or> ?n - (0 + ?n div 2) \<le> j \<and> j < ?n - 0" using assms(2) by auto
      moreover have "?n - 1 - j < ?n" using assms(2) by simp
      ultimately show ?thesis using rd by (simp only: if_True)
    next
      case False
      then have "j = ?n - 1 - j" using assms(2) by linarith
      then show ?thesis using rd [OF assms(2)] False by simp
    qed
    finally show ?thesis using Lifo Fifo assms(2) by (simp add: deliver_def Let_def rev_nth)
  next
    case dest: Lifo
    then show ?thesis using Lifo rd [OF assms(2)] by (simp add: deliver_def Let_def)
  qed
qed

lemma popped_cases: "ts \<noteq> [] \<Longrightarrow> mset ts = add_mset (fst (popped src ts)) (mset (snd (popped src ts)))"
proof (cases src)
  case Lifo
  assume "ts \<noteq> []"
  then have "mset ts = mset (butlast ts @ [last ts])" by simp
  then show ?thesis using Lifo by (simp add: popped_def)
qed (cases ts; simp add: popped_def)

section \<open>Results of steals\<close>

text \<open>Collecting results is the fold of \<open>or_else\<close>, with \<open>Empty\<close> as its neutral element.\<close>

lemma or_else_neutral [simp]: "or_else Empty (\<lambda>_. s) = s" "or_else s (\<lambda>_. Empty) = s"
  by (simp_all add: or_else_def split: steal.splits)

lemma or_else_assoc: "or_else (or_else a (\<lambda>_. b)) (\<lambda>_. c) = or_else a (\<lambda>_. or_else b (\<lambda>_. c))"
  by (auto simp: or_else_def split: steal.splits)

lemma from_iter_loop_fold: "from_iter_loop retry iter = or_else (if retry then Retry else Empty) (\<lambda>_. foldr (\<lambda>s r. or_else s (\<lambda>_. r)) iter Empty)"
  by (induction iter arbitrary: retry) (auto simp: or_else_def split: steal.splits)

lemma from_iter_fold: "from_iter iter = foldr (\<lambda>s r. or_else s (\<lambda>_. r)) iter Empty"
  by (simp add: from_iter_def from_iter_loop_fold)

lemma from_iter_success: "is_success (from_iter iter) \<longleftrightarrow> (\<exists>s\<in>set iter. is_success s)"
  unfolding from_iter_fold by (induction iter) (auto simp: or_else_def is_success_def split: steal.splits)

section \<open>Properties\<close>

text \<open>
  C1. In every interleaving of the owner's pushes, pops and batch insertions with any number of stealers, no task
  is taken twice, only tasks that have been pushed are taken, and never the contents of an unwritten slot;
  and whenever the owner is between two operations, a task that has not been taken is still in the queue, exactly
  once: it is what dropping the queue drops. The drop loop ends.
\<close>

theorem tasks_taken_once:
  assumes "reachable fl s"
  shows "mset (s_taken s) \<subseteq># mset (s_pushed s) \<and> None \<notin> set (s_taken s)
    \<and> (s_owner s = WIdle \<longrightarrow>
        (\<exists>left. inner_drop (s_queue s) = Some left \<and> mset (s_pushed s) = mset (s_taken s) + mset left))"
proof (intro conjI impI)
  show sub: "mset (s_taken s) \<subseteq># mset (s_pushed s)" using reachable_account [OF assms] by simp
  then show "None \<notin> set (s_taken s)" using pushed_some [OF assms] by (metis set_mset_mono set_mset_mset subsetD)
  show "\<exists>left. inner_drop (s_queue s) = Some left \<and> mset (s_pushed s) = mset (s_taken s) + mset left" if "s_owner s = WIdle"
    using inner_drop_idle [OF assms that] reachable_account [OF assms] by simp
qed

text \<open>Witness: the owner pops the only task while a stealer, which has read it already, tries to take it.\<close>

definition race :: "nat turn list" where
  "race = [Owner (Push 7), Owner Go, Owner Go, Stealer 0 Steal, Stealer 0 Steal, Stealer 0 Steal, Stealer 0 Steal,
     Owner Pop, Owner Go, Owner Go, Stealer 0 Steal, Owner Go, Stealer 0 Steal, Owner Go]"

lemma race_result:
  "map_option (\<lambda>s. (s_owner s, s_pushed s, s_taken s, inner_drop (s_queue s))) (schedule Lifo race new_sys)
    = Some (WIdle, [Some 7], [Some 7], Some [])"
  by code_simp

theorem tasks_taken_once_witness:
  "\<exists>s. schedule Lifo race new_sys = Some s \<and> s_owner s = WIdle \<and> s_taken s = [Some 7]
    \<and> mset (s_taken s) \<subseteq># mset (s_pushed s) \<and> inner_drop (s_queue s) = Some []"
  using race_result tasks_taken_once [OF schedule_reachable [OF reachable.init, of Lifo race]] by auto

text \<open>
  C6. The queue refines a list. Every step of every thread leaves the list as it is, or appends the tasks
  that become visible at the back, or removes the tasks that are taken from the front;
  the last task is only removed by the owner of a LIFO queue. Stated for the tasks in the queue
  as the difference of pushed and taken: in a FIFO queue the tasks are taken in the order in
  which they were pushed.
\<close>

theorem deque_refines_list:
  assumes "reachable fl s" "step fl s s'"
  shows "(\<exists>ps ts. s_pushed s' = s_pushed s @ ps \<and> s_taken s' = s_taken s @ ts
        \<and> deque_spec fl (sys_contents s) ps ts (sys_contents s'))
    \<and> (s_owner s = WIdle \<longrightarrow> inner_drop (s_queue s) = Some (sys_contents s))
    \<and> (fl = Fifo \<longrightarrow> s_pushed s = s_taken s @ sys_contents s)"
  using step_refines [OF deque_reachable_inv [OF assms(1)] assms(2)] inner_drop_idle [OF assms(1)] reachable_fifo assms(1)
  by auto

text \<open>Witness: two pushes to a FIFO queue, after which a stealer loads the front index.\<close>

theorem deque_refines_list_witness:
  "\<exists>s :: nat sys. schedule Fifo [Owner (Push 1), Owner Go, Owner Go, Owner (Push 2), Owner Go, Owner Go] new_sys = Some s
    \<and> s_pushed s = [Some 1, Some 2] \<and> s_taken s @ sys_contents s = [Some 1, Some 2]"
proof -
  let ?sched = "[Owner (Push 1), Owner Go, Owner Go, Owner (Push 2), Owner Go, Owner Go] :: nat turn list"
  have "map_option s_pushed (schedule Fifo ?sched new_sys) = Some [Some 1, Some 2]" by code_simp
  then obtain s where s: "schedule Fifo ?sched new_sys = Some s" "s_pushed s = [Some 1, Some 2]" by auto
  obtain q pc ts where st: "sstep Fifo Steal (s_stealers s 0) (s_queue s) = (q, pc, ts)" by (metis prod_cases3)
  have "reachable Fifo s" using schedule_reachable [OF reachable.init s(1)] .
  then have "s_pushed s = s_taken s @ sys_contents s" using deque_refines_list [OF _ step.stealer [OF st]] by simp
  then show ?thesis using s by auto
qed

text \<open>
  C20. Bounds on memory: in every reachable state the capacity of the buffer is a power of two of at least 64, so that
  the index mask of a slot is the remainder of the index, and the queue never has more tasks than slots.
\<close>

theorem deque_bounds:
  assumes "reachable fl s"
  shows "MIN_CAP \<le> b_cap (cur (s_queue s)) \<and> queue_len (s_queue s) \<le> int (b_cap (cur (s_queue s)))
    \<and> (\<exists>k. b_cap (cur (s_queue s)) = 2 ^ k \<and> (\<forall>i. buffer_at (cur (s_queue s)) i = and i (2 ^ k - 1)))"
proof -
  have "cap_ok (b_cap (cur (s_queue s)))" using cap_inv_ok [OF reachable_cap [OF assms]] .
  then obtain k where k: "MIN_CAP \<le> b_cap (cur (s_queue s))" "b_cap (cur (s_queue s)) = 2 ^ k"
    by (auto simp: cap_ok_def)
  have "bk (s_queue s) (s_owner s) - q_front (s_queue s) \<le> int (b_cap (cur (s_queue s)))"
    using deque_reachable_inv [OF assms] by (simp add: sys_inv_def queue_inv_def)
  then have "queue_len (s_queue s) \<le> int (b_cap (cur (s_queue s)))"
    using bk_le [of "s_queue s" "s_owner s"] by (simp add: queue_len_def)
  then show ?thesis using k buffer_at_and [OF k(2)] by (auto simp: take_bit_eq_mask mask_eq_exp_minus_1)
qed

theorem deque_bounds_witness:
  "MIN_CAP \<le> b_cap (cur (s_queue (new_sys :: nat sys))) \<and> queue_len (s_queue (new_sys :: nat sys)) \<le> 64"
  using deque_bounds [OF reachable.init [of Lifo, where ?'a = nat]] by (simp add: new_sys_def new_inner_def cur_def MIN_CAP_def)

text \<open>
  C19. The operations are wait-free: wherever the owner and the stealers have been interrupted, the next step of an
  owner inside of a push, a pop or a reservation is defined and brings the end of the operation nearer, which needs at most 4
  more steps; and so does every step of a stealer, with at most 132 more steps.
\<close>

theorem deque_wait_free:
  assumes "reachable fl s"
  shows "owner_rank (s_owner s) \<le> 4 \<and> stealer_rank (s_stealers s i) \<le> 132
    \<and> (0 < owner_rank (s_owner s) \<longrightarrow> (\<exists>q pc ps ts. owner_go fl (s_owner s) (s_queue s) = Some (q, pc, ps, ts)
        \<and> owner_rank pc < owner_rank (s_owner s)))
    \<and> (s_stealers s i \<noteq> SIdle \<longrightarrow> (\<exists>q pc ts. sstep fl op (s_stealers s i) (s_queue s) = (q, pc, ts)
        \<and> stealer_rank pc < stealer_rank (s_stealers s i)))
    \<and> (s_owner s = WIdle \<longrightarrow> (\<exists>pc. reserve n (s_queue s) = Some pc \<and> owner_rank pc \<le> 2))"
proof (intro conjI impI)
  show "owner_rank (s_owner s) \<le> 4" by (cases "s_owner s") auto
  show "stealer_rank (s_stealers s i) \<le> 132" using stealer_rank_le [OF assms, of i] by (simp add: MAX_BATCH_def)
  have inv: "queue_inv (s_queue s) (s_owner s)" "owner_inv fl (s_queue s) (s_owner s)"
    using deque_reachable_inv [OF assms] by (simp_all add: sys_inv_def)
  show "\<exists>q pc ps ts. owner_go fl (s_owner s) (s_queue s) = Some (q, pc, ps, ts) \<and> owner_rank pc < owner_rank (s_owner s)"
    if "0 < owner_rank (s_owner s)"
    using owner_go_correct [OF inv that] by (auto simp: owner_go_ok_def)
  show "\<exists>q pc ts. sstep fl op (s_stealers s i) (s_queue s) = (q, pc, ts) \<and> stealer_rank pc < stealer_rank (s_stealers s i)"
    if "s_stealers s i \<noteq> SIdle"
    using steal_ends [OF _ that, of fl op "s_queue s"] by (metis prod_cases3)
  show "\<exists>pc. reserve n (s_queue s) = Some pc \<and> owner_rank pc \<le> 2" if "s_owner s = WIdle"
    using reserve_correct [of "s_queue s" fl n] inv that by auto
qed

text \<open>Witness: an owner that has loaded the front index for a push.\<close>

theorem deque_wait_free_witness:
  "\<exists>s :: nat sys. schedule Lifo [Owner (Push 7)] new_sys = Some s \<and> owner_rank (s_owner s) = 2
    \<and> (\<exists>q pc ps ts. owner_go Lifo (s_owner s) (s_queue s) = Some (q, pc, ps, ts) \<and> owner_rank pc < 2)"
proof -
  have "map_option (\<lambda>s. owner_rank (s_owner s)) (schedule Lifo [Owner (Push 7)] (new_sys :: nat sys)) = Some 2" by code_simp
  then obtain s :: "nat sys" where "schedule Lifo [Owner (Push 7)] new_sys = Some s" "owner_rank (s_owner s) = 2" by auto
  then show ?thesis using deque_wait_free [OF schedule_reachable [OF reachable.init]] by fastforce
qed

end
