(* ===== verification/CHash_Map.thy ===== *)
theory CHash_Map
  imports Prelude "HOL-Library.Multiset"
begin

text \<open>
  The hash map of the kernel, \<open>h2o/libs/collection_ex/src/chash_map.rs\<close> with \<open>chash_map/inner.rs\<close>, and its hash function,
  \<open>fnv_hasher.rs\<close>: open addressing with linear probing, slots of removed entries that are reused, and rehashing into a
  larger or smaller table.

  Each operation is a function on the map, so it is modelled as one atomic step. The code is finer: operations other than
  rehashing and \<open>take\<close> share the lock of the table for reading and lock one slot at a time, so that two of them may
  interleave between two slots; these interleavings are not modelled. A guard that an operation returns is the index of its slot. The hash of a key is an argument; sizes are
  natural numbers.
\<close>

section \<open>The hash function\<close>

definition FNV_PRIME :: u64 where "FNV_PRIME = 1099511628211"
definition OFFSET_BASIS :: u64 where "OFFSET_BASIS = 14695981039346656037"

definition fnv_default :: u64 where "fnv_default = OFFSET_BASIS"

fun fnv_write :: "u64 \<Rightarrow> bytes \<Rightarrow> u64" where
  "fnv_write h [] = h"
| "fnv_write h (b # bs) = fnv_write ((h XOR ucast b) * FNV_PRIME) bs"

definition fnv_hash_one :: "bytes \<Rightarrow> u64" where
  "fnv_hash_one bs = fnv_write fnv_default bs"

section \<open>Entries and buckets\<close>

datatype ('k, 'v) entry = Empty | Data 'k 'v | Removed

fun is_free :: "('k, 'v) entry \<Rightarrow> bool" where
  "is_free Empty = True"
| "is_free Removed = True"
| "is_free (Data k v) = False"

fun entry_data :: "('k, 'v) entry \<Rightarrow> ('k \<times> 'v) option" where
  "entry_data (Data k v) = Some (k, v)"
| "entry_data _ = None"

fun contains_key :: "'k \<Rightarrow> ('k, 'v) entry \<Rightarrow> bool" where
  "contains_key key (Data k v) = (key = k)"
| "contains_key key _ = False"

definition with_capacity :: "nat \<Rightarrow> ('k, 'v) entry list" where
  "with_capacity capacity = replicate capacity Empty"

text \<open>The slots in the order in which they are looked at: \<open>iter().cycle().skip(hash % len).take(len)\<close>.\<close>

definition probe :: "u64 \<Rightarrow> nat \<Rightarrow> nat list" where
  "probe hash len = map (\<lambda>i. (unat hash mod len + i) mod len) [0..<len]"

definition find_slot :: "u64 \<Rightarrow> (('k, 'v) entry \<Rightarrow> bool) \<Rightarrow> ('k, 'v) entry list \<Rightarrow> nat option" where
  "find_slot hash predicate data = find (\<lambda>i. predicate (data ! i)) (probe hash (length data))"

text \<open>\<open>find_mut\<close> adds the hash and the distance, without reducing the hash before.\<close>

fun find_mut_loop :: "u64 \<Rightarrow> (('k, 'v) entry \<Rightarrow> bool) \<Rightarrow> ('k, 'v) entry list \<Rightarrow> nat list \<Rightarrow> nat option run" where
  "find_mut_loop hash predicate data [] = Inr None"
| "find_mut_loop hash predicate data (i # is) =
     rbind (add_chk hash (of_nat i)) (\<lambda>s.
       let idx = unat s mod length data
       in if predicate (data ! idx) then Inr (Some idx) else find_mut_loop hash predicate data is)"

definition find_mut :: "u64 \<Rightarrow> (('k, 'v) entry \<Rightarrow> bool) \<Rightarrow> ('k, 'v) entry list \<Rightarrow> nat option run" where
  "find_mut hash predicate data = find_mut_loop hash predicate data [0..<length data]"

fun entry_loop :: "'k \<Rightarrow> ('k, 'v) entry list \<Rightarrow> nat option \<Rightarrow> nat list \<Rightarrow> nat option" where
  "entry_loop key data free [] = free"
| "entry_loop key data free (i # is) =
     (case data ! i of
        Empty \<Rightarrow> Some (case free of Some j \<Rightarrow> j | None \<Rightarrow> i)
      | Data k v \<Rightarrow> if k = key then Some i else entry_loop key data free is
      | Removed \<Rightarrow> entry_loop key data (case free of Some j \<Rightarrow> Some j | None \<Rightarrow> Some i) is)"

definition bucket_entry :: "u64 \<Rightarrow> 'k \<Rightarrow> ('k, 'v) entry list \<Rightarrow> nat option" where
  "bucket_entry hash key data = entry_loop key data None (probe hash (length data))"

fun move_from :: "('k \<Rightarrow> u64) \<Rightarrow> ('k, 'v) entry list \<Rightarrow> ('k, 'v) entry list \<Rightarrow> ('k, 'v) entry list run" where
  "move_from hash data [] = Inr data"
| "move_from hash data (slot # other) =
     (case slot of
        Data key val \<Rightarrow>
          rbind (find_mut (hash key) is_free data) (\<lambda>r.
            case r of
              Some i \<Rightarrow> move_from hash (data[i := Data key val]) other
            | None \<Rightarrow> move_from hash data other)
      | _ \<Rightarrow> move_from hash data other)"

section \<open>The map\<close>

definition GROW_FACTOR :: nat where "GROW_FACTOR = 2"
definition LOAD_FACTOR_N :: nat where "LOAD_FACTOR_N = 70"
definition LOAD_FACTOR_D :: nat where "LOAD_FACTOR_D = 100"
definition MIN_CAPACITY :: nat where "MIN_CAPACITY = 8"

record ('k, 'v) chash_map =
  buckets :: "('k, 'v) entry list"
  map_len :: nat

definition with_hasher :: "('k, 'v) chash_map" where
  "with_hasher = \<lparr>buckets = with_capacity MIN_CAPACITY, map_len = 0\<rparr>"

text \<open>The first component is what the caller gets, the second what stays.\<close>

definition take_map :: "('k, 'v) chash_map \<Rightarrow> ('k, 'v) chash_map \<times> ('k, 'v) chash_map" where
  "take_map m = (\<lparr>buckets = buckets m, map_len = map_len m\<rparr>, with_hasher)"

definition grow :: "('k \<Rightarrow> u64) \<Rightarrow> nat \<Rightarrow> ('k, 'v) chash_map \<Rightarrow> ('k, 'v) chash_map run" where
  "grow hash old_len m =
     (let len = old_len * GROW_FACTOR
      in if length (buckets m) < len
         then rbind (move_from hash (with_capacity len) (buckets m)) (\<lambda>data. Inr (m\<lparr>buckets := data\<rparr>))
         else Inr m)"

definition shrink :: "('k \<Rightarrow> u64) \<Rightarrow> nat \<Rightarrow> ('k, 'v) chash_map \<Rightarrow> ('k, 'v) chash_map run" where
  "shrink hash new_len m =
     (if new_len < length (buckets m)
      then rbind (move_from hash (with_capacity (max new_len MIN_CAPACITY)) (buckets m)) (\<lambda>data. Inr (m\<lparr>buckets := data\<rparr>))
      else Inr m)"

definition get_mut :: "('k \<Rightarrow> u64) \<Rightarrow> 'k \<Rightarrow> ('k, 'v) chash_map \<Rightarrow> nat option" where
  "get_mut hash key m = find_slot (hash key) (contains_key key) (buckets m)"

definition get :: "('k \<Rightarrow> u64) \<Rightarrow> 'k \<Rightarrow> ('k, 'v) chash_map \<Rightarrow> ('k \<times> 'v) option" where
  "get hash key m = Option.bind (find_slot (hash key) (contains_key key) (buckets m)) (\<lambda>i. entry_data (buckets m ! i))"

definition map_contains_key :: "('k \<Rightarrow> u64) \<Rightarrow> 'k \<Rightarrow> ('k, 'v) chash_map \<Rightarrow> bool" where
  "map_contains_key hash key m \<longleftrightarrow> get hash key m \<noteq> None"

text \<open>A new entry is counted; the map grows when its load reaches the load factor.\<close>

definition count_insert :: "('k \<Rightarrow> u64) \<Rightarrow> ('k, 'v) chash_map \<Rightarrow> ('k, 'v) chash_map run" where
  "count_insert hash m =
     (let len = map_len m + 1; m' = m\<lparr>map_len := len\<rparr>
      in if length (buckets m) * LOAD_FACTOR_N \<le> len * LOAD_FACTOR_D then grow hash len m' else Inr m')"

partial_function (option) map_insert ::
  "('k \<Rightarrow> u64) \<Rightarrow> 'k \<Rightarrow> 'v \<Rightarrow> ('k, 'v) chash_map \<Rightarrow> (('k \<times> 'v) option \<times> ('k, 'v) chash_map) run option" where
  "map_insert hash key val m =
     (case bucket_entry (hash key) key (buckets m) of
        Some i \<Rightarrow>
          let old = buckets m ! i; m' = m\<lparr>buckets := (buckets m)[i := Data key val]\<rparr>
          in Some (rbind (if is_free old then count_insert hash m' else Inr m') (\<lambda>m''. Inr (entry_data old, m'')))
      | None \<Rightarrow>
          (case grow hash (map_len m * GROW_FACTOR) m of
             Inl p \<Rightarrow> Some (Inl p)
           | Inr m' \<Rightarrow> map_insert hash key val m'))"

declare map_insert.simps [code]

text \<open>
  \<open>get_or_insert\<close> spins while there is no slot for the key, and holds the lock of the table for reading meanwhile: nobody can
  rehash the table, but another thread may remove one of its entries. The result \<open>None\<close> means that the call does not return
  unless another thread does so.
\<close>

partial_function (option) get_or_insert ::
  "('k \<Rightarrow> u64) \<Rightarrow> 'k \<Rightarrow> 'v \<Rightarrow> ('k, 'v) chash_map \<Rightarrow> (nat \<times> ('k, 'v) chash_map) run option" where
  "get_or_insert hash key val m =
     (case bucket_entry (hash key) key (buckets m) of
        None \<Rightarrow> get_or_insert hash key val m
      | Some i \<Rightarrow>
          if is_free (buckets m ! i) then
            let m' = m\<lparr>buckets := (buckets m)[i := Data key val]\<rparr>; len = map_len m + 1
            in if length (buckets m) * LOAD_FACTOR_N \<le> len * LOAD_FACTOR_D
               then Some (rbind (grow hash len (m'\<lparr>map_len := len\<rparr>)) (\<lambda>m''.
                      rbind (unwrap (get_mut hash key m'')) (\<lambda>j. Inr (j, m''))))
               else Some (Inr (i, m'\<lparr>map_len := len\<rparr>))
          else Some (Inr (i, m)))"

declare get_or_insert.simps [code]

text \<open>The entry in a slot is removed; the map shrinks when its load is below half of the load factor.\<close>

definition count_remove :: "('k \<Rightarrow> u64) \<Rightarrow> ('k, 'v) chash_map \<Rightarrow> ('k, 'v) chash_map run" where
  "count_remove hash m =
     rbind (nat_sub_chk (map_len m) 1) (\<lambda>len.
       let m' = m\<lparr>map_len := len\<rparr>
       in if len * GROW_FACTOR * LOAD_FACTOR_D < length (buckets m) * LOAD_FACTOR_N then shrink hash len m' else Inr m')"

definition remove_from :: "('k \<Rightarrow> u64) \<Rightarrow> nat \<Rightarrow> ('k, 'v) chash_map \<Rightarrow> (('k \<times> 'v) \<times> ('k, 'v) chash_map) run" where
  "remove_from hash i m =
     rbind (count_remove hash (m\<lparr>buckets := (buckets m)[i := Removed]\<rparr>)) (\<lambda>m'.
       rbind (unwrap (entry_data (buckets m ! i))) (\<lambda>kv. Inr (kv, m')))"

definition remove_entry_if ::
  "('k \<Rightarrow> u64) \<Rightarrow> 'k \<Rightarrow> ('v \<Rightarrow> bool) \<Rightarrow> ('k, 'v) chash_map \<Rightarrow> (('k \<times> 'v) option \<times> ('k, 'v) chash_map) run" where
  "remove_entry_if hash key predicate m =
     (case bucket_entry (hash key) key (buckets m) of
        Some i \<Rightarrow>
          (case buckets m ! i of
             Data k v \<Rightarrow>
               if predicate v then
                 rbind (count_remove hash (m\<lparr>buckets := (buckets m)[i := Removed]\<rparr>)) (\<lambda>m'. Inr (Some (k, v), m'))
               else Inr (None, m)
           | _ \<Rightarrow> Inr (None, m))
      | None \<Rightarrow> Inr (None, m))"

definition remove_entry :: "('k \<Rightarrow> u64) \<Rightarrow> 'k \<Rightarrow> ('k, 'v) chash_map \<Rightarrow> (('k \<times> 'v) option \<times> ('k, 'v) chash_map) run" where
  "remove_entry hash key m = remove_entry_if hash key (\<lambda>_. True) m"

definition map_remove_if :: "('k \<Rightarrow> u64) \<Rightarrow> 'k \<Rightarrow> ('v \<Rightarrow> bool) \<Rightarrow> ('k, 'v) chash_map \<Rightarrow> ('v option \<times> ('k, 'v) chash_map) run" where
  "map_remove_if hash key predicate m =
     rbind (remove_entry_if hash key predicate m) (\<lambda>(r, m'). Inr (map_option snd r, m'))"

definition map_remove :: "('k \<Rightarrow> u64) \<Rightarrow> 'k \<Rightarrow> ('k, 'v) chash_map \<Rightarrow> ('v option \<times> ('k, 'v) chash_map) run" where
  "map_remove hash key m = rbind (remove_entry hash key m) (\<lambda>(r, m'). Inr (map_option snd r, m'))"

definition try_remove_entry ::
  "('k \<Rightarrow> u64) \<Rightarrow> 'k \<Rightarrow> ('v \<Rightarrow> 'e option) \<Rightarrow> ('k, 'v) chash_map \<Rightarrow> (('e option + 'k \<times> 'v) \<times> ('k, 'v) chash_map) run" where
  "try_remove_entry hash key predicate m =
     (case bucket_entry (hash key) key (buckets m) of
        Some i \<Rightarrow>
          (case buckets m ! i of
             Data k v \<Rightarrow>
               (case predicate v of
                  None \<Rightarrow> rbind (count_remove hash (m\<lparr>buckets := (buckets m)[i := Removed]\<rparr>)) (\<lambda>m'. Inr (Inr (k, v), m'))
                | Some err \<Rightarrow> Inr (Inl (Some err), m))
           | _ \<Rightarrow> Inr (Inl None, m))
      | None \<Rightarrow> Inr (Inl None, m))"

definition try_remove ::
  "('k \<Rightarrow> u64) \<Rightarrow> 'k \<Rightarrow> ('v \<Rightarrow> 'e option) \<Rightarrow> ('k, 'v) chash_map \<Rightarrow> (('e option + 'v) \<times> ('k, 'v) chash_map) run" where
  "try_remove hash key predicate m =
     rbind (try_remove_entry hash key predicate m) (\<lambda>(r, m'). Inr (map_sum id snd r, m'))"

text \<open>The predicate may change the value.\<close>

fun retain_loop :: "('k \<Rightarrow> 'v \<Rightarrow> bool \<times> 'v) \<Rightarrow> ('k, 'v) entry list \<Rightarrow> nat \<Rightarrow> ('k, 'v) entry list \<times> nat" where
  "retain_loop predicate [] n = ([], n)"
| "retain_loop predicate (e # data) n =
     (let (e', n') =
        (case e of Data k v \<Rightarrow> (case predicate k v of (remain, v') \<Rightarrow> if remain then (Data k v', n) else (Removed, n - 1))
         | _ \<Rightarrow> (e, n));
        (data', n'') = retain_loop predicate data n'
      in (e' # data', n''))"

definition retain_mut :: "('k \<Rightarrow> 'v \<Rightarrow> bool \<times> 'v) \<Rightarrow> ('k, 'v) chash_map \<Rightarrow> ('k, 'v) chash_map" where
  "retain_mut predicate m =
     (case retain_loop predicate (buckets m) (map_len m) of (data, n) \<Rightarrow> \<lparr>buckets = data, map_len = n\<rparr>)"

definition retain :: "('k \<Rightarrow> 'v \<Rightarrow> bool) \<Rightarrow> ('k, 'v) chash_map \<Rightarrow> ('k, 'v) chash_map" where
  "retain predicate m = retain_mut (\<lambda>k v. (predicate k v, v)) m"

fun into_iter :: "('k, 'v) entry list \<Rightarrow> ('k \<times> 'v) list" where
  "into_iter [] = []"
| "into_iter (ent # data) = (case ent of Data k v \<Rightarrow> (k, v) # into_iter data | _ \<Rightarrow> into_iter data)"

section \<open>Probing\<close>

definition pos :: "nat \<Rightarrow> nat \<Rightarrow> nat \<Rightarrow> nat" where
  "pos h n q = (h + q) mod n"

lemma pos_less: "0 < n \<Longrightarrow> pos h n q < n"
  by (simp add: pos_def)

lemma probe_pos: "probe hash n = map (pos (unat hash) n) [0..<n]"
  by (simp add: probe_def pos_def mod_add_left_eq)

lemma pos_surj:
  assumes "i < n"
  obtains p where "p < n" "pos h n p = i"
proof
  let ?p = "(i + (n - h mod n)) mod n"
  show "?p < n" using assms by simp
  have "pos h n ?p = (h mod n + (i + (n - h mod n))) mod n" by (simp add: pos_def mod_add_left_eq mod_add_right_eq)
  also have "h mod n + (i + (n - h mod n)) = i + n"
    using mod_less_divisor [of n h] assms by linarith
  finally show "pos h n ?p = i" using assms by simp
qed

section \<open>The contents of the buckets\<close>

text \<open>The entries as a list of pairs are what \<open>into_iter\<close> gives; keys occur once.\<close>

definition lookup :: "('k, 'v) entry list \<Rightarrow> 'k \<rightharpoonup> 'v" where
  "lookup data = map_of (into_iter data)"

lemma into_iter_append [simp]: "into_iter (xs @ ys) = into_iter xs @ into_iter ys"
  by (induction xs) (auto split: entry.splits)

lemma into_iter_replicate [simp]: "into_iter (replicate n Empty) = []"
  by (induction n) auto

lemma in_into_iter: "(k, v) \<in> set (into_iter data) \<longleftrightarrow> Data k v \<in> set data"
  by (induction data) (auto split: entry.splits)

lemma into_iter_update:
  assumes "i < length data"
  shows "into_iter (data[i := e]) = into_iter (take i data) @ into_iter [e] @ into_iter (drop (Suc i) data)"
proof -
  have "data[i := e] = take i data @ [e] @ drop (Suc i) data" using assms by (simp add: upd_conv_take_nth_drop)
  then show ?thesis by (simp only: into_iter_append)
qed

lemma into_iter_split:
  "i < length data \<Longrightarrow> into_iter data = into_iter (take i data) @ into_iter [data ! i] @ into_iter (drop (Suc i) data)"
  using into_iter_update [of i data "data ! i"] by simp

definition keys_distinct :: "('k, 'v) entry list \<Rightarrow> bool" where
  "keys_distinct data \<longleftrightarrow> distinct (map fst (into_iter data))"

lemma lookup_Some: "keys_distinct data \<Longrightarrow> lookup data k = Some v \<longleftrightarrow> Data k v \<in> set data"
  by (simp add: lookup_def keys_distinct_def in_into_iter [symmetric])

lemma lookup_None: "lookup data k = None \<longleftrightarrow> (\<forall>v. Data k v \<notin> set data)"
  by (simp add: lookup_def map_of_eq_None_iff image_iff) (metis fst_conv in_into_iter prod.collapse)

text \<open>Writing an entry.\<close>

lemma map_of_middle: "k \<notin> fst ` set A \<Longrightarrow> map_of (A @ (k, v) # B) = (map_of (A @ B))(k \<mapsto> v)"
  by (induction A) auto

lemma map_of_without: "k \<notin> fst ` set A \<Longrightarrow> k \<notin> fst ` set B \<Longrightarrow> map_of (A @ B) = (map_of (A @ (k, v) # B))(k := None)"
  by (induction A) (auto simp: fun_upd_twist map_of_eq_None_iff)

lemma write_free:
  assumes "i < length data" "is_free (data ! i)" "keys_distinct data" "lookup data key = None"
  shows "keys_distinct (data[i := Data key v]) \<and> lookup (data[i := Data key v]) = (lookup data)(key \<mapsto> v)
    \<and> length (into_iter (data[i := Data key v])) = Suc (length (into_iter data))"
proof -
  define A where "A = into_iter (take i data)"
  define B where "B = into_iter (drop (Suc i) data)"
  have "into_iter [data ! i] = []" using assms(2) by (cases "data ! i") auto
  then have it: "into_iter data = A @ B" "into_iter (data[i := Data key v]) = A @ (key, v) # B"
    using into_iter_split [OF assms(1)] into_iter_update [OF assms(1)] by (simp_all add: A_def B_def)
  have "key \<notin> fst ` set A" "key \<notin> fst ` set B"
    using assms(4) by (auto simp: lookup_def map_of_eq_None_iff it simp del: map_of_append)
  then show ?thesis using assms(3) map_of_middle [of key A v B] by (simp add: keys_distinct_def lookup_def it del: map_of_append)
qed

lemma write_same:
  assumes "i < length data" "data ! i = Data key v0" "keys_distinct data"
  shows "keys_distinct (data[i := Data key v]) \<and> lookup (data[i := Data key v]) = (lookup data)(key \<mapsto> v)
    \<and> length (into_iter (data[i := Data key v])) = length (into_iter data)"
proof -
  define A where "A = into_iter (take i data)"
  define B where "B = into_iter (drop (Suc i) data)"
  have it: "into_iter data = A @ (key, v0) # B" "into_iter (data[i := Data key v]) = A @ (key, v) # B"
    using into_iter_split [OF assms(1)] into_iter_update [OF assms(1)] assms(2) by (simp_all add: A_def B_def)
  then have "key \<notin> fst ` set A" using assms(3) by (auto simp: keys_distinct_def)
  then show ?thesis using assms(3) map_of_middle [of key A _ B] by (simp add: keys_distinct_def lookup_def it del: map_of_append)
qed

lemma write_removed:
  assumes "i < length data" "data ! i = Data key v0" "keys_distinct data"
  shows "keys_distinct (data[i := Removed]) \<and> lookup (data[i := Removed]) = (lookup data)(key := None)
    \<and> Suc (length (into_iter (data[i := Removed]))) = length (into_iter data)"
proof -
  define A where "A = into_iter (take i data)"
  define B where "B = into_iter (drop (Suc i) data)"
  have it: "into_iter data = A @ (key, v0) # B" "into_iter (data[i := Removed]) = A @ B"
    using into_iter_split [OF assms(1)] into_iter_update [OF assms(1)] assms(2) by (simp_all add: A_def B_def)
  then have "key \<notin> fst ` set A" "key \<notin> fst ` set B" using assms(3) by (auto simp: keys_distinct_def)
  then show ?thesis using assms(3) map_of_without [of key A B v0] by (simp add: keys_distinct_def lookup_def it del: map_of_append)
qed

section \<open>The invariant of the table\<close>

text \<open>No empty slot lies between the first slot that is probed for a key and the slot of the key.\<close>

definition reaches :: "u64 \<Rightarrow> ('k, 'v) entry list \<Rightarrow> nat \<Rightarrow> bool" where
  "reaches h data i \<longleftrightarrow> (\<exists>p<length data. pos (unat h) (length data) p = i
     \<and> (\<forall>q<p. data ! pos (unat h) (length data) q \<noteq> Empty))"

definition table_inv :: "('k \<Rightarrow> u64) \<Rightarrow> ('k, 'v) entry list \<Rightarrow> bool" where
  "table_inv hash data \<longleftrightarrow> 0 < length data \<and> keys_distinct data
     \<and> (\<forall>i<length data. \<forall>k v. data ! i = Data k v \<longrightarrow> reaches (hash k) data i)"

lemma reaches_less: "reaches h data i \<Longrightarrow> i < length data"
  by (auto simp: reaches_def intro: pos_less)

text \<open>Writing anything but an empty entry keeps keys reachable.\<close>

lemma reaches_write: "reaches h data j \<Longrightarrow> e \<noteq> Empty \<Longrightarrow> reaches h (data[i := e]) j"
proof -
  assume "reaches h data j" and e: "e \<noteq> Empty"
  then obtain p where p: "p < length data" "pos (unat h) (length data) p = j"
    "\<And>q. q < p \<Longrightarrow> data ! pos (unat h) (length data) q \<noteq> Empty"
    by (auto simp: reaches_def)
  have "data[i := e] ! x \<noteq> Empty" if "data ! x \<noteq> Empty" for x
    using that e by (cases "i < length data") (auto simp: nth_list_update list_update_beyond)
  then show ?thesis using p by (auto simp: reaches_def)
qed

lemma table_inv_write:
  assumes "table_inv hash data" "e \<noteq> Empty" "keys_distinct (data[i := e])" "\<And>k v. e = Data k v \<Longrightarrow> reaches (hash k) data i"
  shows "table_inv hash (data[i := e])"
proof -
  have "reaches (hash k) (data[i := e]) j" if "j < length data" "data[i := e] ! j = Data k v" for j k v
    using that assms(1,2) assms(4) [of k v] by (cases "j = i") (auto simp: table_inv_def intro!: reaches_write)
  then show ?thesis using assms(1,3) by (simp add: table_inv_def)
qed

lemma table_inv_empty: "0 < n \<Longrightarrow> table_inv hash (with_capacity n)" "lookup (with_capacity n) = Map.empty"
  "into_iter (with_capacity n) = []" "length (with_capacity n) = n"
  by (simp_all add: table_inv_def with_capacity_def keys_distinct_def lookup_def)

text \<open>Looking at all slots.\<close>

lemma find_Some: "find P xs = Some x \<Longrightarrow> x \<in> set xs \<and> P x"
  by (induction xs) (auto split: if_splits)

lemma find_slot_key:
  assumes "table_inv hash data"
  shows "find_slot h (contains_key key) data = Some i \<Longrightarrow> i < length data \<and> (\<exists>v. data ! i = Data key v \<and> lookup data key = Some v)"
    "find_slot h (contains_key key) data = None \<longleftrightarrow> lookup data key = None"
proof -
  have n: "0 < length data" and d: "keys_distinct data" using assms by (simp_all add: table_inv_def)
  show "i < length data \<and> (\<exists>v. data ! i = Data key v \<and> lookup data key = Some v)"
    if "find_slot h (contains_key key) data = Some i"
  proof -
    have i: "i < length data" "contains_key key (data ! i)"
      using find_Some [OF that [unfolded find_slot_def]] n by (auto simp: probe_pos intro: pos_less)
    then obtain v where "data ! i = Data key v" by (cases "data ! i") auto
    then show ?thesis using i d lookup_Some nth_mem by metis
  qed
  have "set (probe h (length data)) = {..<length data}"
    using n by (auto simp: probe_pos image_iff intro: pos_less) (metis atLeastLessThan_iff le0 pos_surj)
  then have "find_slot h (contains_key key) data = None \<longleftrightarrow> (\<forall>i<length data. \<not> contains_key key (data ! i))"
    by (simp add: find_slot_def find_None_iff Bex_def)
  also have "\<dots> \<longleftrightarrow> (\<forall>v. Data key v \<notin> set data)"
    by (auto simp: in_set_conv_nth) (metis contains_key.elims(2))
  finally show "find_slot h (contains_key key) data = None \<longleftrightarrow> lookup data key = None" by (simp add: lookup_None)
qed

text \<open>The slot for a key: its own slot, or the slot where it can be written.\<close>

lemma entry_loop_spec:
  assumes "table_inv hash data" "n = length data" "h = unat (hash key)" "p \<le> n"
    and "\<And>q. q < p \<Longrightarrow> data ! pos h n q \<noteq> Empty \<and> (\<forall>v. data ! pos h n q \<noteq> Data key v)"
    and "case free of None \<Rightarrow> \<forall>q<p. data ! pos h n q \<noteq> Removed | Some j \<Rightarrow> \<exists>q<p. j = pos h n q \<and> data ! j = Removed"
    and "entry_loop key data free (map (pos h n) [p..<n]) = r"
  shows "case r of
      Some i \<Rightarrow> (\<exists>v. data ! i = Data key v) \<and> i < n \<or> lookup data key = None \<and> is_free (data ! i) \<and> reaches (hash key) data i
    | None \<Rightarrow> lookup data key = None \<and> (\<forall>q<n. \<not> is_free (data ! pos h n q))"
  using assms
proof (induction "n - p" arbitrary: p free)
  case 0
  then have p: "p = n" "r = free" by auto
  have "lookup data key = None"
    unfolding lookup_None
  proof (intro allI notI)
    fix v assume "Data key v \<in> set data"
    then obtain i where i: "i < n" "data ! i = Data key v" using 0 by (auto simp: in_set_conv_nth)
    then obtain q where "q < n" "pos h n q = i" using pos_surj by blast
    then show False using 0(6) [of q] i p by auto
  qed
  moreover have "\<not> is_free (data ! pos h n q)" if "free = None" "q < n" for q
    using 0(6) [of q] 0(7) that p by (cases "data ! pos h n q") auto
  moreover have "is_free (data ! j) \<and> reaches (hash key) data j" if free: "free = Some j" for j
  proof -
    obtain q where "q < n" "j = pos h n q" "data ! j = Removed" using 0(7) p unfolding free by auto
    moreover have "\<forall>q'<q. data ! pos h n q' \<noteq> Empty" using 0(6) p \<open>q < n\<close> by auto
    ultimately show ?thesis using 0(3,4) unfolding reaches_def by (intro conjI exI [of _ q]) auto
  qed
  ultimately show ?case using p by (cases free) auto
next
  case (Suc m)
  let ?i = "pos h n p"
  have "p < n" and m: "m = n - Suc p" using Suc.hyps(2) by auto
  then have list: "map (pos h n) [p..<n] = ?i # map (pos h n) [Suc p..<n]" by (simp add: upt_conv_Cons)
  have i: "?i < n" using \<open>p < n\<close> by (intro pos_less) auto
  have reach: "reaches (hash key) data (pos h n q)" if "q \<le> p" for q
    unfolding reaches_def using Suc.prems(2,3,5) \<open>p < n\<close> that by (intro exI [of _ q]) auto
  show ?case
  proof (cases "data ! ?i")
    case Empty
    have none: "lookup data key = None"
      unfolding lookup_None
    proof (intro allI notI)
      fix v assume "Data key v \<in> set data"
      then obtain x where "x < n" "data ! x = Data key v" using Suc.prems(2) by (auto simp: in_set_conv_nth)
      then obtain q where q: "q < n" "pos h n q = x" "\<And>q'. q' < q \<Longrightarrow> data ! pos h n q' \<noteq> Empty"
        using Suc.prems(1,2,3) by (force simp: table_inv_def reaches_def)
      then show False using Empty \<open>data ! x = Data key v\<close> Suc.prems(5) [of q] by (cases q p rule: linorder_cases) auto
    qed
    have r: "r = Some (case free of Some j \<Rightarrow> j | None \<Rightarrow> ?i)" using Suc.prems(7) unfolding list by (simp add: Empty)
    show ?thesis
    proof (cases free)
      case None
      then show ?thesis using r Empty none reach [of p] by simp
    next
      case (Some j)
      then obtain q where "q < p" "j = pos h n q" "data ! j = Removed" using Suc.prems(6) by auto
      then show ?thesis using r Some none reach [of q] by simp
    qed
  next
    case (Data k v)
    show ?thesis
    proof (cases "k = key")
      case True
      then have "r = Some ?i" using Suc.prems(7) unfolding list by (simp add: Data)
      then show ?thesis using Data True i by simp
    next
      case False
      have "entry_loop key data free (map (pos h n) [Suc p..<n]) = r"
        using Suc.prems(7) unfolding list by (simp add: Data False)
      then show ?thesis
        using Suc.prems(1-6) Data False \<open>p < n\<close>
        by (intro Suc.hyps(1) [OF m]) (auto simp: less_Suc_eq split: option.splits)
    qed
  next
    case Removed
    let ?free = "case free of Some j \<Rightarrow> Some j | None \<Rightarrow> Some ?i"
    have "entry_loop key data ?free (map (pos h n) [Suc p..<n]) = r" using Suc.prems(7) unfolding list by (simp add: Removed)
    then show ?thesis
      using Suc.prems(1-6) Removed \<open>p < n\<close>
      by (intro Suc.hyps(1) [OF m, of ?free]) (auto simp: less_Suc_eq split: option.splits)
  qed
qed

lemma bucket_entry_spec:
  assumes "table_inv hash data"
  shows "case bucket_entry (hash key) key data of
      Some i \<Rightarrow> (\<exists>v. data ! i = Data key v \<and> lookup data key = Some v) \<and> i < length data
        \<or> lookup data key = None \<and> is_free (data ! i) \<and> reaches (hash key) data i
    | None \<Rightarrow> lookup data key = None \<and> (\<forall>i<length data. \<not> is_free (data ! i))"
proof -
  have d: "keys_distinct data" using assms by (simp add: table_inv_def)
  have "case bucket_entry (hash key) key data of
      Some i \<Rightarrow> (\<exists>v. data ! i = Data key v) \<and> i < length data
        \<or> lookup data key = None \<and> is_free (data ! i) \<and> reaches (hash key) data i
    | None \<Rightarrow> lookup data key = None \<and> (\<forall>q<length data. \<not> is_free (data ! pos (unat (hash key)) (length data) q))"
    using entry_loop_spec [OF assms refl refl, of 0 key None "bucket_entry (hash key) key data"]
    by (simp add: bucket_entry_def probe_pos)
  moreover have "lookup data key = Some v" if "data ! i = Data key v" "i < length data" for i v
    using lookup_Some [OF d] nth_mem [OF that(2)] that(1) by simp
  moreover have "\<not> is_free (data ! i)"
    if all: "\<forall>q<length data. \<not> is_free (data ! pos (unat (hash key)) (length data) q)" and i: "i < length data" for i
    using pos_surj [OF i, of "unat (hash key)"] all by metis
  ultimately show ?thesis by (auto split: option.splits)
qed

section \<open>Rehashing\<close>

lemma into_iter_length: "length (into_iter data) \<le> length data"
  by (induction data) (auto split: entry.splits)

lemma into_iter_full: "length (into_iter data) = length data \<longleftrightarrow> (\<forall>e\<in>set data. \<not> is_free e)"
proof (induction data)
  case (Cons e data)
  then show ?case using into_iter_length [of data] by (cases e) auto
qed simp

lemma find_mut_loop_spec:
  assumes "find_mut_loop h is_free data [p..<length data] = Inr r"
    and "\<And>q. q < p \<Longrightarrow> \<not> is_free (data ! pos (unat h) (length data) q)" "p \<le> length data" "length data < 2 ^ 64"
  shows "case r of Some i \<Rightarrow> is_free (data ! i) \<and> reaches h data i
    | None \<Rightarrow> \<forall>q<length data. \<not> is_free (data ! pos (unat h) (length data) q)"
  using assms
proof (induction "length data - p" arbitrary: p)
  case 0
  then show ?case by auto
next
  case (Suc m)
  let ?n = "length data"
  have "p < ?n" and m: "m = ?n - Suc p" using Suc.hyps(2) by auto
  then have list: "[p..<?n] = p # [Suc p..<?n]" by (simp add: upt_conv_Cons)
  obtain s where s: "add_chk h (of_nat p) = Inr s"
    and rest: "(if is_free (data ! (unat s mod ?n)) then Inr (Some (unat s mod ?n))
      else find_mut_loop h is_free data [Suc p..<?n]) = Inr r"
    using Suc.prems(1) unfolding list by (auto simp: rbind_Inr_conv Let_def simp del: upt_Suc)
  have "unat s mod ?n = pos (unat h) ?n p"
    using add_chk_Inr [OF s] \<open>p < ?n\<close> Suc.prems(4) by (simp add: pos_def unat_of_nat_lt)
  note rest = rest [unfolded this]
  show ?case
  proof (cases "is_free (data ! pos (unat h) ?n p)")
    case True
    have "data ! pos (unat h) ?n q \<noteq> Empty" if "q < p" for q using Suc.prems(2) [OF that] by auto
    then have "reaches h data (pos (unat h) ?n p)" using \<open>p < ?n\<close> by (auto simp: reaches_def)
    then show ?thesis using rest True by auto
  next
    case False
    then show ?thesis using rest Suc.prems \<open>p < ?n\<close> by (intro Suc.hyps(1) [OF m]) (auto simp: less_Suc_eq)
  qed
qed

lemma find_mut_spec:
  assumes "find_mut h is_free data = Inr r" "length data < 2 ^ 64"
  shows "case r of Some i \<Rightarrow> is_free (data ! i) \<and> reaches h data i | None \<Rightarrow> length (into_iter data) = length data"
proof -
  have "case r of Some i \<Rightarrow> is_free (data ! i) \<and> reaches h data i
    | None \<Rightarrow> \<forall>q<length data. \<not> is_free (data ! pos (unat h) (length data) q)"
    using find_mut_loop_spec [of h data 0 r] assms by (simp add: find_mut_def)
  moreover have "length (into_iter data) = length data"
    if "\<forall>q<length data. \<not> is_free (data ! pos (unat h) (length data) q)"
    unfolding into_iter_full using that pos_surj [of _ "length data" "unat h"] by (metis in_set_conv_nth)
  ultimately show ?thesis by (auto split: option.splits)
qed

lemma find_mut_fits:
  assumes "unat h + length data \<le> 2 ^ 64" "length data < 2 ^ 64"
  shows "\<exists>r. find_mut h is_free data = Inr r"
proof -
  have "\<exists>r. find_mut_loop h is_free data is = Inr r" if "\<forall>i\<in>set is. i < length data" for "is"
    using that
  proof (induction "is")
    case (Cons i "is")
    then have "add_chk h (of_nat i) = Inr (h + of_nat i)"
      using assms by (simp add: add_chk_def unat_of_nat_lt)
    then show ?case using Cons by (simp add: Let_def)
  qed simp
  then show ?thesis by (simp add: find_mut_def)
qed

text \<open>A hash close to the greatest word makes the sum overflow as soon as the first slot is taken.\<close>

lemma find_mut_overflows:
  assumes "2 \<le> length data" "\<not> is_free (data ! (unat (- 1 :: u64) mod length data))"
  shows "find_mut (- 1) is_free data = Inl ArithOverflow"
proof -
  have "0 < length data" "1 < length data" using assms(1) by linarith+
  then have list: "[0..<length data] = 0 # 1 # [2..<length data]"
    by (metis One_nat_def Suc_1 upt_conv_Cons)
  have "add_chk (- 1 :: u64) 0 = Inr (- 1)" "add_chk (- 1 :: u64) 1 = Inl ArithOverflow"
    by (simp_all add: add_chk_code Let_def)
  then show ?thesis unfolding find_mut_def list using assms(2) by (simp add: Let_def)
qed

definition hashes_fit :: "('k \<Rightarrow> u64) \<Rightarrow> nat \<Rightarrow> 'k set \<Rightarrow> bool" where
  "hashes_fit hash c K \<longleftrightarrow> c < 2 ^ 64 \<and> (\<forall>k\<in>K. unat (hash k) + c \<le> 2 ^ 64)"

lemma move_from_spec:
  assumes "table_inv hash data" "length data < 2 ^ 64"
    and "distinct (map fst (into_iter data @ into_iter other))"
    and "length (into_iter data) + length (into_iter other) \<le> length data"
    and "move_from hash data other = Inr data'"
  shows "table_inv hash data' \<and> length data' = length data \<and> lookup data' = lookup data ++ map_of (into_iter other)
    \<and> length (into_iter data') = length (into_iter data) + length (into_iter other)"
  using assms
proof (induction other arbitrary: data)
  case (Cons slot other)
  show ?case
  proof (cases slot)
    case (Data key val)
    obtain r where r: "find_mut (hash key) is_free data = Inr r"
      and rest: "(case r of Some i \<Rightarrow> move_from hash (data[i := Data key val]) other | None \<Rightarrow> move_from hash data other) = Inr data'"
      using Cons.prems(5) Data by (auto simp: rbind_Inr_conv)
    have "r \<noteq> None" using find_mut_spec [OF r Cons.prems(2)] Cons.prems(4) Data by (auto split: option.splits)
    then obtain i where i: "r = Some i" "is_free (data ! i)" "reaches (hash key) data i"
      using find_mut_spec [OF r Cons.prems(2)] by auto
    let ?data = "data[i := Data key val]"
    have d: "keys_distinct data" and none: "lookup data key = None"
      using Cons.prems(1,3) Data by (auto simp: table_inv_def lookup_def map_of_eq_None_iff)
    note w = write_free [OF reaches_less [OF i(3)] i(2) d none, of val]
    have "table_inv hash ?data" using i(3) w by (intro table_inv_write [OF Cons.prems(1)]) auto
    moreover have "fst ` set (into_iter ?data) = insert key (fst ` set (into_iter data))"
    proof -
      have "dom (lookup ?data) = insert key (dom (lookup data))" using w by simp
      then show ?thesis by (simp add: lookup_def dom_map_of_conv_image_fst)
    qed
    then have "distinct (map fst (into_iter ?data @ into_iter other))"
      using Cons.prems(3) Data w by (auto simp: keys_distinct_def)
    ultimately have res: "table_inv hash data' \<and> length data' = length ?data \<and> lookup data' = lookup ?data ++ map_of (into_iter other)
        \<and> length (into_iter data') = length (into_iter ?data) + length (into_iter other)"
      using rest i(1) Cons.prems(2,4) w Data by (intro Cons.IH) auto
    have upd: "(lookup data)(key \<mapsto> val) ++ map_of (into_iter other) = lookup data ++ map_of (into_iter (slot # other))"
    proof -
      have "key \<notin> dom (map_of (into_iter other))" using Cons.prems(3) Data by (auto simp: dom_map_of_conv_image_fst)
      then show ?thesis using Data by (simp add: map_add_upd_left)
    qed
    have "lookup data' = lookup data ++ map_of (into_iter (slot # other))" using res w upd by metis
    moreover have "length (into_iter (slot # other)) = Suc (length (into_iter other))" using Data by simp
    ultimately show ?thesis using res w by simp
  qed (use Cons in auto)
qed simp

lemma move_from_fits:
  assumes "hashes_fit hash (length data) (fst ` set (into_iter other))"
  shows "\<exists>data'. move_from hash data other = Inr data'"
  using assms
proof (induction other arbitrary: data)
  case (Cons slot other)
  show ?case
  proof (cases slot)
    case (Data key val)
    have fit: "hashes_fit hash (length data) (fst ` set (into_iter other))" using Cons.prems Data by (simp add: hashes_fit_def)
    obtain r where "find_mut (hash key) is_free data = Inr r"
      using find_mut_fits [of "hash key" data] Cons.prems Data by (auto simp: hashes_fit_def)
    then show ?thesis using Cons.IH [of data] Cons.IH [of "data[the r := Data key val]"] fit Data by (cases r) auto
  qed (use Cons in auto)
qed simp

section \<open>The map as a function\<close>

definition map_contents :: "('k, 'v) chash_map \<Rightarrow> 'k \<rightharpoonup> 'v" where
  "map_contents m = lookup (buckets m)"

definition map_inv :: "('k \<Rightarrow> u64) \<Rightarrow> ('k, 'v) chash_map \<Rightarrow> bool" where
  "map_inv hash m \<longleftrightarrow> table_inv hash (buckets m) \<and> MIN_CAPACITY \<le> length (buckets m)
     \<and> map_len m = length (into_iter (buckets m))"

lemma hashes_fit_mono: "hashes_fit hash c K \<Longrightarrow> c' \<le> c \<Longrightarrow> K' \<subseteq> K \<Longrightarrow> hashes_fit hash c' K'"
  by (fastforce simp: hashes_fit_def)

lemma dom_map_contents: "dom (map_contents m) = fst ` set (into_iter (buckets m))"
  by (simp add: map_contents_def lookup_def dom_map_of_conv_image_fst)

lemma with_hasher_inv: "map_inv hash with_hasher" "map_contents with_hasher = Map.empty"
  by (simp_all add: map_inv_def with_hasher_def MIN_CAPACITY_def table_inv_empty map_contents_def)

lemma rehash:
  assumes "map_inv hash m" "map_len m \<le> c" "MIN_CAPACITY \<le> c" "hashes_fit hash c (dom (map_contents m))"
  shows "\<exists>data. move_from hash (with_capacity c) (buckets m) = Inr data \<and> length data = c
    \<and> map_inv hash (m\<lparr>buckets := data\<rparr>) \<and> map_contents (m\<lparr>buckets := data\<rparr>) = map_contents m"
proof -
  note len = table_inv_empty(4)
  have c: "0 < c" using assms(3) by (simp add: MIN_CAPACITY_def)
  obtain data where data: "move_from hash (with_capacity c) (buckets m) = Inr data"
    using move_from_fits [of hash "with_capacity c" "buckets m"] assms(4) by (auto simp: len dom_map_contents)
  have "table_inv hash data \<and> length data = c \<and> lookup data = map_contents m \<and> length (into_iter data) = length (into_iter (buckets m))"
    using move_from_spec [OF table_inv_empty(1) [OF c] _ _ _ data] assms c
    by (simp add: table_inv_empty map_inv_def table_inv_def [of hash "buckets m"] keys_distinct_def hashes_fit_def map_contents_def
        lookup_def [of "buckets m"])
  then show ?thesis using data assms(1,3) by (simp add: map_inv_def map_contents_def)
qed

lemma grow_spec:
  assumes "map_inv hash m" "hashes_fit hash (old_len * 2) (dom (map_contents m))"
  shows "\<exists>m'. grow hash old_len m = Inr m' \<and> map_inv hash m' \<and> map_contents m' = map_contents m \<and> map_len m' = map_len m
    \<and> old_len * 2 \<le> length (buckets m')"
proof (cases "length (buckets m) < old_len * 2")
  case True
  then have "map_len m \<le> old_len * 2" "MIN_CAPACITY \<le> old_len * 2"
    using assms(1) into_iter_length [of "buckets m"] by (auto simp: map_inv_def)
  then show ?thesis using rehash [OF assms(1) _ _ assms(2)] True by (auto simp: grow_def GROW_FACTOR_def)
next
  case False
  then show ?thesis using assms(1) by (simp add: grow_def GROW_FACTOR_def)
qed

lemma shrink_spec:
  assumes "map_inv hash m" "map_len m \<le> new_len" "hashes_fit hash (max new_len MIN_CAPACITY) (dom (map_contents m))"
  shows "\<exists>m'. shrink hash new_len m = Inr m' \<and> map_inv hash m' \<and> map_contents m' = map_contents m \<and> map_len m' = map_len m
    \<and> (new_len < length (buckets m) \<longrightarrow> length (buckets m') = max new_len MIN_CAPACITY)"
proof -
  obtain data where "move_from hash (with_capacity (max new_len MIN_CAPACITY)) (buckets m) = Inr data"
    "length data = max new_len MIN_CAPACITY" "map_inv hash (m\<lparr>buckets := data\<rparr>)" "map_contents (m\<lparr>buckets := data\<rparr>) = map_contents m"
    using rehash [OF assms(1) max.coboundedI1 [OF assms(2)] max.cobounded2 assms(3)] by blast
  then show ?thesis using assms(1) by (simp add: shrink_def)
qed

lemma get_spec:
  assumes "map_inv hash m"
  shows "get hash key m = map_option (Pair key) (map_contents m key)"
  using assms find_slot_key [of hash "buckets m" "hash key" key]
  by (cases "find_slot (hash key) (contains_key key) (buckets m)") (auto simp: map_inv_def get_def map_contents_def)

lemma get_mut_spec:
  assumes "map_inv hash m" "map_contents m key = Some v"
  shows "\<exists>i. get_mut hash key m = Some i \<and> i < length (buckets m) \<and> buckets m ! i = Data key v"
  using assms find_slot_key [of hash "buckets m" "hash key" key]
  by (cases "find_slot (hash key) (contains_key key) (buckets m)") (auto simp: map_inv_def get_mut_def map_contents_def)

text \<open>Writing an entry that is new, and counting it.\<close>

lemma count_insert_spec:
  assumes "map_inv hash m" "map_contents m key = None" "is_free (buckets m ! i)" "reaches (hash key) (buckets m) i"
    and "hashes_fit hash ((map_len m + 1) * 2) (insert key (dom (map_contents m)))"
  shows "\<exists>m'. count_insert hash (m\<lparr>buckets := (buckets m)[i := Data key v]\<rparr>) = Inr m' \<and> map_inv hash m'
    \<and> map_contents m' = (map_contents m)(key \<mapsto> v)"
proof -
  let ?m = "m\<lparr>buckets := (buckets m)[i := Data key v], map_len := map_len m + 1\<rparr>"
  have t: "table_inv hash (buckets m)" using assms(1) by (simp add: map_inv_def)
  note w = write_free [OF reaches_less [OF assms(4)] assms(3), of key v]
  have w': "keys_distinct ((buckets m)[i := Data key v])" "map_contents ?m = (map_contents m)(key \<mapsto> v)"
    "length (into_iter ((buckets m)[i := Data key v])) = Suc (map_len m)"
    using w t assms(1,2) by (simp_all add: table_inv_def map_contents_def map_inv_def)
  have inv: "map_inv hash ?m"
    using table_inv_write [OF t _ w'(1)] assms(1,4) w'(3) by (auto simp: map_inv_def)
  moreover have "hashes_fit hash ((map_len m + 1) * 2) (dom (map_contents ?m))" using assms(5) w'(2) by simp
  ultimately show ?thesis
    using grow_spec [of hash ?m "map_len m + 1"] w'(2) by (auto simp: count_insert_def Let_def)
qed

lemma map_inv_overwrite:
  assumes "map_inv hash m" "i < length (buckets m)" "buckets m ! i = Data key v0"
  shows "map_inv hash (m\<lparr>buckets := (buckets m)[i := Data key v]\<rparr>)"
    "map_contents (m\<lparr>buckets := (buckets m)[i := Data key v]\<rparr>) = (map_contents m)(key \<mapsto> v)"
proof -
  have t: "table_inv hash (buckets m)" using assms(1) by (simp add: map_inv_def)
  note w = write_same [OF assms(2,3), of v]
  have "reaches (hash key) (buckets m) i" using t assms(2,3) by (auto simp: table_inv_def)
  then have "table_inv hash ((buckets m)[i := Data key v])"
    using w t by (intro table_inv_write) (auto simp: table_inv_def)
  then show "map_inv hash (m\<lparr>buckets := (buckets m)[i := Data key v]\<rparr>)"
    "map_contents (m\<lparr>buckets := (buckets m)[i := Data key v]\<rparr>) = (map_contents m)(key \<mapsto> v)"
    using w t assms(1) by (simp_all add: map_inv_def map_contents_def table_inv_def)
qed

lemma insert_step:
  assumes "map_inv hash m" "hashes_fit hash ((map_len m + 1) * 2) (insert key (dom (map_contents m)))"
    and "bucket_entry (hash key) key (buckets m) = Some i"
  shows "\<exists>m'. map_insert hash key v m = Some (Inr (map_option (Pair key) (map_contents m key), m')) \<and> map_inv hash m'
    \<and> map_contents m' = (map_contents m)(key \<mapsto> v)"
proof -
  consider (old) v0 where "buckets m ! i = Data key v0" "map_contents m key = Some v0" "i < length (buckets m)"
    | (new) "map_contents m key = None" "is_free (buckets m ! i)" "reaches (hash key) (buckets m) i"
    using bucket_entry_spec [of hash "buckets m" key] assms(1,3) by (auto simp: map_inv_def map_contents_def)
  then show ?thesis
  proof cases
    case old
    then show ?thesis using map_inv_overwrite [OF assms(1) old(3,1), of v] assms(3)
      by (subst map_insert.simps) (simp add: Let_def)
  next
    case new
    have "entry_data (buckets m ! i) = None" using new(2) by (cases "buckets m ! i") auto
    then show ?thesis using count_insert_spec [OF assms(1) new assms(2), of v] new assms(3)
      by (subst map_insert.simps) (auto simp: Let_def)
  qed
qed

lemma insert_spec:
  assumes "map_inv hash m" "hashes_fit hash ((map_len m + 1) * 4) (insert key (dom (map_contents m)))"
  shows "\<exists>m'. map_insert hash key v m = Some (Inr (map_option (Pair key) (map_contents m key), m')) \<and> map_inv hash m'
    \<and> map_contents m' = (map_contents m)(key \<mapsto> v)"
proof (cases "bucket_entry (hash key) key (buckets m)")
  case (Some i)
  have "hashes_fit hash ((map_len m + 1) * 2) (insert key (dom (map_contents m)))"
    by (rule hashes_fit_mono [OF assms(2)]) auto
  then show ?thesis using insert_step [OF assms(1)] Some by simp
next
  case None
  then have full: "map_len m = length (buckets m)"
    using bucket_entry_spec [of hash "buckets m" key] assms(1) into_iter_full [of "buckets m"]
    by (auto simp: map_inv_def in_set_conv_nth)
  obtain m' where m': "grow hash (map_len m * 2) m = Inr m'" "map_inv hash m'" "map_contents m' = map_contents m" "map_len m' = map_len m"
    "map_len m * 2 * 2 \<le> length (buckets m')"
    using grow_spec [OF assms(1), of "map_len m * 2"] hashes_fit_mono [OF assms(2), of "map_len m * 2 * 2" "dom (map_contents m)"] by auto
  have "map_len m' < length (buckets m')" using m'(4,5) full assms(1) by (simp add: map_inv_def MIN_CAPACITY_def)
  then obtain i where "bucket_entry (hash key) key (buckets m') = Some i"
    using bucket_entry_spec [of hash "buckets m'" key] m'(2) into_iter_full [of "buckets m'"]
    by (cases "bucket_entry (hash key) key (buckets m')") (auto simp: map_inv_def in_set_conv_nth)
  then obtain m'' where "map_insert hash key v m' = Some (Inr (map_option (Pair key) (map_contents m' key), m''))" "map_inv hash m''"
    "map_contents m'' = (map_contents m')(key \<mapsto> v)"
    using insert_step [OF m'(2), of key i v] hashes_fit_mono [OF assms(2), of "(map_len m + 1) * 2" "insert key (dom (map_contents m))"]
      m'(3,4) by auto
  then show ?thesis using None m'(1,3) by (subst map_insert.simps) (simp add: GROW_FACTOR_def)
qed

text \<open>Removing an entry, and counting it.\<close>

lemma count_remove_spec:
  assumes "map_inv hash m" "i < length (buckets m)" "buckets m ! i = Data key v"
    and "hashes_fit hash (length (buckets m)) (dom (map_contents m))"
  shows "\<exists>m'. count_remove hash (m\<lparr>buckets := (buckets m)[i := Removed]\<rparr>) = Inr m' \<and> map_inv hash m'
    \<and> map_contents m' = (map_contents m)(key := None)
    \<and> ((map_len m - 1) * 200 < length (buckets m) * 70 \<and> MIN_CAPACITY \<le> map_len m - 1 \<longrightarrow> map_len m' = length (buckets m'))"
proof -
  let ?m = "m\<lparr>buckets := (buckets m)[i := Removed], map_len := map_len m - 1\<rparr>"
  have t: "table_inv hash (buckets m)" using assms(1) by (simp add: map_inv_def)
  note w = write_removed [OF assms(2,3)]
  have w': "keys_distinct ((buckets m)[i := Removed])" "map_contents ?m = (map_contents m)(key := None)"
    "Suc (length (into_iter ((buckets m)[i := Removed]))) = map_len m"
    using w t assms(1) by (simp_all add: table_inv_def map_contents_def map_inv_def)
  have inv: "map_inv hash ?m"
    using table_inv_write [OF t _ w'(1)] assms(1) w'(3) by (auto simp: map_inv_def)
  have len: "map_len m - 1 < length (buckets m)" "MIN_CAPACITY \<le> length (buckets m)" "1 \<le> map_len m"
    using into_iter_length [of "buckets m"] assms(1) w'(3) by (auto simp: map_inv_def)
  have "hashes_fit hash (max (map_len m - 1) MIN_CAPACITY) (dom (map_contents ?m))"
    by (rule hashes_fit_mono [OF assms(4)]) (use len w'(2) in auto)
  then obtain m' where m': "shrink hash (map_len m - 1) ?m = Inr m'" "map_inv hash m'" "map_contents m' = map_contents ?m"
    "map_len m' = map_len m - 1" "length (buckets m') = max (map_len m - 1) MIN_CAPACITY"
    using shrink_spec [OF inv, of "map_len m - 1"] len by auto
  show ?thesis
  proof (cases "(map_len m - 1) * 200 < length (buckets m) * 70")
    case True
    then show ?thesis using m' w'(2) len
      by (simp add: count_remove_def nat_sub_chk_def Let_def GROW_FACTOR_def LOAD_FACTOR_D_def LOAD_FACTOR_N_def)
  next
    case False
    then show ?thesis using inv w'(2) len
      by (simp add: count_remove_def nat_sub_chk_def Let_def GROW_FACTOR_def LOAD_FACTOR_D_def LOAD_FACTOR_N_def)
  qed
qed

lemma remove_entry_if_spec:
  assumes "map_inv hash m" "hashes_fit hash (length (buckets m)) (dom (map_contents m))"
  shows "\<exists>m'. remove_entry_if hash key predicate m
      = Inr (case map_contents m key of Some v \<Rightarrow> if predicate v then Some (key, v) else None | None \<Rightarrow> None, m')
    \<and> map_inv hash m'
    \<and> map_contents m' = (case map_contents m key of Some v \<Rightarrow> if predicate v then (map_contents m)(key := None) else map_contents m
        | None \<Rightarrow> map_contents m)"
proof (cases "bucket_entry (hash key) key (buckets m)")
  case None
  then show ?thesis using bucket_entry_spec [of hash "buckets m" key] assms(1)
    by (simp add: map_inv_def map_contents_def remove_entry_if_def)
next
  case (Some i)
  then consider (old) v where "buckets m ! i = Data key v" "map_contents m key = Some v" "i < length (buckets m)"
    | (new) "map_contents m key = None" "is_free (buckets m ! i)"
    using bucket_entry_spec [of hash "buckets m" key] assms(1) by (auto simp: map_inv_def map_contents_def)
  then show ?thesis
  proof cases
    case old
    then show ?thesis using count_remove_spec [OF assms(1) old(3,1) assms(2)] assms(1) Some
      by (auto simp: remove_entry_if_def)
  next
    case new
    then show ?thesis using assms(1) Some by (cases "buckets m ! i") (auto simp: remove_entry_if_def)
  qed
qed

lemma try_remove_entry_spec:
  assumes "map_inv hash m" "hashes_fit hash (length (buckets m)) (dom (map_contents m))"
  shows "\<exists>m'. try_remove_entry hash key predicate m
      = Inr (case map_contents m key of Some v \<Rightarrow> (case predicate v of None \<Rightarrow> Inr (key, v) | Some e \<Rightarrow> Inl (Some e)) | None \<Rightarrow> Inl None, m')
    \<and> map_inv hash m'
    \<and> map_contents m' = (case map_contents m key of Some v \<Rightarrow> if predicate v = None then (map_contents m)(key := None) else map_contents m
        | None \<Rightarrow> map_contents m)"
proof (cases "bucket_entry (hash key) key (buckets m)")
  case None
  then show ?thesis using bucket_entry_spec [of hash "buckets m" key] assms(1)
    by (simp add: map_inv_def map_contents_def try_remove_entry_def)
next
  case (Some i)
  then consider (old) v where "buckets m ! i = Data key v" "map_contents m key = Some v" "i < length (buckets m)"
    | (new) "map_contents m key = None" "is_free (buckets m ! i)"
    using bucket_entry_spec [of hash "buckets m" key] assms(1) by (auto simp: map_inv_def map_contents_def)
  then show ?thesis
  proof cases
    case old
    then show ?thesis using count_remove_spec [OF assms(1) old(3,1) assms(2)] assms(1) Some
      by (cases "predicate v") (auto simp: try_remove_entry_def)
  next
    case new
    then show ?thesis using assms(1) Some by (cases "buckets m ! i") (auto simp: try_remove_entry_def)
  qed
qed

text \<open>Keeping entries.\<close>

definition retained :: "('k \<Rightarrow> 'v \<Rightarrow> bool \<times> 'v) \<Rightarrow> ('k, 'v) entry \<Rightarrow> ('k, 'v) entry" where
  "retained predicate e = (case e of Data k v \<Rightarrow> (case predicate k v of (remain, v') \<Rightarrow> if remain then Data k v' else Removed) | _ \<Rightarrow> e)"

lemma retain_loop_spec:
  "length (into_iter data) \<le> n \<Longrightarrow> retain_loop predicate data n
    = (map (retained predicate) data, n + length (into_iter (map (retained predicate) data)) - length (into_iter data))"
  by (induction data arbitrary: n) (auto simp: retained_def Let_def split: entry.splits prod.splits)

lemma into_iter_retained:
  "into_iter (map (retained predicate) data) = map (\<lambda>(k, v). (k, snd (predicate k v))) (filter (\<lambda>(k, v). fst (predicate k v)) (into_iter data))"
  by (induction data) (auto simp: retained_def split: entry.splits prod.splits)

lemma map_of_retained:
  "distinct (map fst xs) \<Longrightarrow> map_of (map (\<lambda>(k, v). (k, g k v)) (filter (\<lambda>(k, v). f k v) xs)) k
    = (case map_of xs k of None \<Rightarrow> None | Some v \<Rightarrow> if f k v then Some (g k v) else None)"
proof (induction xs)
  case (Cons x xs)
  then show ?case by (cases x) (auto simp: map_of_eq_None_iff image_iff split: option.splits)
qed simp

lemma retain_mut_spec:
  assumes "map_inv hash m"
  shows "map_inv hash (retain_mut predicate m)"
    "map_contents (retain_mut predicate m) k
      = (case map_contents m k of None \<Rightarrow> None | Some v \<Rightarrow> if fst (predicate k v) then Some (snd (predicate k v)) else None)"
proof -
  let ?data = "buckets m"
  have t: "table_inv hash ?data" and len: "map_len m = length (into_iter ?data)" using assms by (simp_all add: map_inv_def)
  then have d: "distinct (map fst (into_iter ?data))" by (simp add: table_inv_def keys_distinct_def)
  have m: "retain_mut predicate m = \<lparr>buckets = map (retained predicate) ?data,
      map_len = length (into_iter (map (retained predicate) ?data))\<rparr>"
    using retain_loop_spec [of ?data "map_len m" predicate] len by (simp add: retain_mut_def)
  have "map fst (into_iter (map (retained predicate) ?data))
      = map fst (filter (\<lambda>(k, v). fst (predicate k v)) (into_iter ?data))"
    by (simp add: into_iter_retained split_def)
  then have d': "keys_distinct (map (retained predicate) ?data)"
    using d distinct_map_filter [of fst "into_iter ?data" "\<lambda>(k, v). fst (predicate k v)"] by (simp add: keys_distinct_def)
  have ne: "retained predicate e = Empty \<longleftrightarrow> e = Empty" for e
    by (auto simp: retained_def split: entry.splits prod.splits)
  have "reaches (hash k) (map (retained predicate) ?data) i"
    if i: "i < length ?data" and e: "retained predicate (?data ! i) = Data k v" for i k v
  proof -
    obtain v0 where "?data ! i = Data k v0"
      using e by (cases "?data ! i") (auto simp: retained_def split: prod.splits if_splits)
    then have "reaches (hash k) ?data i" using t i by (simp add: table_inv_def)
    then obtain p where "p < length ?data" "pos (unat (hash k)) (length ?data) p = i"
      "\<forall>q<p. ?data ! pos (unat (hash k)) (length ?data) q \<noteq> Empty"
      by (auto simp: reaches_def)
    moreover have "pos (unat (hash k)) (length ?data) q < length ?data" for q using i by (intro pos_less) auto
    ultimately show ?thesis unfolding reaches_def using ne by (intro exI [of _ p]) simp
  qed
  then show "map_inv hash (retain_mut predicate m)"
    using assms t d' by (simp add: m map_inv_def table_inv_def)
  show "map_contents (retain_mut predicate m) k
      = (case map_contents m k of None \<Rightarrow> None | Some v \<Rightarrow> if fst (predicate k v) then Some (snd (predicate k v)) else None)"
    using map_of_retained [OF d, of "\<lambda>k v. snd (predicate k v)" "\<lambda>k v. fst (predicate k v)" k]
    by (simp add: m map_contents_def lookup_def into_iter_retained)
qed

section \<open>Maps without a free slot\<close>

text \<open>\<open>get_or_insert\<close> does not return if there is no slot for the key.\<close>

lemma get_or_insert_spins:
  assumes "bucket_entry (hash key) key (buckets m) = None"
  shows "get_or_insert hash key v m = None"
proof -
  have "bucket_entry (hash key) key (buckets m) \<noteq> None" if "get_or_insert hash key v m = Some y" for y
    using that
    by (rule get_or_insert.raw_induct [rotated, where P = "\<lambda>hash key v m y. bucket_entry (hash key) key (buckets m) \<noteq> None"])
      (fastforce split: option.splits)
  then show ?thesis using assms by (cases "get_or_insert hash key v m") auto
qed

lemma get_or_insert_spec:
  assumes "map_inv hash m" "hashes_fit hash ((map_len m + 1) * 2) (insert key (dom (map_contents m)))"
    and "bucket_entry (hash key) key (buckets m) = Some i"
  shows "\<exists>j m'. get_or_insert hash key v m = Some (Inr (j, m')) \<and> map_inv hash m' \<and> j < length (buckets m')
    \<and> buckets m' ! j = Data key (case map_contents m key of Some v0 \<Rightarrow> v0 | None \<Rightarrow> v)
    \<and> map_contents m' = (case map_contents m key of Some v0 \<Rightarrow> map_contents m | None \<Rightarrow> (map_contents m)(key \<mapsto> v))"
proof -
  consider (old) v0 where "buckets m ! i = Data key v0" "map_contents m key = Some v0" "i < length (buckets m)"
    | (new) "map_contents m key = None" "is_free (buckets m ! i)" "reaches (hash key) (buckets m) i"
    using bucket_entry_spec [of hash "buckets m" key] assms(1,3) by (auto simp: map_inv_def map_contents_def)
  then show ?thesis
  proof cases
    case old
    then show ?thesis using assms(1,3) by (subst get_or_insert.simps) simp
  next
    case new
    let ?m = "m\<lparr>buckets := (buckets m)[i := Data key v]\<rparr>" and ?len = "map_len m + 1"
    obtain m' where m': "count_insert hash ?m = Inr m'" "map_inv hash m'" "map_contents m' = (map_contents m)(key \<mapsto> v)"
      using count_insert_spec [OF assms(1) new assms(2), of v] by auto
    obtain j where j: "get_mut hash key m' = Some j" "j < length (buckets m')" "buckets m' ! j = Data key v"
      using get_mut_spec [OF m'(2), of key v] m'(3) by auto
    show ?thesis
    proof (cases "length (buckets m) * LOAD_FACTOR_N \<le> ?len * LOAD_FACTOR_D")
      case True
      then show ?thesis using m' j new assms(3) by (subst get_or_insert.simps) (simp add: count_insert_def Let_def)
    next
      case False
      then have "m' = ?m\<lparr>map_len := ?len\<rparr>" using m'(1) by (simp add: count_insert_def Let_def)
      then show ?thesis using m' new assms(3) reaches_less [OF new(3)] False
        by (subst get_or_insert.simps) (simp add: Let_def)
    qed
  qed
qed

section \<open>The hash function\<close>

text \<open>Every byte changes the state by a bijection, as the prime is odd.\<close>

lemma fnv_prime_inverse: "FNV_PRIME * 14886173955864302971 = (1 :: u64)"
  by (simp add: FNV_PRIME_def)

lemma fnv_step_inj: "(h XOR ucast b) * FNV_PRIME = (h' XOR ucast b) * FNV_PRIME \<Longrightarrow> h = (h' :: u64)"
proof -
  assume "(h XOR ucast b) * FNV_PRIME = (h' XOR ucast b) * FNV_PRIME"
  then have "(h XOR ucast b) * FNV_PRIME * 14886173955864302971 = (h' XOR ucast b) * FNV_PRIME * 14886173955864302971" by simp
  then have "h XOR ucast b = h' XOR ucast b" by (simp only: mult.assoc fnv_prime_inverse mult_1_right)
  then have "(h XOR ucast b) XOR ucast b = (h' XOR ucast b) XOR ucast b" by simp
  then show "h = h'" by (simp add: xor.assoc)
qed

lemma fnv_write_inj: "fnv_write h bs = fnv_write h' bs \<longleftrightarrow> h = h'"
  by (induction bs arbitrary: h h') (auto dest: fnv_step_inj)

section \<open>Capacities\<close>

lemma move_from_length: "move_from hash data other = Inr data' \<Longrightarrow> length data' = length data"
proof (induction other arbitrary: data)
  case (Cons slot other)
  then show ?case by (auto simp: rbind_Inr_conv split: entry.splits option.splits dest!: Cons.IH)
qed simp

lemma grow_length: "grow hash old_len m = Inr m' \<Longrightarrow> length (buckets m') = max (length (buckets m)) (old_len * 2) \<and> map_len m' = map_len m"
  by (auto simp: grow_def GROW_FACTOR_def Let_def rbind_Inr_conv table_inv_empty dest!: move_from_length split: if_splits)

lemma shrink_length: "shrink hash new_len m = Inr m' \<Longrightarrow> MIN_CAPACITY \<le> length (buckets m) \<Longrightarrow> length (buckets m') \<le> length (buckets m)"
  by (auto simp: shrink_def rbind_Inr_conv table_inv_empty dest!: move_from_length split: if_splits)

lemma insert_length:
  assumes "map_insert hash key v m = Some (Inr (r, m'))"
  shows "length (buckets m') \<le> max (length (buckets m)) ((map_len m + 1) * 4)"
proof -
  have "\<forall>r m'. y = Inr (r, m') \<longrightarrow> length (buckets m') \<le> max (length (buckets m)) ((map_len m + 1) * 4)"
    if "map_insert hash key v m = Some y" for y
    using that
  proof (rule map_insert.raw_induct [rotated, where
        P = "\<lambda>hash key v m y. \<forall>r m'. y = Inr (r, m') \<longrightarrow> length (buckets m') \<le> max (length (buckets m)) ((map_len m + 1) * 4)"])
    fix ins :: "('a \<Rightarrow> u64) \<Rightarrow> 'a \<Rightarrow> 'b \<Rightarrow> ('a, 'b) chash_map \<Rightarrow> (('a \<times> 'b) option \<times> ('a, 'b) chash_map) run option"
      and hash :: "'a \<Rightarrow> u64" and key v m y
    assume IH: "\<And>hash key v m y. ins hash key v m = Some y \<Longrightarrow>
        \<forall>r m'. y = Inr (r, m') \<longrightarrow> length (buckets m') \<le> max (length (buckets m)) ((map_len m + 1) * 4)"
      and body: "(case bucket_entry (hash key) key (buckets m) of
        None \<Rightarrow> (case grow hash (map_len m * GROW_FACTOR) m of Inl p \<Rightarrow> Some (Inl p) | Inr m' \<Rightarrow> ins hash key v m')
      | Some i \<Rightarrow>
          let old = buckets m ! i; m' = m\<lparr>buckets := (buckets m)[i := Data key v]\<rparr>
          in Some (rbind (if is_free old then count_insert hash m' else Inr m') (\<lambda>m''. Inr (entry_data old, m'')))) = Some y"
    show "\<forall>r m'. y = Inr (r, m') \<longrightarrow> length (buckets m') \<le> max (length (buckets m)) ((map_len m + 1) * 4)"
    proof (cases "bucket_entry (hash key) key (buckets m)")
      case None
      show ?thesis
      proof (cases "grow hash (map_len m * GROW_FACTOR) m")
        case (Inr m1)
        have "\<forall>r m'. y = Inr (r, m') \<longrightarrow> length (buckets m') \<le> max (length (buckets m1)) ((map_len m1 + 1) * 4)"
          using body None Inr IH [of hash key v m1 y] by simp
        then show ?thesis using grow_length [OF Inr] by (auto simp: GROW_FACTOR_def)
      qed (use body None in auto)
    next
      case (Some i)
      then show ?thesis using body
        by (auto simp: Let_def rbind_Inr_conv count_insert_def split: if_splits dest!: grow_length)
    qed
  qed
  then show ?thesis using assms by blast
qed

lemma count_remove_length: "count_remove hash m = Inr m' \<Longrightarrow> MIN_CAPACITY \<le> length (buckets m) \<Longrightarrow> length (buckets m') \<le> length (buckets m)"
  by (auto simp: count_remove_def rbind_Inr_conv Let_def nat_sub_chk_def split: if_splits dest!: shrink_length)

lemma try_remove_length:
  "try_remove hash key p m = Inr (r, m') \<Longrightarrow> MIN_CAPACITY \<le> length (buckets m) \<Longrightarrow> length (buckets m') \<le> length (buckets m)"
  by (auto simp: try_remove_def try_remove_entry_def rbind_Inr_conv split: option.splits entry.splits dest!: count_remove_length)

lemma map_remove_length:
  "map_remove hash key m = Inr (r, m') \<Longrightarrow> MIN_CAPACITY \<le> length (buckets m) \<Longrightarrow> length (buckets m') \<le> length (buckets m)"
  by (auto simp: map_remove_def remove_entry_def remove_entry_if_def rbind_Inr_conv split: option.splits entry.splits
      dest!: count_remove_length)

section \<open>What clients rely on\<close>

text \<open>
  The contract of a map with a capacity: \<open>fits m K\<close> says that there is no arithmetic overflow as long as the
  keys are in \<open>K\<close>.
\<close>

locale hash_map =
  fixes inv :: "'m \<Rightarrow> bool"
    and abs :: "'m \<Rightarrow> 'k \<rightharpoonup> 'v"
    and fits :: "'m \<Rightarrow> 'k set \<Rightarrow> bool"
    and look :: "'k \<Rightarrow> 'm \<Rightarrow> ('k \<times> 'v) option"
    and ins :: "'k \<Rightarrow> 'v \<Rightarrow> 'm \<Rightarrow> (('k \<times> 'v) option \<times> 'm) run option"
    and try_rem :: "'k \<Rightarrow> ('v \<Rightarrow> 'e option) \<Rightarrow> 'm \<Rightarrow> (('e option + 'v) \<times> 'm) run"
    and rem :: "'k \<Rightarrow> 'm \<Rightarrow> ('v option \<times> 'm) run"
  assumes look: "inv m \<Longrightarrow> look k m = map_option (Pair k) (abs m k)"
    and ins: "inv m \<Longrightarrow> fits m (insert k (dom (abs m))) \<Longrightarrow>
      \<exists>m'. ins k v m = Some (Inr (map_option (Pair k) (abs m k), m')) \<and> inv m' \<and> abs m' = (abs m)(k \<mapsto> v)"
    and try_rem: "inv m \<Longrightarrow> fits m (dom (abs m)) \<Longrightarrow>
      \<exists>m'. try_rem k p m = Inr (case abs m k of Some v \<Rightarrow> (case p v of None \<Rightarrow> Inr v | Some e \<Rightarrow> Inl (Some e)) | None \<Rightarrow> Inl None, m')
        \<and> inv m' \<and> abs m' = (case abs m k of Some v \<Rightarrow> if p v = None then (abs m)(k := None) else abs m | None \<Rightarrow> abs m)"
    and rem: "inv m \<Longrightarrow> fits m (dom (abs m)) \<Longrightarrow>
      \<exists>m'. rem k m = Inr (abs m k, m') \<and> inv m' \<and> abs m' = (abs m)(k := None)"
begin

lemma insert_new:
  assumes "inv m" "fits m (insert k (dom (abs m)))" "abs m k = None"
  obtains m' where "ins k v m = Some (Inr (None, m'))" "inv m'" "abs m' = (abs m)(k \<mapsto> v)" "look k m' = Some (k, v)"
    "\<And>k'. k' \<noteq> k \<Longrightarrow> look k' m' = look k' m"
  using ins [OF assms(1,2), of v] assms look by fastforce

lemma try_remove_refused:
  assumes "inv m" "fits m (dom (abs m))" "abs m k = Some v" "p v = Some e"
  obtains m' where "try_rem k p m = Inr (Inl (Some e), m')" "inv m'" "abs m' = abs m"
  using try_rem [OF assms(1,2), of k p] assms(3,4) by auto

end

lemma map_remove_spec:
  assumes "map_inv hash m" "hashes_fit hash (length (buckets m)) (dom (map_contents m))"
  shows "\<exists>m'. map_remove hash key m = Inr (map_contents m key, m') \<and> map_inv hash m' \<and> map_contents m' = (map_contents m)(key := None)"
  using remove_entry_if_spec [OF assms, of key "\<lambda>_. True"]
  by (auto simp: map_remove_def remove_entry_def fun_upd_idem split: option.splits)

lemma try_remove_spec:
  assumes "map_inv hash m" "hashes_fit hash (length (buckets m)) (dom (map_contents m))"
  shows "\<exists>m'. try_remove hash key predicate m
      = Inr (case map_contents m key of Some v \<Rightarrow> (case predicate v of None \<Rightarrow> Inr v | Some e \<Rightarrow> Inl (Some e)) | None \<Rightarrow> Inl None, m')
    \<and> map_inv hash m'
    \<and> map_contents m' = (case map_contents m key of Some v \<Rightarrow> if predicate v = None then (map_contents m)(key := None) else map_contents m
        | None \<Rightarrow> map_contents m)"
  using try_remove_entry_spec [OF assms, of key predicate]
  by (auto simp: try_remove_def split: option.splits)

definition map_fits :: "('k \<Rightarrow> u64) \<Rightarrow> ('k, 'v) chash_map \<Rightarrow> 'k set \<Rightarrow> bool" where
  "map_fits hash m K \<longleftrightarrow> hashes_fit hash (length (buckets m) + (map_len m + 1) * 4) K"

lemma map_fitsD:
  assumes "map_fits hash m K"
  shows "hashes_fit hash (length (buckets m)) K" "hashes_fit hash ((map_len m + 1) * 4) K" "hashes_fit hash ((map_len m + 1) * 2) K"
  by (auto intro!: hashes_fit_mono [OF assms [unfolded map_fits_def]])

interpretation chash: hash_map "map_inv hash" map_contents "map_fits hash" "get hash" "map_insert hash" "try_remove hash" "map_remove hash"
  for hash
  by unfold_locales
    (simp_all only: get_spec insert_spec map_remove_spec try_remove_spec map_fitsD)

end
