(* ===== verification/CHash_Props.thy ===== *)
theory CHash_Props
  imports CHash_Map
begin

text \<open>
  The properties of the hash map of theory \<open>CHash_Map\<close>: it refines a partial function, and a case in which a thread
  on its own never returns. Both are about operations that run one after the other.
\<close>

section \<open>Properties\<close>

text \<open>
  C29. The hash map refines a partial function. A new map is empty; a look-up returns what the function has; \<open>insert\<close> ends,
  does not panic, returns the entry that it replaces and updates the function at the key only, also when it rehashes the table;
  \<open>remove_entry_if\<close> and \<open>try_remove_entry\<close> remove exactly an entry that the predicate accepts, also when they rehash; \<open>retain_mut\<close>
  keeps the entries that the predicate accepts, with their new values; the counter is the number of entries.
  The hypothesis on the hashes excludes the overflow of \<open>find_mut\<close>.
\<close>

theorem chash_map_refines_map:
  assumes "map_inv hash m" "map_fits hash m (insert key (dom (map_contents m)))"
  shows "get hash key m = map_option (Pair key) (map_contents m key)
    \<and> (\<exists>m'. map_insert hash key v m = Some (Inr (map_option (Pair key) (map_contents m key), m')) \<and> map_inv hash m'
        \<and> map_contents m' = (map_contents m)(key \<mapsto> v))
    \<and> (\<exists>m'. remove_entry_if hash key p m
          = Inr (case map_contents m key of Some v \<Rightarrow> if p v then Some (key, v) else None | None \<Rightarrow> None, m') \<and> map_inv hash m'
        \<and> map_contents m' = (case map_contents m key of Some v \<Rightarrow> if p v then (map_contents m)(key := None) else map_contents m | None \<Rightarrow> map_contents m))
    \<and> (\<exists>m'. try_remove_entry hash key e m
          = Inr (case map_contents m key of Some v \<Rightarrow> (case e v of None \<Rightarrow> Inr (key, v) | Some x \<Rightarrow> Inl (Some x)) | None \<Rightarrow> Inl None, m')
        \<and> map_inv hash m'
        \<and> map_contents m' = (case map_contents m key of Some v \<Rightarrow> if e v = None then (map_contents m)(key := None) else map_contents m
            | None \<Rightarrow> map_contents m))
    \<and> map_inv hash (retain_mut q m)
    \<and> map_contents (retain_mut q m)
        = (\<lambda>k. case map_contents m k of None \<Rightarrow> None | Some v \<Rightarrow> if fst (q k v) then Some (snd (q k v)) else None)
    \<and> map_len m = card (dom (map_contents m)) \<and> map_inv hash with_hasher \<and> dom (map_contents with_hasher) = {}"
proof -
  have fit: "hashes_fit hash (length (buckets m)) (dom (map_contents m))"
    by (rule hashes_fit_mono [OF map_fitsD(1) [OF assms(2)]]) auto
  have "map_len m = card (dom (map_contents m))"
    using assms(1) distinct_card [of "map fst (into_iter (buckets m))"]
    by (simp add: dom_map_contents map_inv_def table_inv_def keys_distinct_def)
  then show ?thesis
    using get_spec [OF assms(1)] insert_spec [OF assms(1) map_fitsD(2) [OF assms(2)], of v] remove_entry_if_spec [OF assms(1) fit, of key p]
      try_remove_entry_spec [OF assms(1) fit, of key e] retain_mut_spec [OF assms(1), of q] with_hasher_inv(1) [of hash]
    by (simp add: with_hasher_inv(2) fun_eq_iff [of "map_contents (retain_mut q m)"])
qed

text \<open>Witness: an insertion into a new map with small hashes.\<close>

theorem chash_map_refines_map_witness:
  "\<exists>m'. map_insert (of_nat :: nat \<Rightarrow> u64) 5 True with_hasher = Some (Inr (None, m')) \<and> map_contents m' = [5 \<mapsto> True]"
proof -
  have "map_inv of_nat (with_hasher :: (nat, bool) chash_map)" by (rule with_hasher_inv)
  moreover have "map_fits of_nat (with_hasher :: (nat, bool) chash_map) (insert 5 (dom (map_contents (with_hasher :: (nat, bool) chash_map))))"
    by (simp add: with_hasher_inv(2)) (simp add: map_fits_def hashes_fit_def with_hasher_def table_inv_empty MIN_CAPACITY_def)
  ultimately show ?thesis
    using chash_map_refines_map [of of_nat "with_hasher :: (nat, bool) chash_map" 5 True "\<lambda>_. True" "\<lambda>_. None :: unit option"
        "\<lambda>_ v. (True, v)"]
    by (auto simp: with_hasher_inv(2))
qed

text \<open>
  A removal that shrinks a map which keeps at least \<open>MIN_CAPACITY\<close> entries leaves a table without a free slot: its new
  capacity is the number of entries. \<open>get_or_insert\<close> of another key then spins, with the table locked for reading, until another
  thread removes an entry of this table; without one it spins for ever.
\<close>

theorem shrink_makes_get_or_insert_spin:
  assumes "map_inv hash m" "hashes_fit hash (length (buckets m)) (dom (map_contents m))" "map_contents m key = Some v"
    and "MIN_CAPACITY < map_len m" "(map_len m - 1) * 200 < length (buckets m) * 70" "map_contents m other = None"
  shows "\<exists>m'. remove_entry hash key m = Inr (Some (key, v), m') \<and> map_len m' = length (buckets m')
    \<and> get_or_insert hash other w m' = None"
proof -
  obtain i where i: "bucket_entry (hash key) key (buckets m) = Some i" "buckets m ! i = Data key v" "i < length (buckets m)"
    using bucket_entry_spec [of hash "buckets m" key] assms(1,3)
    by (cases "bucket_entry (hash key) key (buckets m)") (auto simp: map_inv_def map_contents_def)
  obtain m' where m': "count_remove hash (m\<lparr>buckets := (buckets m)[i := Removed]\<rparr>) = Inr m'" "map_inv hash m'"
    "map_contents m' = (map_contents m)(key := None)" "map_len m' = length (buckets m')"
    using count_remove_spec [OF assms(1) i(3,2) assms(2)] assms(4,5) by auto
  have full: "\<forall>e\<in>set (buckets m'). \<not> is_free e" using m'(2,4) into_iter_full [of "buckets m'"] by (simp add: map_inv_def)
  have "map_contents m' other = None" using m'(3) assms(6) by simp
  moreover have "reaches h data i \<Longrightarrow> i < length data" for h i and data :: "('a, 'b) entry list" by (rule reaches_less)
  ultimately have "bucket_entry (hash other) other (buckets m') = None"
    using bucket_entry_spec [of hash "buckets m'" other] m'(2) full
    by (cases "bucket_entry (hash other) other (buckets m')") (auto simp: map_inv_def map_contents_def dest!: nth_mem)
  then show ?thesis using i m' get_or_insert_spins by (auto simp: remove_entry_def remove_entry_if_def)
qed

text \<open>Witness: 13 entries are inserted, which makes the table grow to 26 slots, and 3 are removed; the next removal shrinks it to 9 slots.\<close>

definition insert_all :: "nat list \<Rightarrow> (nat, nat) chash_map \<Rightarrow> (nat, nat) chash_map option" where
  "insert_all ks m = fold (\<lambda>k r. Option.bind r (\<lambda>m. case map_insert of_nat k k m of Some (Inr (_, m')) \<Rightarrow> Some m' | _ \<Rightarrow> None)) ks (Some m)"

definition remove_all :: "nat list \<Rightarrow> (nat, nat) chash_map \<Rightarrow> (nat, nat) chash_map option" where
  "remove_all ks m = fold (\<lambda>k r. Option.bind r (\<lambda>m. case map_remove of_nat k m of Inr (_, m') \<Rightarrow> Some m' | _ \<Rightarrow> None)) ks (Some m)"

definition sample_buckets :: "(nat, nat) entry list" where
  "sample_buckets = [Removed, Removed, Removed, Data 3 3, Data 4 4, Data 5 5, Data 6 6, Data 7 7, Data 8 8, Data 9 9, Data 10 10,
     Data 11 11, Data 12 12, Empty, Empty, Empty, Empty, Empty, Empty, Empty, Empty, Empty, Empty, Empty, Empty, Empty]"

lemma sample_map:
  "map_option (\<lambda>m. (buckets m, map_len m)) (Option.bind (insert_all [0..<13] with_hasher) (remove_all [0..<3])) = Some (sample_buckets, 10)"
  by code_simp

lemma table_inv_direct:
  assumes "0 < length data" "keys_distinct data"
    and "list_all (\<lambda>(i, e). case e of Data k v \<Rightarrow> unat (hash k) mod length data = i | _ \<Rightarrow> True) (enumerate 0 data)"
  shows "table_inv hash data"
proof -
  have "reaches (hash k) data i" if "i < length data" "data ! i = Data k v" for i k v
  proof -
    have "pos (unat (hash k)) (length data) 0 = i"
      using assms(3) that by (auto simp: list_all_length nth_enumerate_eq pos_def)
    then show ?thesis using assms(1) by (auto simp: reaches_def)
  qed
  then show ?thesis using assms(1,2) by (simp add: table_inv_def)
qed

lemma sample_map_inv: "map_inv of_nat \<lparr>buckets = sample_buckets, map_len = 10\<rparr>"
  unfolding map_inv_def
proof (intro conjI)
  show "table_inv of_nat (buckets \<lparr>buckets = sample_buckets, map_len = 10\<rparr>)"
    by (rule table_inv_direct) (simp_all add: sample_buckets_def keys_distinct_def)
qed (simp_all add: sample_buckets_def MIN_CAPACITY_def)

theorem shrink_makes_get_or_insert_spin_witness:
  "\<exists>m m'. Option.bind (insert_all [0..<13] with_hasher) (remove_all [0..<3]) = Some m
    \<and> remove_entry of_nat 3 m = Inr (Some (3, 3), m') \<and> get_or_insert of_nat 100 0 m' = None"
proof -
  let ?m = "\<lparr>buckets = sample_buckets, map_len = 10\<rparr>"
  obtain m where "Option.bind (insert_all [0..<13] with_hasher) (remove_all [0..<3]) = Some m" "m = ?m"
    using sample_map by auto
  moreover have "map_contents ?m 3 = Some 3" "map_contents ?m 100 = None"
    by (simp_all add: map_contents_def lookup_def sample_buckets_def)
  moreover have "hashes_fit of_nat (length (buckets ?m)) (dom (map_contents ?m))"
    by (simp add: dom_map_contents) (simp add: sample_buckets_def hashes_fit_def)
  ultimately show ?thesis
    using shrink_makes_get_or_insert_spin [OF sample_map_inv, of 3 3 100 0]
    by (simp add: MIN_CAPACITY_def sample_buckets_def) blast
qed

end
