(* ===== verification/Spec2Isabelle.thy ===== *)
theory Spec2Isabelle
  imports Bitop Buddy Range_Map Resource Syscall Paging_Ranges Path_Names Path_Order Bootfs Interrupt Deque_Inv CHash_Props
begin

text \<open>
  A verification of parts of Oceanic, an operating system with a microkernel (H2O, \<open>h2o/\<close>) and a user space
  (\<open>src/\<close>), written in Rust. Paths in this development are relative to the directory of the sources.

  \<^bold>\<open>The program.\<close> The kernel manages physical memory (\<open>h2o/libs/pmm\<close>), maps it through page tables
  (\<open>h2o/libs/paging\<close>), hands out ranges of device resources (\<open>h2o/kernel/src/dev/res.rs\<close>, on the ordered range map of
  \<open>h2o/libs/collection_ex\<close>), routes interrupts (\<open>h2o/kernel/src/dev/x86_64/ioapic.rs\<close>,
  \<open>h2o/kernel/src/cpu\<close>), schedules tasks from work-stealing queues (\<open>h2o/kernel/src/sched\<close>), and is entered
  through system calls whose results are encoded into registers (\<open>h2o/libs/syscall\<close>, \<open>h2o/kernel/src/syscall.rs\<close>). All memory
  components compute with the bit operations of \<open>h2o/libs/bitop_ex\<close>. The user space starts from a boot file
  system (\<open>src/lib/bootfs\<close>), has a standard library (\<open>src/lib/h2o_std\<close>) and talks to servers in
  packets (\<open>src/lib/h2o_rpc\<close>).

  \<^bold>\<open>How code is modelled.\<close> Pure functions are functions; code that changes state takes the state and returns it
  updated. A panic is a value: \<open>'a run\<close> (theory \<open>Prelude\<close>) is \<open>Inl\<close> of a panic or \<open>Inr\<close> of a result, and arithmetic is
  checked where the dev profile checks it. A \<open>Result\<close> is a sum with the error on the left. Machine integers are
  words of their width where their bits or their overflow matter; sizes and offsets that stay far below \<open>2^64\<close>, and the
  indices of the work-stealing queue, are numbers. Loops are structural or come with a
  termination proof; loops whose end depends on an invariant are \<open>partial_function (option)\<close>, with \<open>None\<close> for a loop that does
  not end, and their end is proved (\<open>Iterators\<close>, \<open>Deque\<close>); no definition uses fuel. Operations under one
  lock are atomic. Third-party crates and devices are arguments of the definitions, and the
  behaviour that the code relies on is a locale, interpreted by a concrete instance: the intrusive
  list of the page frames (\<open>linked_list\<close>), the page allocator of the page tables (\<open>page_alloc\<close>), the raw
  memory representation of structures (\<open>plain\<close>), the registers and bit fields of an I/O APIC (\<open>ioapic_hw\<close>). The
  sources' own interfaces are locales as well: \<open>serde_reg\<close>, \<open>serde_packet\<close>, \<open>iterator\<close>.

  \<^bold>\<open>Theories.\<close>
  \<^item> \<open>Prelude\<close>: results, panics, checked arithmetic, slices.
  \<^item> \<open>Bitop\<close> (\<open>bitop_ex/src/lib.rs\<close>): rounding and logarithms at any word width, against division and powers.
  \<^item> \<open>Buddy\<close> (\<open>pmm/src/buddy.rs\<close>, \<open>boot.rs\<close>): the buddy allocator; the state is the two zones with their free lists
    and the orders of the frames. The invariant says that the free blocks are aligned, disjoint and coalesced; allocation,
    deallocation, their exact variants and the initialisation keep it and change the set of free pages by exactly the
    pages concerned; owned blocks stay disjoint under every sequence of operations.
  \<^item> \<open>BTree_Map\<close> and \<open>Range_Map\<close> (\<open>range_map.rs\<close>): the standard library's ordered map as a sorted list, and first-fit
    allocation and look-up of ranges on it.
  \<^item> \<open>Resource\<close> (\<open>dev/res.rs\<close>): the tree of device resources in a store with reference counts; reachable resources lie in
    the range of their parents.
  \<^item> \<open>Syscall\<close>: error codes, the register encoding and the dispatch of system calls.
  \<^item> \<open>Paging\<close> (definitions), \<open>Paging_Walk\<close> (the tree of tables and single pages), \<open>Paging_Ranges\<close> (ranges of pages;
    \<open>paging/src\<close>): after \<open>maps\<close> the translation that the processor performs is the requested one, and failed calls roll
    back.
  \<^item> \<open>Iterators\<close>, \<open>Path\<close> (definitions), \<open>Path_Components\<close>, \<open>Path_Ops\<close>, \<open>Path_Names\<close>, \<open>Path_Order\<close> (\<open>h2o_std/core/src/path.rs\<close>):
    the double-ended component iterator against a reference parser, and the operations of paths in terms of components.
  \<^item> \<open>Packet\<close> (\<open>h2o_rpc/core/src/packet.rs\<close>): serialisation round trips for all implementations of the trait.
  \<^item> \<open>Bootfs\<close> (\<open>bootfs/src\<close>): every file of a generated image is found with its contents.
  \<^item> \<open>Ioapic\<close> and \<open>Interrupt\<close> (\<open>ioapic.rs\<close>, \<open>cpu/x86_64/intr.rs\<close>, \<open>cpu/intr.rs\<close>): register accesses refine a map of
    routes, and interrupt objects have exclusive vectors.
  \<^item> \<open>Deque\<close> (definitions) and \<open>Deque_Inv\<close> (\<open>sched/imp/deque.rs\<close>): the operations of the owner and the stealers of a
    work-stealing queue as steps that interleave in any order; no task is lost or taken twice, each step refines a step on a
    list, and all operations are wait-free.

  \<^bold>\<open>Composition.\<close> \<open>Range_Map\<close> is built on \<open>BTree_Map\<close>, \<open>Resource\<close> and \<open>Interrupt\<close> on \<open>Range_Map\<close>, \<open>Interrupt\<close> on \<open>Ioapic\<close>
    and \<open>Resource\<close>, \<open>Paging\<close> and \<open>Buddy\<close> on \<open>Bitop\<close>, \<open>Bootfs\<close> on the byte strings of \<open>Packet\<close>, and \<open>Packet\<close> on the error codes of
    \<open>Syscall\<close>; the theories import each other accordingly.

  \<^bold>\<open>Not modelled.\<close> Code whose effect is on processor or device state that the sources only name (assembly
  entries, segment and APIC set-up, the TLB, port I/O, context switches, the boot loader's firmware calls); code that is a single
  system call per function (\<open>h2o_rs\<close>) or that wires servers together (\<open>src/bin\<close>, \<open>h2o_fs\<close>, \<open>h2o_async\<close>); code generators and
  macros (\<open>syscall_gen\<close>, \<open>h2o_rpc/gen\<close>, \<open>xtask\<close>); formatting and logging. Memory orderings weaker than
  sequential consistency are outside of the queue model, and the \<open>Injector\<close> of the same file is not modelled.
\<close>

end
